(* ===== verification/Proxy_Prelude.thy ===== *)
theory Proxy_Prelude
  imports Main "HOL-Library.Word"
begin

unbundle bit_operations_syntax

text \<open>
  The shared layer of the development: the machine integers and error kinds the Rust sources
  use, byte readers (\<open>std::io::Read\<close> over a cursor, and the tokio reader over a byte stream),
  and the interface of a wire format. A reader is a function from the bytes not yet consumed to
  a result and the bytes left, also when it fails, since some callers go on after an error.

  The locale \<open>codec\<close> states what an encoder promises to its decoder; every wire element of
  the proxy (VLQ numbers, short strings, addresses, features, modifier ids, modifiers, frames)
  is shown to be one, and the list lemmas proved here once are what the message bodies use.
\<close>

section \<open>Machine integers and errors\<close>

type_synonym u8 = "8 word"
type_synonym u16 = "16 word"
type_synonym u32 = "32 word"
type_synonym u64 = "64 word"
type_synonym bytes = "u8 list"

text \<open>The signed types have the same bits; \<open>sint\<close> reads them.\<close>

type_synonym i32 = "32 word"
type_synonym i64 = "64 word"

text \<open>The error kinds of \<open>std::io::Error\<close> that the sources construct or pass on.\<close>

datatype io_error = UnexpectedEof | InvalidData | TimedOut | ConnectionReset | OtherIo

type_synonym 'a io_result = "io_error + 'a"

text \<open>A panic of a \<open>debug_assert!\<close>; builds without debug assertions never produce it.\<close>

datatype panic = DebugAssert

section \<open>Readers\<close>

type_synonym 'a reader = "bytes \<Rightarrow> 'a io_result \<times> bytes"

named_theorems reader_simps \<open>evaluation of readers on inputs of known shape\<close>

text \<open>
  \<open>Read::read_exact\<close> into a buffer of \<open>n\<close> bytes. A cursor with fewer bytes left fails with
  \<open>UnexpectedEof\<close> and is placed at its end; the asynchronous \<open>read_exact\<close> has consumed
  everything when it meets the end of the stream.
\<close>

definition read_exact :: "nat \<Rightarrow> bytes reader" where
  "read_exact n s = (if n \<le> length s then (Inr (take n s), drop n s) else (Inl UnexpectedEof, []))"

text \<open>The \<open>?\<close> operator: go on with the value, or return the error with the reader where it is.\<close>

definition rbind :: "'a reader \<Rightarrow> ('a \<Rightarrow> 'b reader) \<Rightarrow> 'b reader" where
  "rbind m k s = (case m s of (Inl e, s') \<Rightarrow> (Inl e, s') | (Inr x, s') \<Rightarrow> k x s')"

definition rreturn :: "'a \<Rightarrow> 'a reader" where
  "rreturn x s = (Inr x, s)"

definition rfail :: "io_error \<Rightarrow> 'a reader" where
  "rfail e s = (Inl e, s)"

text \<open>A one-byte buffer read and its only element taken.\<close>

definition read_u8 :: "u8 reader" where
  "read_u8 s = (case read_exact 1 s of (Inl e, s') \<Rightarrow> (Inl e, s') | (Inr b, s') \<Rightarrow> (Inr (hd b), s'))"

text \<open>\<open>for _ in 0..n { v.push(read()?) }\<close>.\<close>

fun read_times :: "nat \<Rightarrow> 'a reader \<Rightarrow> 'a list reader" where
  "read_times 0 r s = (Inr [], s)"
| "read_times (Suc n) r s =
     (case r s of (Inl e, s') \<Rightarrow> (Inl e, s')
      | (Inr x, s') \<Rightarrow>
          (case read_times n r s' of (Inl e, s'') \<Rightarrow> (Inl e, s'') | (Inr xs, s'') \<Rightarrow> (Inr (x # xs), s'')))"

lemma read_exact_append [simp, reader_simps]:
  "length xs = n \<Longrightarrow> read_exact n (xs @ rest) = (Inr xs, rest)"
  by (simp add: read_exact_def)

lemma read_exact_Inr_iff:
  "read_exact n s = (Inr xs, rest) \<longleftrightarrow> s = xs @ rest \<and> length xs = n"
  by (auto simp: read_exact_def)

lemma read_exact_Inl_iff:
  "read_exact n s = (Inl e, rest) \<longleftrightarrow> length s < n \<and> e = UnexpectedEof \<and> rest = []"
  by (auto simp: read_exact_def)

lemma read_u8_Cons [simp, reader_simps]: "read_u8 (b # s) = (Inr b, s)"
  by (simp add: read_u8_def read_exact_def)

lemma read_u8_Nil [simp, reader_simps]: "read_u8 [] = (Inl UnexpectedEof, [])"
  by (simp add: read_u8_def read_exact_def)

lemma read_u8_Inr_iff: "read_u8 s = (Inr b, rest) \<longleftrightarrow> s = b # rest"
  by (cases s) auto

lemma rbind_Inr [reader_simps]: "m s = (Inr x, s') \<Longrightarrow> rbind m k s = k x s'"
  by (simp add: rbind_def)

lemma rbind_Inl [reader_simps]: "m s = (Inl e, s') \<Longrightarrow> rbind m k s = (Inl e, s')"
  by (simp add: rbind_def)

lemma rreturn_app [simp, reader_simps]: "rreturn x s = (Inr x, s)"
  by (simp add: rreturn_def)

lemma rfail_app [simp, reader_simps]: "rfail e s = (Inl e, s)"
  by (simp add: rfail_def)

lemma rbind_Inr_iff:
  "rbind m k s = (Inr y, t) \<longleftrightarrow> (\<exists>x s'. m s = (Inr x, s') \<and> k x s' = (Inr y, t))"
  by (auto simp: rbind_def split: prod.splits sum.splits)

lemma rbind_Inl_iff:
  "rbind m k s = (Inl e, t) \<longleftrightarrow>
     m s = (Inl e, t) \<or> (\<exists>x s'. m s = (Inr x, s') \<and> k x s' = (Inl e, t))"
  by (auto simp: rbind_def split: prod.splits sum.splits)

lemma rbind_assoc: "rbind (rbind m f) g = rbind m (\<lambda>x. rbind (f x) g)"
  by (rule ext) (simp add: rbind_def split: prod.splits sum.splits)

lemma read_times_Suc_iff:
  "read_times (Suc n) r s = (Inr ys, t) \<longleftrightarrow>
     (\<exists>x xs s'. ys = x # xs \<and> r s = (Inr x, s') \<and> read_times n r s' = (Inr xs, t))"
  by (auto split: prod.splits sum.splits)

lemma read_times_map:
  "read_times n (rbind r (\<lambda>x. rreturn (f x))) s =
     (case read_times n r s of (Inl e, t) \<Rightarrow> (Inl e, t) | (Inr xs, t) \<Rightarrow> (Inr (map f xs), t))"
  by (induction n arbitrary: s) (auto simp: rbind_def split: prod.splits sum.splits)

lemma read_times_length: "read_times n r s = (Inr xs, t) \<Longrightarrow> length xs = n"
proof (induction n arbitrary: s xs)
  case (Suc n)
  then show ?case by (auto simp: read_times_Suc_iff simp del: read_times.simps)
qed simp

text \<open>
  A prefix reader: what it returns depends on the bytes it consumes only, not on what follows.
  Readers built from \<open>read_exact\<close> with \<open>?\<close> have this property; a reader that swallows
  errors has not.
\<close>

definition prefix_reader :: "'a reader \<Rightarrow> bool" where
  "prefix_reader r \<longleftrightarrow>
     (\<forall>s x t. r s = (Inr x, t) \<longrightarrow> (\<exists>u. s = u @ t \<and> (\<forall>t'. r (u @ t') = (Inr x, t'))))"

named_theorems prefix_intros \<open>closure of the prefix readers under the reader combinators\<close>

lemma prefix_readerI:
  "(\<And>s x t. r s = (Inr x, t) \<Longrightarrow> \<exists>u. s = u @ t \<and> (\<forall>t'. r (u @ t') = (Inr x, t'))) \<Longrightarrow> prefix_reader r"
  by (simp add: prefix_reader_def)

lemma prefix_readerE:
  assumes "prefix_reader r" "r s = (Inr x, t)"
  obtains u where "s = u @ t" "\<And>t'. r (u @ t') = (Inr x, t')"
  using assms unfolding prefix_reader_def by blast

lemma prefix_read_exact [prefix_intros]: "prefix_reader (read_exact n)"
  by (rule prefix_readerI) (auto simp: read_exact_Inr_iff)

lemma prefix_read_u8 [prefix_intros]: "prefix_reader read_u8"
  by (rule prefix_readerI) (auto simp: read_u8_Inr_iff)

lemma prefix_rreturn [prefix_intros]: "prefix_reader (rreturn x)"
  by (rule prefix_readerI) auto

lemma prefix_rfail [prefix_intros]: "prefix_reader (rfail e)"
  by (rule prefix_readerI) auto

lemma prefix_if [prefix_intros]:
  "prefix_reader r \<Longrightarrow> prefix_reader q \<Longrightarrow> prefix_reader (if c then r else q)"
  by simp

lemma prefix_rbind [prefix_intros]:
  assumes "prefix_reader m" "\<And>x. prefix_reader (k x)"
  shows "prefix_reader (rbind m k)"
proof (rule prefix_readerI)
  fix s y t assume "rbind m k s = (Inr y, t)"
  then obtain x s' where "m s = (Inr x, s')" "k x s' = (Inr y, t)" by (auto simp: rbind_Inr_iff)
  then obtain u v where "s = u @ s'" "s' = v @ t" "\<And>t'. m (u @ t') = (Inr x, t')" "\<And>t'. k x (v @ t') = (Inr y, t')"
    by (metis assms prefix_readerE)
  then show "\<exists>u. s = u @ t \<and> (\<forall>t'. rbind m k (u @ t') = (Inr y, t'))"
    by (intro exI [of _ "u @ v"]) (simp add: rbind_def)
qed

lemma prefix_read_times [prefix_intros]: "prefix_reader r \<Longrightarrow> prefix_reader (read_times n r)"
proof (induction n)
  case (Suc n)
  have "read_times (Suc n) r = rbind r (\<lambda>x. rbind (read_times n r) (\<lambda>xs. rreturn (x # xs)))"
    by (auto simp: fun_eq_iff rbind_def split: prod.splits sum.splits)
  then show ?case using Suc by (auto intro!: prefix_intros)
qed (auto intro: prefix_readerI)

section \<open>Wire formats\<close>

text \<open>
  \<open>ok\<close> are the values the format can carry, \<open>enc\<close> what is written for one, \<open>dec\<close> the reader.
  The only law of \<open>codec\<close> is that the reader, put in front of an encoded value and anything
  after it, returns the value and stops exactly behind it.
\<close>

locale codec =
  fixes enc :: "'a \<Rightarrow> bytes"
    and dec :: "'a reader"
    and ok :: "'a \<Rightarrow> bool"
  assumes dec_enc: "ok x \<Longrightarrow> dec (enc x @ rest) = (Inr x, rest)"
begin

lemma prefix_free: "ok x \<Longrightarrow> ok y \<Longrightarrow> enc x @ r = enc y @ t \<Longrightarrow> x = y \<and> r = t"
  by (metis dec_enc prod.inject sum.inject(2))

lemma dec_enc_exact: "ok x \<Longrightarrow> dec (enc x) = (Inr x, [])"
  using dec_enc [of x "[]"] by simp

lemma read_times_enc:
  "list_all ok xs \<Longrightarrow> length xs = n \<Longrightarrow> read_times n dec (concat (map enc xs) @ rest) = (Inr xs, rest)"
proof (induction xs arbitrary: n)
  case (Cons x xs)
  then show ?case by (cases n) (simp_all add: dec_enc)
qed simp

end

text \<open>
  A tight format also says something about bytes the encoder did not write: a value that was
  read can be written again, in no more bytes than were consumed for it.
\<close>

locale tight_codec = codec +
  assumes dec_tight: "dec s = (Inr x, t) \<Longrightarrow> ok x \<and> (\<exists>u. s = u @ t \<and> length (enc x) \<le> length u)"
begin

lemma dec_ok: "dec s = (Inr x, t) \<Longrightarrow> ok x"
  using dec_tight by blast

lemma reencode: "dec s = (Inr x, t) \<Longrightarrow> dec (enc x @ rest) = (Inr x, rest)"
  by (rule dec_enc) (rule dec_ok)

lemma read_times_tight:
  "read_times n dec s = (Inr xs, t) \<Longrightarrow>
     list_all ok xs \<and> (\<exists>u. s = u @ t \<and> length (concat (map enc xs)) \<le> length u)"
proof (induction n arbitrary: s xs)
  case 0
  then show ?case by auto
next
  case (Suc n)
  then obtain x ys s' where *: "xs = x # ys" "dec s = (Inr x, s')" "read_times n dec s' = (Inr ys, t)"
    by (auto simp: read_times_Suc_iff simp del: read_times.simps)
  from Suc.IH [OF *(3)] obtain v where
    v: "list_all ok ys" "s' = v @ t" "length (concat (map enc ys)) \<le> length v" by blast
  from dec_tight [OF *(2)] obtain u where
    u: "ok x" "s = u @ s'" "length (enc x) \<le> length u" by blast
  have "s = (u @ v) @ t" "length (concat (map enc xs)) \<le> length (u @ v)"
    using * u v by simp_all
  then show ?case using * u v by auto
qed

end

text \<open>Raw runs of bytes of a fixed length (\<open>[u8; n]\<close> arrays) are tight.\<close>

lemma raw_tight_codec: "tight_codec (\<lambda>x. x) (read_exact n) (\<lambda>x. length x = n)"
  by unfold_locales (auto simp: read_exact_Inr_iff)

interpretation byte_codec: tight_codec "\<lambda>b. [b]" read_u8 "\<lambda>_. True"
  by unfold_locales (auto simp: read_u8_Inr_iff)

section \<open>Conversions between bytes and integers\<close>

text \<open>\<open>u32::to_be_bytes\<close> and \<open>u32::from_be_bytes\<close>, \<open>u64::from_le_bytes\<close>.\<close>

definition u32_to_be_bytes :: "u32 \<Rightarrow> bytes" where
  "u32_to_be_bytes w =
     [ucast (drop_bit 24 w), ucast (drop_bit 16 w), ucast (drop_bit 8 w), ucast w]"

definition u32_from_be_bytes :: "u8 \<Rightarrow> u8 \<Rightarrow> u8 \<Rightarrow> u8 \<Rightarrow> u32" where
  "u32_from_be_bytes a b c d =
     push_bit 24 (ucast a) OR push_bit 16 (ucast b) OR push_bit 8 (ucast c) OR ucast d"

primrec u64_from_le_bytes :: "bytes \<Rightarrow> u64" where
  "u64_from_le_bytes [] = 0"
| "u64_from_le_bytes (b # bs) = ucast b OR push_bit 8 (u64_from_le_bytes bs)"

lemma length_u32_to_be_bytes [simp]: "length (u32_to_be_bytes w) = 4"
  by (simp add: u32_to_be_bytes_def)

lemma u32_be_bytes_roundtrip:
  "u32_from_be_bytes (ucast (drop_bit 24 w)) (ucast (drop_bit 16 w)) (ucast (drop_bit 8 w)) (ucast w) = w"
  unfolding u32_from_be_bytes_def
proof (rule bit_word_eqI)
  fix n assume n: "n < LENGTH(32)"
  then have "n < 8 \<or> 8 \<le> n \<and> n < 16 \<or> 16 \<le> n \<and> n < 24 \<or> 24 \<le> n \<and> n < 32" by auto
  with n show "bit (push_bit 24 (ucast (ucast (drop_bit 24 w) :: u8))
      OR push_bit 16 (ucast (ucast (drop_bit 16 w) :: u8))
      OR push_bit 8 (ucast (ucast (drop_bit 8 w) :: u8)) OR ucast (ucast w :: u8) :: u32) n = bit w n"
    by (auto simp add: bit_simps)
qed

lemma u32_from_be_bytes_byte:
  "ucast (u32_from_be_bytes a b c d) = d"
  "ucast (drop_bit 8 (u32_from_be_bytes a b c d)) = c"
  "ucast (drop_bit 16 (u32_from_be_bytes a b c d)) = b"
  "ucast (drop_bit 24 (u32_from_be_bytes a b c d)) = a"
  unfolding u32_from_be_bytes_def
  by ((rule bit_word_eqI, auto simp add: bit_simps dest: bit_imp_le_length)[1])+

lemma u32_to_from_be_bytes: "u32_to_be_bytes (u32_from_be_bytes a b c d) = [a, b, c, d]"
  by (simp add: u32_to_be_bytes_def u32_from_be_bytes_byte)

end
