(* ===== verification/Proxy_Types.thy ===== *)
theory Proxy_Types
  imports Proxy_Prelude
begin

text \<open>
  The types of \<open>src/types.rs\<close>: peer ids, modifier ids, protocol versions with their derived
  order, connection directions, networks with their magic bytes, proxy modes; and the addresses
  of \<open>std::net\<close> that handshakes carry. A Rust string is the list of its UTF-8 bytes.
\<close>

section \<open>Identifiers, versions, enumerations\<close>

datatype PeerId = PeerId u64

text \<open>\<open>[u8; 32]\<close>; \<open>is_modifier_id\<close> says that a byte list has that length.\<close>

type_synonym ModifierId = bytes

definition is_modifier_id :: "ModifierId \<Rightarrow> bool" where
  "is_modifier_id i \<longleftrightarrow> length i = 32"

datatype Version = Version (major: u8) (minor: u8) (patch: u8)

definition EIP37_MIN :: Version where
  "EIP37_MIN = Version 4 0 100"

datatype Direction = Outbound | Inbound

datatype Network = Mainnet | Testnet

fun Network_magic :: "Network \<Rightarrow> bytes" where
  "Network_magic Mainnet = [1, 0, 2, 4]"
| "Network_magic Testnet = [2, 3, 2, 3]"

datatype ProxyMode = Full | Light

text \<open>The derived \<open>PartialOrd\<close>/\<open>Ord\<close> of \<open>Version\<close> compares the fields in their order.\<close>

instantiation Version :: linorder
begin

definition less_eq_Version :: "Version \<Rightarrow> Version \<Rightarrow> bool" where
  "v \<le> w \<longleftrightarrow> major v < major w \<or> major v = major w \<and>
     (minor v < minor w \<or> minor v = minor w \<and> patch v \<le> patch w)"

definition less_Version :: "Version \<Rightarrow> Version \<Rightarrow> bool" where
  "v < w \<longleftrightarrow> v \<le> w \<and> v \<noteq> (w :: Version)"

instance
proof
  fix u v w :: Version
  show "v < w \<longleftrightarrow> v \<le> w \<and> \<not> w \<le> v"
    by (cases v; cases w) (auto simp: less_Version_def less_eq_Version_def)
  show "v \<le> v" by (simp add: less_eq_Version_def)
  show "u \<le> v \<Longrightarrow> v \<le> w \<Longrightarrow> u \<le> w" by (auto simp: less_eq_Version_def)
  show "v \<le> w \<Longrightarrow> w \<le> v \<Longrightarrow> v = w"
    by (cases v; cases w) (auto simp: less_eq_Version_def)
  show "v \<le> w \<or> w \<le> v" by (auto simp: less_eq_Version_def)
qed

end

lemma Version_less_iff:
  "v < w \<longleftrightarrow> major v < major w \<or> major v = major w \<and>
     (minor v < minor w \<or> minor v = minor w \<and> patch v < patch w)"
  by (cases v; cases w) (auto simp: less_Version_def less_eq_Version_def)

lemma length_magic [simp]: "length (Network_magic n) = 4"
  by (cases n) simp_all

lemma magic_inject [simp]: "Network_magic m = Network_magic n \<longleftrightarrow> m = n"
  by (cases m; cases n) simp_all

section \<open>Display\<close>

text \<open>Decimal digits of a number as \<open>write!(f, "{}", n)\<close> prints them.\<close>

fun show_dec :: "nat \<Rightarrow> bytes" where
  "show_dec n = (if n < 10 then [48 + of_nat n] else show_dec (n div 10) @ [48 + of_nat (n mod 10)])"

declare show_dec.simps [simp del]

definition ascii :: "string \<Rightarrow> bytes" where
  "ascii s = map of_char s"

definition PeerId_fmt :: "PeerId \<Rightarrow> bytes" where
  "PeerId_fmt p = (case p of PeerId n \<Rightarrow> ascii ''peer-'' @ show_dec (unat n))"

definition Version_fmt :: "Version \<Rightarrow> bytes" where
  "Version_fmt v = show_dec (unat (major v)) @ ascii ''.'' @ show_dec (unat (minor v)) @ ascii ''.''
     @ show_dec (unat (patch v))"

text \<open>Reading a run of digits back as a number: the value a decimal numeral denotes.\<close>

definition dec_value :: "bytes \<Rightarrow> nat" where
  "dec_value ds = foldl (\<lambda>n d. 10 * n + (unat d - 48)) 0 ds"

definition is_digit :: "u8 \<Rightarrow> bool" where
  "is_digit d \<longleftrightarrow> 48 \<le> d \<and> d \<le> 57"

lemma dec_value_snoc [simp]: "dec_value (ds @ [d]) = 10 * dec_value ds + (unat d - 48)"
  by (simp add: dec_value_def)

lemma unat_digit: "n < 10 \<Longrightarrow> unat (48 + of_nat n :: u8) = 48 + n"
  by (simp add: unat_word_ariths unat_of_nat)

lemma is_digit_of_nat: "n < 10 \<Longrightarrow> is_digit (48 + of_nat n)"
  by (simp add: is_digit_def word_le_nat_alt unat_digit)

lemma show_dec_value: "dec_value (show_dec n) = n"
proof (induction n rule: show_dec.induct)
  case (1 n)
  show ?case
  proof (cases "n < 10")
    case True
    then show ?thesis by (simp add: show_dec.simps [of n] dec_value_def unat_digit)
  next
    case False
    with 1 have "dec_value (show_dec (n div 10)) = n div 10" by simp
    with False show ?thesis by (simp add: show_dec.simps [of n] unat_digit)
  qed
qed

lemma show_dec_digits: "list_all is_digit (show_dec n)"
proof (induction n rule: show_dec.induct)
  case (1 n)
  then show ?case by (cases "n < 10") (simp_all add: show_dec.simps [of n] is_digit_of_nat)
qed

lemma show_dec_nonempty [simp]: "show_dec n \<noteq> []"
  by (simp add: show_dec.simps [of n])

section \<open>Socket addresses\<close>

text \<open>
  \<open>std::net::SocketAddr\<close>: an IPv4 address is four octets, an IPv6 address sixteen
  (\<open>addr_ok\<close>); an IPv6 socket address also has a flow label and a scope, which
  \<open>SocketAddr::new\<close> sets to zero.
\<close>

datatype IpAddr = V4 bytes | V6 bytes

datatype SocketAddr = SocketAddrV4 bytes u16 | SocketAddrV6 bytes u16 u32 u32

fun octets :: "IpAddr \<Rightarrow> bytes" where
  "octets (V4 ip) = ip"
| "octets (V6 ip) = ip"

fun SocketAddr_new :: "IpAddr \<Rightarrow> u16 \<Rightarrow> SocketAddr" where
  "SocketAddr_new (V4 ip) port = SocketAddrV4 ip port"
| "SocketAddr_new (V6 ip) port = SocketAddrV6 ip port 0 0"

fun SocketAddr_ip :: "SocketAddr \<Rightarrow> IpAddr" where
  "SocketAddr_ip (SocketAddrV4 ip _) = V4 ip"
| "SocketAddr_ip (SocketAddrV6 ip _ _ _) = V6 ip"

fun SocketAddr_port :: "SocketAddr \<Rightarrow> u16" where
  "SocketAddr_port (SocketAddrV4 _ port) = port"
| "SocketAddr_port (SocketAddrV6 _ port _ _) = port"

fun addr_ok :: "SocketAddr \<Rightarrow> bool" where
  "addr_ok (SocketAddrV4 ip _) \<longleftrightarrow> length ip = 4"
| "addr_ok (SocketAddrV6 ip _ _ _) \<longleftrightarrow> length ip = 16"

end
