(* ===== verification/Vlq.thy ===== *)
theory Vlq
  imports Proxy_Types
begin

unbundle bit_operations_syntax

text \<open>
  \<open>src/transport/vlq.rs\<close>: variable-length quantities, ZigZag numbers and short strings.
  \<open>vlq_value\<close> and the split of an input at its first byte without continuation bit are the
  reference reading of a VLQ; \<open>read_vlq_reference\<close> shows that the loop of \<open>read_vlq\<close> computes
  it on every input. The codec interpretations at the end are what the other theories use.
\<close>

section \<open>Definitions\<close>

function write_vlq :: "bytes \<Rightarrow> u64 \<Rightarrow> bytes" where
  "write_vlq buf value =
     (let byte = ucast (value AND 0x7f) :: u8; value' = drop_bit 7 value
      in if value' = 0 then buf @ [byte] else write_vlq (buf @ [byte OR 0x80]) value')"
  by pat_completeness auto
termination
proof (relation "measure (\<lambda>(buf, value). unat value)", simp, clarsimp)
  fix v :: u64
  assume "drop_bit 7 v \<noteq> 0"
  then have "v \<noteq> 0" by auto
  then show "unat (drop_bit 7 v) < unat v"
    by (simp add: drop_bit_eq_div unat_div unat_gt_0)
qed

declare write_vlq.simps [simp del]

text \<open>The loop of \<open>read_vlq\<close> with its variables \<open>result\<close> and \<open>shift\<close>.\<close>

function read_vlq_loop :: "u64 \<Rightarrow> nat \<Rightarrow> u64 reader" where
  "read_vlq_loop result shift s =
     (case read_u8 s of
        (Inl e, s') \<Rightarrow> (Inl e, s')
      | (Inr byte, s') \<Rightarrow>
          (let result' = result OR push_bit shift (ucast (byte AND 0x7f))
           in if byte AND 0x80 = 0 then (Inr result', s')
              else if shift + 7 > 63 then (Inl InvalidData, s')
              else read_vlq_loop result' (shift + 7) s'))"
  by pat_completeness auto
termination
  by (relation "measure (\<lambda>(result, shift, s). 64 - shift)") auto

declare read_vlq_loop.simps [simp del]

definition read_vlq :: "u64 reader" where
  "read_vlq = read_vlq_loop 0 0"

definition MAX_VLQ_LENGTH :: u64 where
  "MAX_VLQ_LENGTH = 256 * 1024"

definition read_vlq_length :: "nat reader" where
  "read_vlq_length = rbind read_vlq
     (\<lambda>val. if val > MAX_VLQ_LENGTH then rfail InvalidData else rreturn (unat val))"

definition zigzag_encode :: "i32 \<Rightarrow> u32" where
  "zigzag_encode value = push_bit 1 value XOR signed_drop_bit 31 value"

definition zigzag_decode :: "u32 \<Rightarrow> i32" where
  "zigzag_decode value = drop_bit 1 value XOR - (value AND 1)"

definition zigzag_encode_i64 :: "i64 \<Rightarrow> u64" where
  "zigzag_encode_i64 value = push_bit 1 value XOR signed_drop_bit 63 value"

definition zigzag_decode_i64 :: "u64 \<Rightarrow> i64" where
  "zigzag_decode_i64 value = drop_bit 1 value XOR - (value AND 1)"

text \<open>
  \<open>write_short_string\<close>: with debug assertions a string of more than 255 bytes panics; without
  them its length is truncated to a byte.
\<close>

definition write_short_string :: "bool \<Rightarrow> bytes \<Rightarrow> bytes \<Rightarrow> panic + bytes" where
  "write_short_string dbg buf s =
     (if dbg \<and> \<not> length s \<le> 255 then Inl DebugAssert else Inr (buf @ [of_nat (length s)] @ s))"

text \<open>\<open>String::from_utf8\<close>: the well-formed byte sequences of the Unicode standard.\<close>

definition utf8_cont :: "u8 \<Rightarrow> bool" where
  "utf8_cont b \<longleftrightarrow> 0x80 \<le> b \<and> b \<le> 0xBF"

definition utf8_second :: "u8 \<Rightarrow> u8 \<Rightarrow> bool" where
  "utf8_second a b \<longleftrightarrow>
     (if a = 0xE0 then 0xA0 \<le> b \<and> b \<le> 0xBF
      else if a = 0xED then 0x80 \<le> b \<and> b \<le> 0x9F
      else if a = 0xF0 then 0x90 \<le> b \<and> b \<le> 0xBF
      else if a = 0xF4 then 0x80 \<le> b \<and> b \<le> 0x8F
      else utf8_cont b)"

fun utf8_valid :: "bytes \<Rightarrow> bool" where
  "utf8_valid [] = True"
| "utf8_valid (a # s) =
     (if a < 0x80 then utf8_valid s
      else if 0xC2 \<le> a \<and> a \<le> 0xDF then
        (case s of b # t \<Rightarrow> utf8_cont b \<and> utf8_valid t | [] \<Rightarrow> False)
      else if 0xE0 \<le> a \<and> a \<le> 0xEF then
        (case s of b # c # t \<Rightarrow> utf8_second a b \<and> utf8_cont c \<and> utf8_valid t | _ \<Rightarrow> False)
      else if 0xF0 \<le> a \<and> a \<le> 0xF4 then
        (case s of b # c # d # t \<Rightarrow> utf8_second a b \<and> utf8_cont c \<and> utf8_cont d \<and> utf8_valid t
         | _ \<Rightarrow> False)
      else False)"

definition from_utf8 :: "bytes \<Rightarrow> bytes io_result" where
  "from_utf8 b = (if utf8_valid b then Inr b else Inl InvalidData)"

definition read_short_string :: "bytes reader" where
  "read_short_string = rbind read_u8 (\<lambda>len_byte. rbind (read_exact (unat len_byte))
     (\<lambda>b s. (from_utf8 b, s)))"

text \<open>Reference reading of a VLQ: the continuation bytes, and the number seven-bit groups denote.\<close>

definition vlq_cont :: "u8 \<Rightarrow> bool" where
  "vlq_cont b \<longleftrightarrow> b AND 0x80 \<noteq> 0"

primrec vlq_value :: "bytes \<Rightarrow> nat" where
  "vlq_value [] = 0"
| "vlq_value (b # bs) = unat b mod 128 + 128 * vlq_value bs"

definition vlq_reference :: "u64 reader" where
  "vlq_reference s =
     (let cs = takeWhile vlq_cont s
      in if 10 \<le> length cs then (Inl InvalidData, drop 10 s)
         else case dropWhile vlq_cont s of
                [] \<Rightarrow> (Inl UnexpectedEof, [])
              | b # t \<Rightarrow> (Inr (of_nat (vlq_value (cs @ [b]))), t))"

text \<open>The strings a short-string field can carry.\<close>

definition short_string :: "bytes \<Rightarrow> bool" where
  "short_string s \<longleftrightarrow> length s \<le> 255 \<and> utf8_valid s"

section \<open>Bytes of a VLQ\<close>

lemma and_7f [simp]: "(w :: 'a :: len word) AND 0x7f = take_bit 7 w"
  by (simp add: take_bit_eq_mask mask_eq_exp_minus_1)

lemma vlq_cont_bit: "vlq_cont b \<longleftrightarrow> bit b 7"
  using and_exp_eq_0_iff_not_bit [of b 7] by (simp add: vlq_cont_def)

lemma unat_take_bit_u8: "unat (take_bit 7 (b :: u8)) = unat b mod 128"
  by (simp add: take_bit_eq_mod unat_mod)

lemma take_bit_or_80 [simp]: "take_bit 7 (b OR 0x80 :: u8) = take_bit 7 b"
  using take_bit_or [of 7 b "0x80"] by simp

lemma vlq_cont_or_80 [simp]: "vlq_cont (b OR 0x80)"
  using bit_exp_iff [of 7 7, where ?'a = "8 word"] by (simp add: vlq_cont_bit bit_or_iff)

lemma vlq_cont_take_bit [simp]: "\<not> vlq_cont (ucast (take_bit 7 (v :: u64)))"
  by (simp add: vlq_cont_bit bit_simps)

text \<open>Seven bits below, the rest above: \<open>+\<close> and \<open>OR\<close> agree.\<close>

lemma of_nat_split7:
  assumes "x < 128"
  shows "(of_nat (x + 128 * y) :: u64) = of_nat x OR push_bit 7 (of_nat y)"
proof -
  have "of_nat x = take_bit 7 (of_nat x :: u64)"
    using assms by (intro word_unat_eq_iff [THEN iffD2]) (simp add: take_bit_eq_mod unat_mod unat_of_nat)
  then have "of_nat x AND push_bit 7 (of_nat y) = (0 :: u64)"
    by (metis (no_types, opaque_lifting) and_zero_eq bit_0_eq bit_and_iff bit_push_bit_iff bit_take_bit_iff
        bit_word_eqI bot_apply bot_bool_def linorder_not_le)
  then show ?thesis
    by (simp add: disjunctive_add_eq_or push_bit_eq_mult flip: disjunctive_add_eq_or)
qed

lemma vlq_value_bound: "vlq_value bs < 128 ^ length bs"
proof (induction bs)
  case (Cons b bs)
  have "unat b mod 128 + 128 * vlq_value bs < 128 + 128 * vlq_value bs" by simp
  also have "\<dots> = 128 * Suc (vlq_value bs)" by simp
  also have "\<dots> \<le> 128 * 128 ^ length bs" using Cons by (intro mult_le_mono2) simp
  finally show ?case by simp
qed simp

section \<open>Writing\<close>

lemma vlq_induct [case_names last more]:
  fixes v :: u64
  assumes "\<And>v :: u64. drop_bit 7 v = 0 \<Longrightarrow> P v"
    and "\<And>v :: u64. drop_bit 7 v \<noteq> 0 \<Longrightarrow> P (drop_bit 7 v) \<Longrightarrow> P v"
  shows "P v"
proof (induction v rule: measure_induct_rule [of unat])
  case (less v)
  show ?case
  proof (cases "drop_bit 7 v = 0")
    case False
    then have "v \<noteq> 0" by auto
    then have "unat (drop_bit 7 v) < unat v"
      by (simp add: drop_bit_eq_div unat_div unat_gt_0)
    with False less show ?thesis by (blast intro: assms(2))
  qed (rule assms(1))
qed

lemma write_vlq_append: "write_vlq buf v = buf @ write_vlq [] v"
proof (induction v arbitrary: buf rule: vlq_induct)
  case (last v)
  then show ?case by (simp add: write_vlq.simps [of _ v])
next
  case (more v)
  from more(1) show ?case
    by (simp add: write_vlq.simps [of _ v] more(2) [of "[_]"] more(2) [of "_ @ _"])
qed

lemma write_vlq_last: "drop_bit 7 v = 0 \<Longrightarrow> write_vlq [] v = [ucast (take_bit 7 v)]"
  by (simp add: write_vlq.simps [of _ v])

lemma write_vlq_more:
  "drop_bit 7 v \<noteq> 0 \<Longrightarrow>
     write_vlq [] v = (ucast (take_bit 7 v) OR 0x80) # write_vlq [] (drop_bit 7 v)"
  by (simp add: write_vlq.simps [of _ v] write_vlq_append [of "[_]"])

lemmas write_vlq_cases = write_vlq_last write_vlq_more

lemma unat_group: "unat (ucast (take_bit 7 (v :: u64)) :: u8) = unat v mod 128"
  by (simp add: unsigned_ucast_eq take_bit_eq_mod unat_mod)

lemma unat_group_mod: "unat (ucast (take_bit 7 v) OR 0x80 :: u8) mod 128 = unat (v :: u64) mod 128"
proof -
  have "unat (ucast (take_bit 7 v) OR 0x80 :: u8) mod 128 = unat (take_bit 7 (ucast (take_bit 7 v) OR 0x80 :: u8))"
    by (simp only: unat_take_bit_u8)
  also have "\<dots> = unat (ucast (take_bit 7 v) :: u8) mod 128"
    by (simp only: take_bit_or_80 unat_take_bit_u8)
  finally show ?thesis by (simp add: unat_group)
qed

lemma unat_drop7: "unat (drop_bit 7 (v :: u64)) = unat v div 128"
  by (simp add: drop_bit_eq_div unat_div)

lemma write_vlq_value: "vlq_value (write_vlq [] v) = unat v"
proof (induction v rule: vlq_induct)
  case (last v)
  then have "unat v div 128 = 0" by (metis unat_drop7 unat_0)
  with last show ?case by (simp add: write_vlq_last unat_group)
next
  case (more v)
  then show ?case by (simp add: write_vlq_more unat_group_mod unat_drop7)
qed

lemma write_vlq_nonempty [simp]: "write_vlq [] v \<noteq> []"
  by (cases "drop_bit 7 v = 0") (simp_all add: write_vlq_cases)

lemma write_vlq_takeWhile:
  "takeWhile vlq_cont (write_vlq [] v @ rest) = butlast (write_vlq [] v)"
  by (induction v rule: vlq_induct) (simp_all add: write_vlq_cases)

lemma write_vlq_dropWhile:
  "dropWhile vlq_cont (write_vlq [] v @ rest) = last (write_vlq [] v) # rest"
  by (induction v rule: vlq_induct) (simp_all add: write_vlq_cases)

lemma write_vlq_length_le: "unat v < 128 ^ n \<Longrightarrow> 0 < n \<Longrightarrow> length (write_vlq [] v) \<le> n"
proof (induction v arbitrary: n rule: vlq_induct)
  case (last v)
  then show ?case by (simp add: write_vlq_last)
next
  case (more v)
  obtain m where n: "n = Suc m" using more.prems by (cases n) auto
  have "0 < m"
  proof (rule ccontr)
    assume "\<not> 0 < m"
    with more.prems n have "unat (drop_bit 7 v) = 0" by (simp add: unat_drop7)
    with more.hyps show False by (simp add: unat_eq_zero)
  qed
  moreover have "unat (drop_bit 7 v) < 128 ^ m"
    using more.prems n by (simp add: unat_drop7 less_mult_imp_div_less mult.commute)
  ultimately show ?case using more n by (simp add: write_vlq_more)
qed

lemma write_vlq_length_le_10: "length (write_vlq [] v) \<le> 10"
  by (rule write_vlq_length_le) (use unsigned_less [of v, where ?'a = nat] in simp_all)

section \<open>Reading\<close>

lemma read_vlq_loop_Nil: "read_vlq_loop acc k [] = (Inl UnexpectedEof, [])"
  by (simp add: read_vlq_loop.simps [of _ _ "[]"])

lemma read_vlq_loop_Cons:
  "read_vlq_loop acc k (b # s) =
     (if \<not> vlq_cont b then (Inr (acc OR push_bit k (ucast (take_bit 7 b))), s)
      else if 56 < k then (Inl InvalidData, s)
      else read_vlq_loop (acc OR push_bit k (ucast (take_bit 7 b))) (k + 7) s)"
  by (auto simp: read_vlq_loop.simps [of _ _ "b # s"] vlq_cont_def Let_def)

lemma group_step:
  "(acc OR push_bit k (ucast (take_bit 7 (b :: u8))) :: u64) OR push_bit (k + 7) (of_nat y) =
     acc OR push_bit k (of_nat (unat b mod 128 + 128 * y))"
proof -
  have "(ucast (take_bit 7 b) :: u64) = of_nat (unat b mod 128)"
    by (rule word_unat_eq_iff [THEN iffD2])
      (simp add: unsigned_ucast_eq unat_of_nat unat_take_bit_u8 take_bit_eq_mod unat_mod)
  moreover have "unat b mod 128 < 128" by simp
  ultimately show ?thesis
    by (simp only: of_nat_split7 push_bit_or push_bit_push_bit or.assoc)
qed

lemma read_vlq_loop_reference:
  assumes "j \<le> 9"
  shows "read_vlq_loop acc (7 * j) s =
     (let cs = takeWhile vlq_cont s
      in if 10 \<le> j + length cs then (Inl InvalidData, drop (10 - j) s)
         else case dropWhile vlq_cont s of
                [] \<Rightarrow> (Inl UnexpectedEof, [])
              | b # t \<Rightarrow> (Inr (acc OR push_bit (7 * j) (of_nat (vlq_value (cs @ [b])))), t))"
  using assms
proof (induction s arbitrary: j acc)
  case Nil
  then show ?case by (simp add: read_vlq_loop_Nil)
next
  case (Cons b s)
  show ?case
  proof (cases "vlq_cont b")
    case False
    with Cons.prems show ?thesis
      using group_step [of acc "7 * j" b 0] by (simp add: read_vlq_loop_Cons)
  next
    case True
    show ?thesis
    proof (cases "j = 9")
      case True
      with \<open>vlq_cont b\<close> show ?thesis by (simp add: read_vlq_loop_Cons)
    next
      case False
      with Cons.prems have "Suc j \<le> 9" by simp
      from Cons.IH [OF this] False Cons.prems \<open>vlq_cont b\<close> show ?thesis
        by (auto simp: read_vlq_loop_Cons Let_def add.commute group_step [of _ "7 * j", simplified add.commute]
            Suc_diff_le drop_Cons' split: list.splits)
          (metis dropWhile_eq_Nil_conv list.distinct(1))
    qed
  qed
qed

lemma read_vlq_reference: "read_vlq s = vlq_reference s"
  using read_vlq_loop_reference [of 0 0 s] 
  by (simp add: read_vlq_def vlq_reference_def Let_def cong: list.case_cong)

lemma write_vlq_read: "read_vlq (write_vlq [] v @ rest) = (Inr v, rest)"
proof -
  have "length (butlast (write_vlq [] v)) < 10"
    using write_vlq_length_le_10 [of v] by simp
  moreover have "butlast (write_vlq [] v) @ [last (write_vlq [] v)] = write_vlq [] v"
    by simp
  ultimately show ?thesis
    by (simp add: read_vlq_reference vlq_reference_def write_vlq_takeWhile write_vlq_dropWhile write_vlq_value)
qed

lemma read_vlq_Inr_iff:
  "read_vlq s = (Inr v, t) \<longleftrightarrow>
     (\<exists>cs b. s = cs @ b # t \<and> list_all vlq_cont cs \<and> \<not> vlq_cont b \<and> length cs < 10
        \<and> v = of_nat (vlq_value (cs @ [b])))" (is "?L \<longleftrightarrow> ?R")
proof
  assume ?L
  then have len: "length (takeWhile vlq_cont s) < 10"
    and *: "\<exists>b. dropWhile vlq_cont s = b # t \<and> v = of_nat (vlq_value (takeWhile vlq_cont s @ [b]))"
    by (auto simp: read_vlq_reference vlq_reference_def Let_def split: if_splits list.splits)
  then obtain b where b: "dropWhile vlq_cont s = b # t" "v = of_nat (vlq_value (takeWhile vlq_cont s @ [b]))"
    by blast
  then have "s = takeWhile vlq_cont s @ b # t" by (metis takeWhile_dropWhile_id)
  moreover have "list_all vlq_cont (takeWhile vlq_cont s)"
    by (auto simp: list_all_iff dest: set_takeWhileD)
  moreover have "\<not> vlq_cont b" using b(1) by (metis dropWhile_eq_Cons_conv)
  ultimately show ?R using len b(2) by blast
next
  assume ?R
  then obtain cs b where *: "s = cs @ b # t" "list_all vlq_cont cs" "\<not> vlq_cont b" "length cs < 10"
    "v = of_nat (vlq_value (cs @ [b]))" by blast
  then have "takeWhile vlq_cont s = cs" "dropWhile vlq_cont s = b # t"
    by (auto simp: takeWhile_append dropWhile_append list_all_iff)
  with * show ?L by (simp add: read_vlq_reference vlq_reference_def)
qed

lemma vlq_tight:
  assumes "read_vlq s = (Inr v, t)"
  shows "\<exists>u. s = u @ t \<and> length (write_vlq [] v) \<le> length u"
proof -
  from assms obtain cs b where *: "s = cs @ b # t" "v = of_nat (vlq_value (cs @ [b]))"
    by (auto simp: read_vlq_Inr_iff)
  have "unat v \<le> vlq_value (cs @ [b])" using *(2) by (simp add: unat_of_nat)
  also have "\<dots> < 128 ^ length (cs @ [b])" by (rule vlq_value_bound)
  finally have "length (write_vlq [] v) \<le> length (cs @ [b])"
    by (rule write_vlq_length_le) simp
  then show ?thesis using *(1) by (intro exI [of _ "cs @ [b]"]) simp
qed

lemma prefix_read_vlq [prefix_intros]: "prefix_reader read_vlq"
proof (rule prefix_readerI)
  fix s v t assume "read_vlq s = (Inr v, t)"
  then obtain cs b where *: "s = cs @ b # t" "list_all vlq_cont cs" "\<not> vlq_cont b" "length cs < 10"
    "v = of_nat (vlq_value (cs @ [b]))"
    by (auto simp: read_vlq_Inr_iff)
  then have "s = (cs @ [b]) @ t" "\<And>t'. read_vlq ((cs @ [b]) @ t') = (Inr v, t')"
    by (auto simp: read_vlq_Inr_iff)
  then show "\<exists>u. s = u @ t \<and> (\<forall>t'. read_vlq (u @ t') = (Inr v, t'))" by blast
qed

lemma prefix_read_vlq_length [prefix_intros]: "prefix_reader read_vlq_length"
  unfolding read_vlq_length_def by (intro prefix_intros)

interpretation vlq: tight_codec "write_vlq []" read_vlq "\<lambda>_. True"
  by unfold_locales (simp_all add: write_vlq_read vlq_tight)

text \<open>Lengths: the same format, cut at 256 KB.\<close>

definition vlq_length_ok :: "nat \<Rightarrow> bool" where
  "vlq_length_ok n \<longleftrightarrow> n \<le> 262144"

lemma read_vlq_length_Inr_iff:
  "read_vlq_length s = (Inr n, t) \<longleftrightarrow> read_vlq s = (Inr (of_nat n), t) \<and> n \<le> 262144"
proof
  assume "read_vlq_length s = (Inr n, t)"
  then obtain v where v: "read_vlq s = (Inr v, t)" "\<not> v > MAX_VLQ_LENGTH" "n = unat v"
    unfolding read_vlq_length_def rbind_Inr_iff by (auto split: if_splits)
  then show "read_vlq s = (Inr (of_nat n), t) \<and> n \<le> 262144"
    by (simp add: MAX_VLQ_LENGTH_def word_less_nat_alt not_less)
next
  assume "read_vlq s = (Inr (of_nat n), t) \<and> n \<le> 262144"
  moreover from this have "unat (of_nat n :: u64) = n" by (simp add: unat_of_nat)
  ultimately show "read_vlq_length s = (Inr n, t)"
    by (simp add: read_vlq_length_def rbind_Inr MAX_VLQ_LENGTH_def word_less_nat_alt)
qed

interpretation vlq_length: tight_codec "\<lambda>n. write_vlq [] (of_nat n)" read_vlq_length vlq_length_ok
proof unfold_locales
  fix n rest assume "vlq_length_ok n"
  then show "read_vlq_length (write_vlq [] (of_nat n) @ rest) = (Inr n, rest)"
    by (simp add: read_vlq_length_Inr_iff write_vlq_read vlq_length_ok_def)
next
  fix s n t assume "read_vlq_length s = (Inr n, t)"
  then show "vlq_length_ok n \<and> (\<exists>u. s = u @ t \<and> length (write_vlq [] (of_nat n)) \<le> length u)"
    by (auto simp: read_vlq_length_Inr_iff vlq_length_ok_def dest: vlq_tight)
qed

lemma high_bit_of_nat: "(of_nat (2 ^ 63 * n) :: u64) = (if odd n then 2 ^ 63 else 0)"
proof -
  have "unat (of_nat (2 ^ 63 * n) :: u64) = 2 ^ 63 * n mod (2 ^ 63 * 2)"
    by (simp only: unat_of_nat) simp
  also have "\<dots> = 2 ^ 63 * (n mod 2)"
    by (rule mult_mod_right [symmetric])
  finally show ?thesis by (simp add: word_unat_eq_iff odd_iff_mod_2_eq_one)
qed

lemma vlq_value_padded: "vlq_value (replicate n 0x80 @ [b]) = 128 ^ n * (unat b mod 128)"
  by (induction n) simp_all

section \<open>ZigZag numbers\<close>

text \<open>Both widths at once: \<open>'a\<close> is instantiated by 32 and by 64.\<close>

lemma signed_drop_last:
  "signed_drop_bit (LENGTH('a) - Suc 0) (w :: 'a :: len word) = (if sint w < 0 then - 1 else 0)"
  by (rule bit_word_eqI) (auto simp: bit_simps bit_last_iff [symmetric] not_le less_Suc_eq)

lemma neg_and_1: "- (w AND 1) = (if odd w then - 1 else (0 :: 'a :: len word))"
  by (simp add: and_one_eq odd_iff_mod_2_eq_one even_iff_mod_2_eq_zero)

lemma bit_double: "bit (push_bit (Suc 0) w) n \<longleftrightarrow> 0 < n \<and> n < LENGTH('a) \<and> bit w (n - Suc 0)"
  for w :: "'a :: len word"
  by (auto simp only: bit_push_bit_iff possible_bit_word)

lemma uint_word_of_int_small: "0 \<le> k \<Longrightarrow> k < 2 ^ LENGTH('a) \<Longrightarrow> uint (word_of_int k :: 'a :: len word) = k"
  by (simp add: uint_word_of_int)

lemma zigzag_value:
  fixes v :: "'a :: len word"
  shows "uint (push_bit 1 v XOR signed_drop_bit (LENGTH('a) - Suc 0) v) =
     (if 0 \<le> sint v then 2 * sint v else - 2 * sint v - 1)"
proof -
  have b: "- (2 ^ (LENGTH('a) - Suc 0)) \<le> sint v" "sint v < 2 ^ (LENGTH('a) - Suc 0)"
    using sint_ge [of v] sint_lt [of v] by simp_all
  have p: "(2::int) ^ LENGTH('a) = 2 * 2 ^ (LENGTH('a) - Suc 0)"
    by (simp flip: power_Suc)
  have pos: "push_bit 1 v XOR 0 = word_of_int (2 * sint v)"
    and neg: "push_bit 1 v XOR - 1 = word_of_int (- 2 * sint v - 1)"
    by (simp_all add: push_bit_eq_mult not_eq_complement)
  show ?thesis
  proof (cases "sint v < 0")
    case True
    then have "uint (push_bit 1 v XOR - 1) = - 2 * sint v - 1"
      using b p by (simp only: neg uint_word_of_int_small)
    with True show ?thesis by (simp add: signed_drop_last)
  next
    case False
    then have "uint (push_bit 1 v XOR 0) = 2 * sint v"
      using b p by (simp only: pos uint_word_of_int_small)
    with False show ?thesis by (simp add: signed_drop_last)
  qed
qed

lemma zigzag_roundtrip_gen:
  fixes v :: "'a :: len word"
  defines "e \<equiv> push_bit 1 v XOR signed_drop_bit (LENGTH('a) - Suc 0) v"
  shows "drop_bit 1 e XOR - (e AND 1) = v"
proof -
  have "odd e \<longleftrightarrow> sint v < 0" by (simp add: e_def signed_drop_last even_xor_iff)
  moreover have "bit (drop_bit 1 e XOR (if sint v < 0 then - 1 else 0)) n = bit v n" if "n < LENGTH('a)" for n
  proof (cases "Suc n = LENGTH('a)")
    case True
    then have "bit v n \<longleftrightarrow> sint v < 0" using bit_last_iff [of v] by (metis diff_Suc_1')
    then show ?thesis using True that
      by (simp add: e_def signed_drop_last bit_double bit_xor_iff bit_drop_bit_eq del: push_bit_Suc)
  next
    case False
    then show ?thesis using that
      by (simp add: e_def signed_drop_last bit_double bit_xor_iff bit_drop_bit_eq del: push_bit_Suc)
  qed
  ultimately show ?thesis unfolding neg_and_1 by (intro bit_word_eqI) simp
qed

lemma zigzag_roundtrip_gen2:
  fixes u :: "'a :: len word"
  defines "d \<equiv> drop_bit 1 u XOR - (u AND 1)"
  shows "push_bit 1 d XOR signed_drop_bit (LENGTH('a) - Suc 0) d = u"
proof -
  have "sint d < 0 \<longleftrightarrow> odd u"
    unfolding bit_last_iff [symmetric] d_def neg_and_1
    by (auto simp: bit_simps dest: bit_imp_le_length)
  moreover have "bit (push_bit 1 d XOR (if odd u then - 1 else 0)) n = bit u n" if "n < LENGTH('a)" for n
  proof (cases n)
    case 0
    then show ?thesis using bit_double [of d 0] by (simp add: bit_xor_iff bit_0)
  next
    case (Suc m)
    then have "bit (push_bit 1 d) n = bit d m" using that bit_double [of d n] by simp
    then show ?thesis using Suc that by (simp add: d_def neg_and_1 bit_xor_iff bit_drop_bit_eq)
  qed
  ultimately show ?thesis unfolding signed_drop_last by (intro bit_word_eqI) simp
qed
section \<open>Short strings\<close>

lemma utf8_valid_ascii: "list_all (\<lambda>b. b < 0x80) s \<Longrightarrow> utf8_valid s"
  by (induction s) simp_all

lemma from_utf8_Inr_iff [simp]: "from_utf8 b = Inr c \<longleftrightarrow> utf8_valid b \<and> c = b"
  by (auto simp: from_utf8_def)

lemma read_short_string_Inr_iff:
  "read_short_string s = (Inr str, t) \<longleftrightarrow> short_string str \<and> s = of_nat (length str) # str @ t"
proof
  assume "read_short_string s = (Inr str, t)"
  then obtain b where b: "s = b # str @ t" "length str = unat b" "utf8_valid str"
    by (auto simp: read_short_string_def rbind_Inr_iff read_u8_Inr_iff read_exact_Inr_iff)
  moreover have "unat b \<le> 255" using unsigned_less [of b, where ?'a = nat] by simp
  moreover have "of_nat (length str) = b" by (simp add: b(2))
  ultimately show "short_string str \<and> s = of_nat (length str) # str @ t"
    by (simp add: short_string_def)
next
  assume *: "short_string str \<and> s = of_nat (length str) # str @ t"
  then have "unat (of_nat (length str) :: u8) = length str"
    by (simp add: short_string_def unat_of_nat)
  with * show "read_short_string s = (Inr str, t)"
    by (simp add: read_short_string_def rbind_def short_string_def)
qed

lemma prefix_read_short_string [prefix_intros]: "prefix_reader read_short_string"
  by (rule prefix_readerI) (auto simp: read_short_string_Inr_iff intro!: exI [of _ "_ # _"])

interpretation short_str:
  tight_codec "\<lambda>str. of_nat (length str) # str" read_short_string short_string
  by unfold_locales (auto simp: read_short_string_Inr_iff intro: exI [of _ "_ # _"])

lemma write_short_string_ok:
  "(dbg \<Longrightarrow> length str \<le> 255) \<Longrightarrow> write_short_string dbg buf str = Inr (buf @ of_nat (length str) # str)"
  by (auto simp: write_short_string_def)

section \<open>Counted sequences\<close>

text \<open>
  A VLQ count followed by that many elements: the shape of every repeated field of the protocol.
  Any tight element format gives a tight format for sequences of at most 262144 elements.
\<close>

context tight_codec begin

lemma counted_enc:
  assumes "list_all ok xs" "length xs \<le> 262144"
  shows "rbind read_vlq_length (\<lambda>n. read_times n dec)
    (write_vlq [] (of_nat (length xs)) @ concat (map enc xs) @ rest) = (Inr xs, rest)"
  using assms by (simp add: rbind_def vlq_length.dec_enc vlq_length_ok_def read_times_enc)

lemma counted_tight:
  assumes "rbind read_vlq_length (\<lambda>n. read_times n dec) s = (Inr xs, t)"
  shows "list_all ok xs \<and> length xs \<le> 262144 \<and>
    (\<exists>u. s = u @ t \<and> length (write_vlq [] (of_nat (length xs)) @ concat (map enc xs)) \<le> length u)"
proof -
  from assms obtain n s' where n: "read_vlq_length s = (Inr n, s')" and xs: "read_times n dec s' = (Inr xs, t)"
    by (auto simp: rbind_Inr_iff)
  from xs have len: "length xs = n" by (rule read_times_length)
  from vlq_length.dec_tight [OF n] obtain u where
    u: "n \<le> 262144" "s = u @ s'" "length (write_vlq [] (of_nat n)) \<le> length u"
    by (auto simp: vlq_length_ok_def)
  from read_times_tight [OF xs] obtain v where
    v: "list_all ok xs" "s' = v @ t" "length (concat (map enc xs)) \<le> length v" by blast
  have "s = (u @ v) @ t" using u v by simp
  moreover have "length (write_vlq [] (of_nat (length xs)) @ concat (map enc xs)) \<le> length (u @ v)"
    using u v len by simp
  ultimately show ?thesis using u v len by blast
qed

end

section \<open>Properties\<close>

text \<open>
  (C17) \<open>read_vlq\<close> inverts \<open>write_vlq\<close> for every \<open>u64\<close>: appended to any buffer and followed by
  any bytes, the written VLQ is read back as the same number, and the reader stops right behind it.
\<close>

theorem vlq_roundtrip:
  "\<exists>w. write_vlq buf v = buf @ w \<and> read_vlq (w @ rest) = (Inr v, rest)"
  by (intro exI [of _ "write_vlq [] v"] conjI write_vlq_append write_vlq_read)

text \<open>
  On every byte sequence \<open>read_vlq\<close> computes the reference reading: up to nine continuation
  bytes and a final byte give the little-endian base-128 number modulo two to the 64th; ten
  continuation bytes are an overflow error with exactly ten bytes consumed; a sequence that ends
  before its final byte is an end-of-file error.
\<close>

theorem read_vlq_equals_reference: "read_vlq = vlq_reference"
  by (rule ext) (rule read_vlq_reference)

text \<open>
  \<open>write_vlq\<close> extends the buffer by one to ten bytes, and by no more bytes than any other
  sequence that \<open>read_vlq\<close> accepts for the same number.
\<close>

theorem write_vlq_shortest:
  assumes "read_vlq s = (Inr v, t)"
  shows "1 \<le> length (write_vlq [] v) \<and> length (write_vlq [] v) \<le> 10
    \<and> length (write_vlq [] v) \<le> length s - length t"
  using vlq_tight [OF assms] write_vlq_length_le_10 [of v]
  by (auto simp: Suc_le_eq)

theorem write_vlq_shortest_witness:
  "1 \<le> length (write_vlq [] 0) \<and> length (write_vlq [] 0) \<le> 10
    \<and> length (write_vlq [] 0) \<le> length [0x80, 0x80, 0x00, 7 :: u8] - length [7 :: u8]"
proof (rule write_vlq_shortest)
  show "read_vlq [0x80, 0x80, 0x00, 7] = (Inr 0, [7])"
    by (simp add: read_vlq_def read_vlq_loop_Cons vlq_cont_def)
qed

text \<open>
  A tenth byte is not checked for overflow: of its seven data bits only the lowest reaches the
  result and the others are dropped without an error.
\<close>

theorem read_vlq_tenth_byte_truncated:
  assumes "\<not> vlq_cont b"
  shows "read_vlq (replicate 9 0x80 @ b # rest) = (Inr (if odd b then 2 ^ 63 else 0), rest)"
proof -
  have "vlq_value (replicate 9 0x80 @ [b]) = 2 ^ 63 * (unat b mod 128)"
    by (simp add: vlq_value_padded)
  moreover have "list_all vlq_cont (replicate 9 0x80)"
    by (simp add: list_all_iff vlq_cont_def)
  ultimately have "read_vlq (replicate 9 0x80 @ b # rest) = (Inr (of_nat (2 ^ 63 * (unat b mod 128))), rest)"
    using assms by (subst read_vlq_Inr_iff) (intro exI [of _ "replicate 9 0x80"] exI [of _ b] conjI, simp_all only: length_replicate, simp)
  moreover have "odd (unat b mod 128) \<longleftrightarrow> odd b"
    using bit_unsigned_iff [of b 0, where ?'a = nat] by (simp add: dvd_mod_iff bit_0)
  ultimately show ?thesis by (simp only: high_bit_of_nat)
qed

theorem read_vlq_tenth_byte_truncated_witness:
  "\<not> vlq_cont 0x7e \<and> read_vlq (replicate 9 0x80 @ [0x7e]) = (Inr 0, [])"
proof -
  have h: "\<not> vlq_cont 0x7e" by (simp add: vlq_cont_def)
  show ?thesis using h read_vlq_tenth_byte_truncated [OF h, of "[]"] by simp
qed

text \<open>
  \<open>read_vlq_length\<close> never returns more than 256 KB, rejects every larger number as invalid
  data, and passes every other outcome of \<open>read_vlq\<close> on.
\<close>

theorem read_vlq_length_bounded:
  "read_vlq_length s =
     (case read_vlq s of
        (Inl e, t) \<Rightarrow> (Inl e, t)
      | (Inr v, t) \<Rightarrow> if unat v \<le> 262144 then (Inr (unat v), t) else (Inl InvalidData, t))"
  by (auto simp: read_vlq_length_def rbind_def MAX_VLQ_LENGTH_def word_less_nat_alt
      split: prod.splits sum.splits)

text \<open>
  ZigZag: \<open>zigzag_encode\<close> maps a non-negative \<open>n\<close> to \<open>2n\<close> and a negative \<open>n\<close> to
  \<open>-2n - 1\<close> over the whole range of \<open>i32\<close>, and \<open>zigzag_decode\<close> is its two-sided inverse.
\<close>

theorem zigzag_i32:
  "uint (zigzag_encode n) = (if 0 \<le> sint n then 2 * sint n else - 2 * sint n - 1)
    \<and> zigzag_decode (zigzag_encode n) = n \<and> zigzag_encode (zigzag_decode u) = u"
  using zigzag_value [of n] zigzag_roundtrip_gen [of n] zigzag_roundtrip_gen2 [of u]
  by (simp add: zigzag_encode_def zigzag_decode_def)

text \<open>The same for \<open>zigzag_encode_i64\<close> and \<open>zigzag_decode_i64\<close>.\<close>

theorem zigzag_i64:
  "uint (zigzag_encode_i64 n) = (if 0 \<le> sint n then 2 * sint n else - 2 * sint n - 1)
    \<and> zigzag_decode_i64 (zigzag_encode_i64 n) = n \<and> zigzag_encode_i64 (zigzag_decode_i64 u) = u"
  using zigzag_value [of n] zigzag_roundtrip_gen [of n] zigzag_roundtrip_gen2 [of u]
  by (simp add: zigzag_encode_i64_def zigzag_decode_i64_def)

end
