(* ===== verification/Frame.thy ===== *)
theory Frame
  imports Vlq
begin

text \<open>
  \<open>src/transport/frame.rs\<close>: the framing of messages after the handshake. Blake2b-256 comes from
  the \<open>blake2\<close> crate and is the parameter \<open>digest\<close> of every definition; that its output has 32
  bytes is the hypothesis \<open>digest32\<close>. Writers are tokio objects: \<open>write_all\<close> and \<open>flush\<close> are
  parameters of \<open>write_frame\<close>.

  \<open>decode_Inr_iff\<close> and \<open>read_frame_Inr_iff\<close> characterise exactly which byte sequences are
  accepted; the round trips, the agreement of the two decoders and the framing of streams follow.
\<close>

section \<open>Definitions\<close>

definition HEADER_SIZE :: nat where
  "HEADER_SIZE = 13"

definition MAX_BODY_SIZE :: u32 where
  "MAX_BODY_SIZE = 256 * 1024"

record Frame =
  frame_code :: u8
  frame_body :: bytes

definition encode :: "(bytes \<Rightarrow> bytes) \<Rightarrow> bytes \<Rightarrow> Frame \<Rightarrow> bytes" where
  "encode digest magic frame =
     magic @ [frame_code frame] @ u32_to_be_bytes (of_nat (length (frame_body frame)))
       @ take 4 (digest (frame_body frame)) @ frame_body frame"

definition decode :: "(bytes \<Rightarrow> bytes) \<Rightarrow> bytes \<Rightarrow> bytes \<Rightarrow> Frame io_result" where
  "decode digest magic data =
     (if length data < HEADER_SIZE then Inl InvalidData
      else if take 4 data \<noteq> magic then Inl InvalidData
      else
        (let code = data ! 4;
             body_len = u32_from_be_bytes (data ! 5) (data ! 6) (data ! 7) (data ! 8)
         in if body_len > MAX_BODY_SIZE then Inl InvalidData
            else
              (let expected_total = HEADER_SIZE + unat body_len
               in if length data < expected_total then Inl InvalidData
                  else
                    (let checksum = take 4 (drop 9 data);
                         body = take (expected_total - HEADER_SIZE) (drop HEADER_SIZE data)
                     in if take 4 (digest body) \<noteq> checksum then Inl InvalidData
                        else Inr \<lparr>frame_code = code, frame_body = body\<rparr>))))"

definition read_frame :: "(bytes \<Rightarrow> bytes) \<Rightarrow> bytes \<Rightarrow> Frame reader" where
  "read_frame digest magic =
     rbind (read_exact HEADER_SIZE) (\<lambda>header.
       if take 4 header \<noteq> magic then rfail InvalidData
       else
         (let code = header ! 4;
              body_len = u32_from_be_bytes (header ! 5) (header ! 6) (header ! 7) (header ! 8)
          in if body_len > MAX_BODY_SIZE then rfail InvalidData
             else
               (let checksum = take 4 (drop 9 header)
                in rbind (if body_len > 0 then read_exact (unat body_len) else rreturn [])
                     (\<lambda>body. if take 4 (digest body) \<noteq> checksum then rfail InvalidData
                             else rreturn \<lparr>frame_code = code, frame_body = body\<rparr>))))"

definition write_frame ::
  "('w \<Rightarrow> bytes \<Rightarrow> 'w io_result) \<Rightarrow> ('w \<Rightarrow> 'w io_result) \<Rightarrow> (bytes \<Rightarrow> bytes) \<Rightarrow> 'w \<Rightarrow> bytes \<Rightarrow> Frame
     \<Rightarrow> 'w io_result" where
  "write_frame write_all flush digest writer magic frame =
     (case write_all writer (encode digest magic frame) of
        Inl e \<Rightarrow> Inl e
      | Inr writer' \<Rightarrow> flush writer')"

text \<open>What the code relies on: the digest of any body has 32 bytes.\<close>

definition digest32 :: "(bytes \<Rightarrow> bytes) \<Rightarrow> bool" where
  "digest32 digest \<longleftrightarrow> (\<forall>b. length (digest b) = 32)"

definition frame_ok :: "Frame \<Rightarrow> bool" where
  "frame_ok f \<longleftrightarrow> length (frame_body f) \<le> 262144"

text \<open>Reading frames until the stream fails, as the reader loop of a peer does.\<close>

fun read_frames :: "nat \<Rightarrow> (bytes \<Rightarrow> bytes) \<Rightarrow> bytes \<Rightarrow> bytes \<Rightarrow> Frame list \<times> io_error option" where
  "read_frames 0 digest magic s = ([], None)"
| "read_frames (Suc n) digest magic s =
     (case read_frame digest magic s of
        (Inl e, _) \<Rightarrow> ([], Some e)
      | (Inr f, t) \<Rightarrow> (let (fs, e) = read_frames n digest magic t in (f # fs, e)))"

section \<open>The header\<close>

lemma digest32_take [simp]: "digest32 d \<Longrightarrow> length (take 4 (d b)) = 4"
  by (simp add: digest32_def)

lemma header_split:
  assumes "length h = 13"
  obtains m c l0 l1 l2 l3 k where "h = m @ [c, l0, l1, l2, l3] @ k" "length m = 4" "length k = 4"
proof -
  have "drop 4 h = h ! 4 # h ! 5 # h ! 6 # h ! 7 # h ! 8 # drop 9 h"
    using assms Cons_nth_drop_Suc [of 4 h] Cons_nth_drop_Suc [of 5 h] Cons_nth_drop_Suc [of 6 h]
      Cons_nth_drop_Suc [of 7 h] Cons_nth_drop_Suc [of 8 h] by simp
  then have "h = take 4 h @ [h ! 4, h ! 5, h ! 6, h ! 7, h ! 8] @ drop 9 h"
    by (metis append_Cons append_Nil append_take_drop_id)
  moreover have "length (take 4 h) = 4" "length (drop 9 h) = 4" using assms by simp_all
  ultimately show ?thesis using that by blast
qed

lemma header_fields:
  fixes h m k b :: bytes
  assumes "h = m @ c # l0 # l1 # l2 # l3 # k" "length m = 4" "length k = 4"
  shows "take 4 (h @ b) = m" "(h @ b) ! 4 = c" "(h @ b) ! 5 = l0" "(h @ b) ! 6 = l1" "(h @ b) ! 7 = l2"
    "(h @ b) ! 8 = l3" "take 4 (drop 9 (h @ b)) = k" "drop 13 (h @ b) = b" "length (h @ b) = 13 + length b"
  using assms by (simp_all add: nth_append)

lemma encode_header:
  "u32_to_be_bytes w = [l0, l1, l2, l3] \<longleftrightarrow> w = u32_from_be_bytes l0 l1 l2 l3"
proof
  assume "u32_to_be_bytes w = [l0, l1, l2, l3]"
  then show "w = u32_from_be_bytes l0 l1 l2 l3"
    unfolding u32_to_be_bytes_def list.inject by (elim conjE) (hypsubst, rule u32_be_bytes_roundtrip [symmetric])
qed (simp only: u32_to_from_be_bytes)

lemma body_len_fits: "\<not> w > MAX_BODY_SIZE \<longleftrightarrow> unat w \<le> 262144"
  by (simp add: MAX_BODY_SIZE_def word_less_nat_alt not_less)

lemma of_nat_body_len: "n \<le> 262144 \<Longrightarrow> unat (of_nat n :: u32) = n"
  by (simp add: unat_of_nat)

lemma encode_split:
  assumes "digest32 d" "length m = 4" "frame_ok f"
  obtains h l0 l1 l2 l3 where "encode d m f = h @ frame_body f"
    "h = m @ frame_code f # l0 # l1 # l2 # l3 # take 4 (d (frame_body f))"
    "unat (u32_from_be_bytes l0 l1 l2 l3) = length (frame_body f)"
proof -
  let ?w = "of_nat (length (frame_body f)) :: u32"
  obtain l0 l1 l2 l3 where w: "u32_to_be_bytes ?w = [l0, l1, l2, l3]"
    by (simp add: u32_to_be_bytes_def)
  then have "?w = u32_from_be_bytes l0 l1 l2 l3" by (simp only: encode_header)
  then have "unat (u32_from_be_bytes l0 l1 l2 l3) = length (frame_body f)"
    using assms(3) by (metis frame_ok_def of_nat_body_len)
  with w that show ?thesis by (simp add: encode_def)
qed

lemma replicate_4: "replicate 4 x = [x, x, x, x]"
  by (simp add: numeral_eq_Suc)

section \<open>Both decoders on a whole header\<close>

lemma decode_header:
  assumes h: "h = m @ c # l0 # l1 # l2 # l3 # k" and m: "length m = 4" and k: "length k = 4"
    and w: "w = u32_from_be_bytes l0 l1 l2 l3"
  shows "decode d m' (h @ b) =
    (if m \<noteq> m' then Inl InvalidData else if \<not> unat w \<le> 262144 then Inl InvalidData
     else if length b < unat w then Inl InvalidData
     else if take 4 (d (take (unat w) b)) \<noteq> k then Inl InvalidData
     else Inr \<lparr>frame_code = c, frame_body = take (unat w) b\<rparr>)"
  unfolding decode_def header_fields [OF h m k] HEADER_SIZE_def Let_def w [symmetric] body_len_fits [symmetric]
  by auto

lemma read_frame_header:
  assumes h: "h = m @ c # l0 # l1 # l2 # l3 # k" and m: "length m = 4" and k: "length k = 4"
    and w: "w = u32_from_be_bytes l0 l1 l2 l3"
  shows "read_frame d m' (h @ b) =
    (if m \<noteq> m' then (Inl InvalidData, b) else if \<not> unat w \<le> 262144 then (Inl InvalidData, b)
     else if length b < unat w then (Inl UnexpectedEof, [])
     else if take 4 (d (take (unat w) b)) \<noteq> k then (Inl InvalidData, drop (unat w) b)
     else (Inr \<lparr>frame_code = c, frame_body = take (unat w) b\<rparr>, drop (unat w) b))"
proof -
  have head: "read_exact HEADER_SIZE (h @ b) = (Inr h, b)"
    by (rule read_exact_append) (simp add: h m k HEADER_SIZE_def)
  have body: "(if w > 0 then read_exact (unat w) else rreturn []) b =
      (if length b < unat w then (Inl UnexpectedEof, []) else (Inr (take (unat w) b), drop (unat w) b))"
    by (auto simp: read_exact_def word_greater_zero_iff)
  show ?thesis
    unfolding read_frame_def rbind_Inr [where m = "read_exact HEADER_SIZE", OF head] header_fields [OF h m k, of "[]", simplified] Let_def
      w [symmetric] body_len_fits [symmetric]
    by (auto simp: rbind_def body)
qed

lemma short_input:
  "length s < 13 \<Longrightarrow> decode d m s = Inl InvalidData \<and> read_frame d m s = (Inl UnexpectedEof, [])"
  by (simp add: decode_def read_frame_def HEADER_SIZE_def rbind_def read_exact_def)

lemma input_cases [case_names short header]:
  assumes "length s < 13 \<Longrightarrow> P"
    and "\<And>h b m c l0 l1 l2 l3 k. s = h @ b \<Longrightarrow> h = m @ c # l0 # l1 # l2 # l3 # k \<Longrightarrow>
          length m = 4 \<Longrightarrow> length k = 4 \<Longrightarrow> P"
  shows P
proof (cases "length s < 13")
  case False
  then have "length (take 13 s) = 13" by simp
  then obtain m c l0 l1 l2 l3 k where "take 13 s = m @ [c, l0, l1, l2, l3] @ k" "length m = 4" "length k = 4"
    by (rule header_split)
  then show ?thesis
    by (intro assms(2) [of "take 13 s" "drop 13 s" m c l0 l1 l2 l3 k] append_take_drop_id [symmetric])
      simp_all
qed (rule assms(1))

lemma decode_Inr_iff:
  assumes "digest32 d" "length m = 4"
  shows "decode d m s = Inr f \<longleftrightarrow> frame_ok f \<and> (\<exists>t. s = encode d m f @ t)"
proof
  assume dec: "decode d m s = Inr f"
  show "frame_ok f \<and> (\<exists>t. s = encode d m f @ t)"
  proof (cases s rule: input_cases)
    case short
    with dec show ?thesis by (simp add: short_input)
  next
    case (header h b m' c l0 l1 l2 l3 k)
    define w where "w = u32_from_be_bytes l0 l1 l2 l3"
    note hdr = header(2-4) w_def
    from dec have *: "m' = m" "unat w \<le> 262144" "unat w \<le> length b" "take 4 (d (take (unat w) b)) = k"
      "f = \<lparr>frame_code = c, frame_body = take (unat w) b\<rparr>"
      unfolding header(1) decode_header [OF hdr] by (auto split: if_splits)
    have "u32_to_be_bytes w = [l0, l1, l2, l3]" by (simp only: encode_header w_def)
    then have "encode d m f @ drop (unat w) b = s"
      using * header by (simp add: encode_def min_absorb2)
    with * show ?thesis by (metis frame_ok_def length_take min.absorb2 select_convs(2))
  qed
next
  assume "frame_ok f \<and> (\<exists>t. s = encode d m f @ t)"
  then obtain t where ok: "frame_ok f" and s: "s = encode d m f @ t" by blast
  obtain h l0 l1 l2 l3 where e: "encode d m f = h @ frame_body f"
    "h = m @ frame_code f # l0 # l1 # l2 # l3 # take 4 (d (frame_body f))"
    "unat (u32_from_be_bytes l0 l1 l2 l3) = length (frame_body f)"
    using encode_split [OF assms ok] .
  show "decode d m s = Inr f"
    using decode_header [OF e(2) assms(2) digest32_take [OF assms(1)] refl, of d m "frame_body f @ t"] ok
    by (simp add: s e(1,3) frame_ok_def)
qed

text \<open>The stream decoder accepts the same frames, and stops behind them.\<close>

lemma read_frame_decode:
  "read_frame d m s = (Inr f, t) \<longleftrightarrow> decode d m s = Inr f \<and> t = drop (13 + length (frame_body f)) s"
proof (cases s rule: input_cases)
  case short
  then show ?thesis by (simp add: short_input)
next
  case (header h b m' c l0 l1 l2 l3 k)
  then have h: "length h = 13" by simp
  show ?thesis unfolding header(1) decode_header [OF header(2-4) refl] read_frame_header [OF header(2-4) refl]
    using h by auto
qed

lemma read_frame_ok: "read_frame d m s = (Inr f, t) \<Longrightarrow> frame_ok f"
proof (cases s rule: input_cases)
  case short
  then show "read_frame d m s = (Inr f, t) \<Longrightarrow> frame_ok f" by (simp add: short_input)
next
  case (header h b m' c l0 l1 l2 l3 k)
  then show "read_frame d m s = (Inr f, t) \<Longrightarrow> frame_ok f"
    unfolding header(1) read_frame_header [OF header(2-4) refl]
    by (auto simp: frame_ok_def split: if_splits)
qed

lemma length_encode:
  "digest32 d \<Longrightarrow> length m = 4 \<Longrightarrow> length (encode d m f) = 13 + length (frame_body f)"
  by (simp add: encode_def digest32_def)

lemma read_frame_Inr_iff:
  assumes "digest32 d" "length m = 4"
  shows "read_frame d m s = (Inr f, t) \<longleftrightarrow> frame_ok f \<and> s = encode d m f @ t"
  unfolding read_frame_decode decode_Inr_iff [OF assms]
  by (auto simp: length_encode [OF assms])

lemma frame_codec:
  assumes "digest32 d" "length m = 4"
  shows "tight_codec (encode d m) (read_frame d m) frame_ok"
  by unfold_locales (auto simp: read_frame_Inr_iff [OF assms])

lemma read_frames_encode:
  assumes "digest32 digest" "length magic = 4" "list_all frame_ok fs"
  shows "read_frames (Suc (length fs)) digest magic (concat (map (encode digest magic) fs))
    = (fs, Some UnexpectedEof)"
  using assms(3)
proof (induction fs)
  case Nil
  then show ?case by (simp add: short_input)
next
  case (Cons f fs)
  have "read_frame digest magic (encode digest magic f @ s) = (Inr f, s)" for s
    using Cons.prems read_frame_Inr_iff [OF assms(1,2)] by simp
  with Cons show ?case by simp
qed

section \<open>Properties\<close>

text \<open>
  (C10) \<open>decode\<close> accepts a byte sequence exactly when it starts with the encoding of a frame whose
  body is at most 256 KB, and then returns that frame. In particular \<open>decode\<close> inverts \<open>encode\<close>,
  and an accepted input has the right magic, length and checksum.
\<close>

theorem decode_accepts_exactly_encodings:
  assumes "digest32 digest" "length magic = 4"
  shows "decode digest magic data = Inr f \<longleftrightarrow>
    length (frame_body f) \<le> 262144 \<and> (\<exists>rest. data = encode digest magic f @ rest)"
  using decode_Inr_iff [OF assms] by (simp add: frame_ok_def)

theorem decode_accepts_exactly_encodings_witness:
  "decode (\<lambda>b. replicate 32 (of_nat (length b))) [2, 3, 2, 3]
     [2, 3, 2, 3, 55, 0, 0, 0, 2, 2, 2, 2, 2, 9, 8, 7] = Inr \<lparr>frame_code = 55, frame_body = [9, 8]\<rparr>"
proof -
  let ?d = "\<lambda>b :: bytes. replicate 32 (of_nat (length b)) :: bytes"
  have d: "digest32 ?d" by (simp add: digest32_def)
  have e: "[2, 3, 2, 3, 55, 0, 0, 0, 2, 2, 2, 2, 2, 9, 8, 7] =
      encode ?d [2, 3, 2, 3] \<lparr>frame_code = 55, frame_body = [9, 8]\<rparr> @ [7]"
    by (simp add: encode_def u32_to_be_bytes_def replicate_4)
  have "\<exists>rest. [2, 3, 2, 3, 55, 0, 0, 0, 2, 2, 2, 2, 2, 9, 8, 7] =
      encode ?d [2, 3, 2, 3] \<lparr>frame_code = 55, frame_body = [9, 8]\<rparr> @ rest"
    using e by (rule exI)
  then show ?thesis
    using decode_accepts_exactly_encodings [OF d, of "[2, 3, 2, 3]"] by simp
qed

text \<open>
  \<open>read_frame\<close> on a stream and \<open>decode\<close> on the bytes agree: one accepts if and only if the
  other does, with the same frame, and the stream is left exactly behind the frame.
\<close>

theorem read_frame_agrees_with_decode:
  "read_frame digest magic s = (Inr f, t) \<longleftrightarrow>
     decode digest magic s = Inr f \<and> t = drop (13 + length (frame_body f)) s"
  by (rule read_frame_decode)

text \<open>
  Framing: a stream of encoded frames, each of at most 256 KB, is read back as exactly these
  frames, after which the reader meets the end of the stream.
\<close>

theorem frame_stream_roundtrip:
  assumes "digest32 digest" "length magic = 4" "list_all frame_ok fs"
  shows "read_frames (Suc (length fs)) digest magic (concat (map (encode digest magic) fs))
    = (fs, Some UnexpectedEof)"
  using assms by (rule read_frames_encode)

theorem frame_stream_roundtrip_witness:
  "read_frames 3 (\<lambda>b. replicate 32 0) [1, 0, 2, 4]
     (concat (map (encode (\<lambda>b. replicate 32 0) [1, 0, 2, 4])
        [\<lparr>frame_code = 1, frame_body = []\<rparr>, \<lparr>frame_code = 65, frame_body = [0, 255, 0]\<rparr>]))
   = ([\<lparr>frame_code = 1, frame_body = []\<rparr>, \<lparr>frame_code = 65, frame_body = [0, 255, 0]\<rparr>],
      Some UnexpectedEof)"
  using frame_stream_roundtrip [of "\<lambda>b. replicate 32 0" "[1, 0, 2, 4]"
      "[\<lparr>frame_code = 1, frame_body = []\<rparr>, \<lparr>frame_code = 65, frame_body = [0, 255, 0]\<rparr>]"]
  by (simp add: digest32_def frame_ok_def numeral_3_eq_3)

text \<open>
  A frame whose body is larger than 256 KB (and shorter than 4 GB) can be encoded but no
  peer running this code accepts it: both decoders answer with an invalid-data error.
\<close>

theorem oversize_frame_rejected:
  assumes "length magic = 4" "digest32 digest"
    and "262144 < length (frame_body f)" "length (frame_body f) < 2 ^ 32"
  shows "decode digest magic (encode digest magic f @ rest) = Inl InvalidData
    \<and> fst (read_frame digest magic (encode digest magic f @ rest)) = Inl InvalidData"
proof -
  let ?w = "of_nat (length (frame_body f)) :: u32"
  obtain l0 l1 l2 l3 where w: "u32_to_be_bytes ?w = [l0, l1, l2, l3]"
    by (simp add: u32_to_be_bytes_def)
  let ?h = "magic @ frame_code f # l0 # l1 # l2 # l3 # take 4 (digest (frame_body f))"
  have e: "encode digest magic f @ rest = ?h @ frame_body f @ rest"
    by (simp add: encode_def w)
  have "?w = u32_from_be_bytes l0 l1 l2 l3" using w by (simp only: encode_header)
  moreover have "unat ?w = length (frame_body f)" using assms(4) by (simp add: unat_of_nat)
  ultimately have "\<not> unat (u32_from_be_bytes l0 l1 l2 l3) \<le> 262144" using assms(3) by simp
  then show ?thesis
    unfolding e decode_header [OF refl assms(1) digest32_take [OF assms(2)] refl]
      read_frame_header [OF refl assms(1) digest32_take [OF assms(2)] refl] by simp
qed

theorem oversize_frame_rejected_witness:
  "decode (\<lambda>b. replicate 32 0) [1, 0, 2, 4]
     (encode (\<lambda>b. replicate 32 0) [1, 0, 2, 4] \<lparr>frame_code = 33, frame_body = replicate 262145 0\<rparr> @ [])
   = Inl InvalidData"
  using oversize_frame_rejected [of "[1, 0, 2, 4]" "\<lambda>b. replicate 32 0"
      "\<lparr>frame_code = 33, frame_body = replicate 262145 0\<rparr>" "[]"]
  by (simp add: digest32_def)

end
