(* ===== verification/Messages.thy ===== *)
theory Messages
  imports Frame
begin

text \<open>
  \<open>src/protocol/messages.rs\<close>: typed protocol messages and their conversion from and to frames.
  A modifier id is \<open>[u8; 32]\<close> in the source; \<open>msg_ok\<close> are the messages \<open>from_frame\<close> can return,
  which is also the exact domain of the round trip.
\<close>

section \<open>Definitions\<close>

definition GET_PEERS :: u8 where "GET_PEERS = 1"
definition PEERS :: u8 where "PEERS = 2"
definition MODIFIER_REQUEST :: u8 where "MODIFIER_REQUEST = 22"
definition MODIFIER_RESPONSE :: u8 where "MODIFIER_RESPONSE = 33"
definition INV :: u8 where "INV = 55"
definition SYNC_INFO :: u8 where "SYNC_INFO = 65"

lemmas message_codes = GET_PEERS_def PEERS_def MODIFIER_REQUEST_def MODIFIER_RESPONSE_def INV_def SYNC_INFO_def

datatype ProtocolMessage =
    GetPeers
  | Peers bytes
  | Inv u8 "ModifierId list"
  | ModifierRequest u8 "ModifierId list"
  | ModifierResponse u8 "(ModifierId \<times> bytes) list"
  | SyncInfo bytes
  | Unknown u8 bytes

definition parse_inv_body :: "bytes \<Rightarrow> (u8 \<times> ModifierId list) io_result" where
  "parse_inv_body data = fst (
     rbind read_u8 (\<lambda>type_byte.
     rbind read_vlq_length (\<lambda>count.
     rbind (read_times count (read_exact 32)) (\<lambda>ids.
     rreturn (type_byte, ids)))) data)"

definition encode_inv_body :: "u8 \<Rightarrow> ModifierId list \<Rightarrow> bytes" where
  "encode_inv_body modifier_type ids = write_vlq [modifier_type] (of_nat (length ids)) @ concat ids"

text \<open>One iteration of the loop over modifiers: the id, the length of the data, the data.\<close>

definition read_modifier :: "(ModifierId \<times> bytes) reader" where
  "read_modifier =
     rbind (read_exact 32) (\<lambda>i.
     rbind read_vlq_length (\<lambda>data_len.
     rbind (read_exact data_len) (\<lambda>mod_data.
     rreturn (i, mod_data))))"

definition parse_modifier_response_body :: "bytes \<Rightarrow> (u8 \<times> (ModifierId \<times> bytes) list) io_result" where
  "parse_modifier_response_body data = fst (
     rbind read_u8 (\<lambda>type_byte.
     rbind read_vlq_length (\<lambda>count.
     rbind (read_times count read_modifier) (\<lambda>modifiers.
     rreturn (type_byte, modifiers)))) data)"

text \<open>What the encoding loop appends for one modifier, and the whole body.\<close>

fun encode_modifier :: "ModifierId \<times> bytes \<Rightarrow> bytes" where
  "encode_modifier (i, data) = write_vlq i (of_nat (length data)) @ data"

definition encode_modifier_response_body :: "u8 \<Rightarrow> (ModifierId \<times> bytes) list \<Rightarrow> bytes" where
  "encode_modifier_response_body modifier_type modifiers =
     write_vlq [modifier_type] (of_nat (length modifiers)) @ concat (map encode_modifier modifiers)"

definition from_frame :: "Frame \<Rightarrow> ProtocolMessage io_result" where
  "from_frame frame =
     (let code = frame_code frame; body = frame_body frame
      in if code = GET_PEERS then Inr GetPeers
         else if code = PEERS then Inr (Peers body)
         else if code = INV then
           (case parse_inv_body body of Inl e \<Rightarrow> Inl e | Inr (modifier_type, ids) \<Rightarrow> Inr (Inv modifier_type ids))
         else if code = MODIFIER_REQUEST then
           (case parse_inv_body body of Inl e \<Rightarrow> Inl e
            | Inr (modifier_type, ids) \<Rightarrow> Inr (ModifierRequest modifier_type ids))
         else if code = MODIFIER_RESPONSE then
           (case parse_modifier_response_body body of Inl e \<Rightarrow> Inl e
            | Inr (modifier_type, modifiers) \<Rightarrow> Inr (ModifierResponse modifier_type modifiers))
         else if code = SYNC_INFO then Inr (SyncInfo body)
         else Inr (Unknown code body))"

fun to_frame :: "ProtocolMessage \<Rightarrow> Frame" where
  "to_frame GetPeers = \<lparr>frame_code = GET_PEERS, frame_body = []\<rparr>"
| "to_frame (Peers body) = \<lparr>frame_code = PEERS, frame_body = body\<rparr>"
| "to_frame (Inv modifier_type ids) = \<lparr>frame_code = INV, frame_body = encode_inv_body modifier_type ids\<rparr>"
| "to_frame (ModifierRequest modifier_type ids) =
     \<lparr>frame_code = MODIFIER_REQUEST, frame_body = encode_inv_body modifier_type ids\<rparr>"
| "to_frame (ModifierResponse modifier_type modifiers) =
     \<lparr>frame_code = MODIFIER_RESPONSE, frame_body = encode_modifier_response_body modifier_type modifiers\<rparr>"
| "to_frame (SyncInfo body) = \<lparr>frame_code = SYNC_INFO, frame_body = body\<rparr>"
| "to_frame (Unknown code body) = \<lparr>frame_code = code, frame_body = body\<rparr>"

text \<open>Well-formed messages: 32-byte ids, lengths the VLQ fields can carry, unknown codes unknown.\<close>

definition known_code :: "u8 \<Rightarrow> bool" where
  "known_code c \<longleftrightarrow> c \<in> {GET_PEERS, PEERS, INV, MODIFIER_REQUEST, MODIFIER_RESPONSE, SYNC_INFO}"

definition modifier_ok :: "ModifierId \<times> bytes \<Rightarrow> bool" where
  "modifier_ok p \<longleftrightarrow> is_modifier_id (fst p) \<and> length (snd p) \<le> 262144"

fun msg_ok :: "ProtocolMessage \<Rightarrow> bool" where
  "msg_ok (Inv _ ids) \<longleftrightarrow> list_all is_modifier_id ids \<and> length ids \<le> 262144"
| "msg_ok (ModifierRequest _ ids) \<longleftrightarrow> list_all is_modifier_id ids \<and> length ids \<le> 262144"
| "msg_ok (ModifierResponse _ ms) \<longleftrightarrow> list_all modifier_ok ms \<and> length ms \<le> 262144"
| "msg_ok (Unknown code _) \<longleftrightarrow> \<not> known_code code"
| "msg_ok _ \<longleftrightarrow> True"

section \<open>Bodies\<close>

interpretation id_codec: tight_codec "\<lambda>x. x" "read_exact 32" is_modifier_id
  using raw_tight_codec [of 32] by (simp add: is_modifier_id_def [abs_def])

lemma encode_modifier_eq: "encode_modifier p = fst p @ write_vlq [] (of_nat (length (snd p))) @ snd p"
  by (cases p) (simp, rule write_vlq_append)

interpretation modifier_codec: tight_codec encode_modifier read_modifier modifier_ok
proof unfold_locales
  fix p rest assume "modifier_ok p"
  then show "read_modifier (encode_modifier p @ rest) = (Inr p, rest)"
    by (simp add: read_modifier_def rbind_def encode_modifier_eq modifier_ok_def is_modifier_id_def
        vlq_length.dec_enc vlq_length_ok_def)
next
  fix s p t assume "read_modifier s = (Inr p, t)"
  then obtain i n d s1 where *: "p = (i, d)" "s = i @ s1" "length i = 32" "read_vlq_length s1 = (Inr n, d @ t)"
    "length d = n"
    by (auto simp: read_modifier_def rbind_Inr_iff read_exact_Inr_iff)
  from vlq_length.dec_tight [OF *(4)] obtain u where
    u: "n \<le> 262144" "s1 = u @ d @ t" "length (write_vlq [] (of_nat n)) \<le> length u"
    by (auto simp: vlq_length_ok_def)
  have "s = (i @ u @ d) @ t" "length (encode_modifier p) \<le> length (i @ u @ d)"
    using * u by (simp_all add: encode_modifier_eq)
  moreover have "modifier_ok p" using * u by (simp add: modifier_ok_def is_modifier_id_def)
  ultimately show "modifier_ok p \<and> (\<exists>u. s = u @ t \<and> length (encode_modifier p) \<le> length u)" by blast
qed

text \<open>
  Both bodies are a type byte and a counted sequence; \<open>parse_body\<close> is their common shape.
\<close>

definition parse_body :: "'a reader \<Rightarrow> bytes \<Rightarrow> (u8 \<times> 'a list) io_result" where
  "parse_body dec data = fst (
     rbind read_u8 (\<lambda>b. rbind (rbind read_vlq_length (\<lambda>n. read_times n dec)) (\<lambda>xs. rreturn (b, xs))) data)"

lemma parse_bodies:
  "parse_inv_body = parse_body (read_exact 32)"
  "parse_modifier_response_body = parse_body read_modifier"
  by (simp_all add: fun_eq_iff parse_inv_body_def parse_modifier_response_body_def parse_body_def rbind_assoc)

lemma encode_bodies:
  "encode_inv_body b ids = b # write_vlq [] (of_nat (length ids)) @ concat (map (\<lambda>x. x) ids)"
  "encode_modifier_response_body b ms = b # write_vlq [] (of_nat (length ms)) @ concat (map encode_modifier ms)"
  by (simp_all add: encode_inv_body_def encode_modifier_response_body_def write_vlq_append [of "[_]"])

context tight_codec begin

lemma parse_body_enc:
  assumes "list_all ok xs" "length xs \<le> 262144"
  shows "parse_body dec (b # write_vlq [] (of_nat (length xs)) @ concat (map enc xs) @ junk) = Inr (b, xs)"
  using counted_enc [OF assms, of junk] by (simp add: parse_body_def rbind_def)

lemma parse_body_tight:
  assumes "parse_body dec data = Inr (b, xs)"
  shows "list_all ok xs \<and> length xs \<le> 262144
    \<and> length (b # write_vlq [] (of_nat (length xs)) @ concat (map enc xs)) \<le> length data"
proof -
  from assms obtain s t where "data = b # s" "rbind read_vlq_length (\<lambda>n. read_times n dec) s = (Inr xs, t)"
    by (auto simp: parse_body_def fst_def rbind_Inr_iff read_u8_Inr_iff split: prod.splits)
  with counted_tight [of s xs t] show ?thesis by auto
qed

end

lemmas parse_body_facts =
  id_codec.parse_body_enc [where junk = "[]", simplified, folded parse_bodies]
  modifier_codec.parse_body_enc [where junk = "[]", simplified, folded parse_bodies]

section \<open>Frames\<close>

lemma from_frame_to_frame: "msg_ok m \<Longrightarrow> from_frame (to_frame m) = Inr m"
  by (cases m)
    (auto simp: from_frame_def message_codes known_code_def parse_body_facts encode_bodies)

lemma from_frame_ok:
  assumes "from_frame f = Inr m"
  shows "msg_ok m \<and> frame_code (to_frame m) = frame_code f
    \<and> length (frame_body (to_frame m)) \<le> length (frame_body f)"
  using assms
  by (auto simp: from_frame_def Let_def parse_bodies encode_bodies known_code_def
      dest!: id_codec.parse_body_tight modifier_codec.parse_body_tight
      split: if_splits sum.splits)

section \<open>Properties\<close>

text \<open>
  (C16) \<open>from_frame\<close> inverts \<open>to_frame\<close> on exactly the well-formed messages: ids of 32 bytes,
  at most 262144 entries, modifiers of at most 256 KB, and \<open>Unknown\<close> only for codes that are
  not known.
\<close>

theorem message_roundtrip: "from_frame (to_frame m) = Inr m \<longleftrightarrow> msg_ok m"
  using from_frame_to_frame from_frame_ok by blast

text \<open>
  Whatever frame a message was parsed from, serialising it again gives a frame with the same
  code and a body that is no longer, and that frame parses to the same message. So a frame that
  fits the 256 KB limit still fits it after parsing and re-serialising.
\<close>

theorem reserialised_frame:
  assumes "from_frame f = Inr m"
  shows "from_frame (to_frame m) = Inr m \<and> frame_code (to_frame m) = frame_code f
    \<and> length (frame_body (to_frame m)) \<le> length (frame_body f)"
  using from_frame_ok [OF assms] from_frame_to_frame by blast

theorem reserialised_frame_witness:
  "length (frame_body (to_frame (Inv 2 [])))
     \<le> length (frame_body \<lparr>frame_code = INV, frame_body = [2, 0x80, 0x80, 0, 9, 9]\<rparr>)"
proof -
  have "from_frame \<lparr>frame_code = INV, frame_body = [2, 0x80, 0x80, 0, 9, 9]\<rparr> = Inr (Inv 2 [])"
    by (simp add: from_frame_def message_codes parse_inv_body_def rbind_def read_vlq_length_def read_vlq_def
        read_vlq_loop_Cons vlq_cont_def MAX_VLQ_LENGTH_def)
  from reserialised_frame [OF this] show ?thesis by blast
qed

text \<open>
  Frames with a code other than GetPeers, Inv, ModifierRequest and ModifierResponse never fail
  to parse and are reproduced byte for byte: SyncInfo, Peers and unknown messages are opaque.
\<close>

theorem opaque_frames_preserved:
  assumes "frame_code f \<notin> {GET_PEERS, INV, MODIFIER_REQUEST, MODIFIER_RESPONSE}"
  shows "\<exists>m. from_frame f = Inr m \<and> to_frame m = f"
  using assms by (auto simp: from_frame_def Let_def)

theorem opaque_frames_preserved_witness:
  "\<exists>m. from_frame \<lparr>frame_code = 99, frame_body = [1, 2]\<rparr> = Inr m
     \<and> to_frame m = \<lparr>frame_code = 99, frame_body = [1, 2]\<rparr>"
  using opaque_frames_preserved [of "\<lparr>frame_code = 99, frame_body = [1, 2]\<rparr>"]
  by (simp add: message_codes)

text \<open>
  Bytes after the announced entries are ignored: an Inv, ModifierRequest or ModifierResponse
  body followed by anything parses to the same message.
\<close>

theorem trailing_bytes_ignored:
  assumes "msg_ok m" "frame_code (to_frame m) \<in> {INV, MODIFIER_REQUEST, MODIFIER_RESPONSE}"
  shows "from_frame ((to_frame m)\<lparr>frame_body := frame_body (to_frame m) @ junk\<rparr>) = Inr m"
proof (cases m)
  case (Unknown c b)
  with assms show ?thesis by (auto simp: known_code_def)
qed (use assms in \<open>auto simp: from_frame_def message_codes parse_bodies encode_bodies
    id_codec.parse_body_enc [simplified] modifier_codec.parse_body_enc\<close>)

theorem trailing_bytes_ignored_witness:
  "from_frame ((to_frame (Inv 1 [replicate 32 7]))\<lparr>frame_body := frame_body (to_frame (Inv 1 [replicate 32 7])) @ [1, 2, 3]\<rparr>)
     = Inr (Inv 1 [replicate 32 7])"
  by (rule trailing_bytes_ignored) (simp_all add: is_modifier_id_def)

end
