(* ===== verification/Handshake.thy ===== *)
theory Handshake
  imports Vlq
begin

text \<open>
  \<open>src/transport/handshake.rs\<close>: building, parsing, measuring and validating handshakes. The time
  and the random bytes \<open>build\<close> reads from the system are its arguments. \<open>parse\<close> is lenient about
  truncated features while \<open>measure_size\<close> is strict; the lemmas say how far the two agree.

  \<open>spec_bytes\<close> is the reference encoding of a peer specification; \<open>build\<close> writes a timestamp
  and the reference encoding of \<open>config_spec\<close>, which is how the round trips are proved.
\<close>

section \<open>Definitions\<close>

definition FEATURE_MODE :: u8 where "FEATURE_MODE = 16"
definition FEATURE_SESSION :: u8 where "FEATURE_SESSION = 3"
definition FEATURE_PROXY :: u8 where "FEATURE_PROXY = 64"

lemmas feature_ids = FEATURE_MODE_def FEATURE_SESSION_def FEATURE_PROXY_def

record HandshakeConfig =
  cfg_agent_name :: bytes
  cfg_peer_name :: bytes
  cfg_version :: Version
  cfg_network :: Network
  cfg_mode :: ProxyMode
  cfg_declared_address :: "SocketAddr option"

record Feature =
  feature_id :: u8
  feature_body :: bytes

record PeerSpec =
  spec_agent :: bytes
  spec_version :: Version
  spec_name :: bytes
  spec_address :: "SocketAddr option"
  spec_features :: "Feature list"

fun build_mode_body :: "ProxyMode \<Rightarrow> bytes" where
  "build_mode_body Full = [0x00, 0x01, 0x00, 0x01]"
| "build_mode_body Light = [0x00, 0x01, 0x01, 0x02, 0x01]"

text \<open>The eight bytes come from \<open>/dev/urandom\<close>.\<close>

definition rand_u64 :: "bytes \<Rightarrow> u64" where
  "rand_u64 urandom = u64_from_le_bytes urandom"

definition build_session_body :: "bytes \<Rightarrow> Network \<Rightarrow> bytes" where
  "build_session_body urandom network =
     (let session_id = rand_u64 urandom; zigzag = zigzag_encode_i64 session_id
      in write_vlq (Network_magic network) zigzag)"

definition build :: "bool \<Rightarrow> nat \<Rightarrow> bytes \<Rightarrow> HandshakeConfig \<Rightarrow> panic + bytes" where
  "build dbg now_millis urandom config =
     (let buf = write_vlq [] (of_nat now_millis)
      in case write_short_string dbg buf (cfg_agent_name config) of
           Inl p \<Rightarrow> Inl p
         | Inr buf \<Rightarrow>
      (let buf = buf @ [major (cfg_version config)];
           buf = buf @ [minor (cfg_version config)];
           buf = buf @ [patch (cfg_version config)]
       in case write_short_string dbg buf (cfg_peer_name config) of
            Inl p \<Rightarrow> Inl p
          | Inr buf \<Rightarrow>
       (let buf =
              (case cfg_declared_address config of
                 None \<Rightarrow> buf @ [0x00]
               | Some addr \<Rightarrow>
                   (let buf = buf @ [0x01];
                        ip_bytes = octets (SocketAddr_ip addr);
                        buf = buf @ [of_nat (length ip_bytes + 4)];
                        buf = buf @ ip_bytes
                    in write_vlq buf (ucast (SocketAddr_port addr))));
            buf = buf @ [3];
            buf = buf @ [FEATURE_MODE];
            mode_body = build_mode_body (cfg_mode config);
            buf = write_vlq buf (of_nat (length mode_body));
            buf = buf @ mode_body;
            buf = buf @ [FEATURE_SESSION];
            session_body = build_session_body urandom (cfg_network config);
            buf = write_vlq buf (of_nat (length session_body));
            buf = buf @ session_body;
            buf = buf @ [FEATURE_PROXY];
            buf = write_vlq buf 1;
            buf = buf @ [0x01]
        in Inr buf)))"

definition parse_address :: "SocketAddr option reader" where
  "parse_address =
     rbind read_u8 (\<lambda>addr_len_byte.
     let ip_len = unat addr_len_byte - 4 in
     rbind (read_exact ip_len) (\<lambda>ip_bytes.
     rbind read_vlq (\<lambda>p.
     let port = ucast p :: u16 in
     if ip_len = 4 then rreturn (Some (SocketAddr_new (V4 ip_bytes) port))
     else if ip_len = 16 then rreturn (Some (SocketAddr_new (V6 ip_bytes) port))
     else rreturn None)))"

text \<open>The loop of \<open>parse_features\<close>: every error leaves the loop with what was read so far.\<close>

fun parse_features_loop :: "nat \<Rightarrow> Feature list \<Rightarrow> bytes \<Rightarrow> Feature list \<times> bytes" where
  "parse_features_loop 0 features s = (features, s)"
| "parse_features_loop (Suc n) features s =
     (case read_u8 s of
        (Inl _, s1) \<Rightarrow> (features, s1)
      | (Inr fid, s1) \<Rightarrow>
     (case read_vlq_length s1 of
        (Inl _, s2) \<Rightarrow> (features, s2)
      | (Inr flen, s2) \<Rightarrow>
     (case read_exact flen s2 of
        (Inl _, s3) \<Rightarrow> (features, s3)
      | (Inr fbody, s3) \<Rightarrow>
          parse_features_loop n (features @ [\<lparr>feature_id = fid, feature_body = fbody\<rparr>]) s3)))"

definition parse_features :: "Feature list reader" where
  "parse_features s =
     (case read_u8 s of
        (Inl _, s1) \<Rightarrow> (Inr [], s1)
      | (Inr feat_count, s1) \<Rightarrow>
          (let (features, s2) = parse_features_loop (unat feat_count) [] s1 in (Inr features, s2)))"

definition parse_peer_entry :: "PeerSpec reader" where
  "parse_peer_entry =
     rbind read_short_string (\<lambda>agent.
     rbind (read_exact 3) (\<lambda>ver.
     let version = Version (ver ! 0) (ver ! 1) (ver ! 2) in
     rbind read_short_string (\<lambda>name.
     rbind read_u8 (\<lambda>has_addr.
     rbind (if has_addr \<noteq> 0 then parse_address else rreturn None) (\<lambda>address.
     rbind parse_features (\<lambda>features.
     rreturn \<lparr>spec_agent = agent, spec_version = version, spec_name = name, spec_address = address,
              spec_features = features\<rparr>))))))"

definition parse :: "bytes \<Rightarrow> PeerSpec io_result" where
  "parse data = fst (
     rbind read_vlq (\<lambda>timestamp.
     rbind read_short_string (\<lambda>agent.
     rbind (read_exact 3) (\<lambda>ver.
     let version = Version (ver ! 0) (ver ! 1) (ver ! 2) in
     rbind read_short_string (\<lambda>name.
     rbind read_u8 (\<lambda>has_addr.
     rbind (if has_addr \<noteq> 0 then parse_address else rreturn None) (\<lambda>address.
     rbind parse_features (\<lambda>features.
     rreturn \<lparr>spec_agent = agent, spec_version = version, spec_name = name, spec_address = address,
              spec_features = features\<rparr>))))))) data)"

text \<open>The reasons for which \<open>validate_peer\<close> rejects, with the values its messages print.\<close>

datatype reject = BelowMinimum Version | MagicMismatch bytes bytes

definition validate_peer :: "PeerSpec \<Rightarrow> Network \<Rightarrow> reject + unit" where
  "validate_peer spec network =
     (if spec_version spec < EIP37_MIN then Inl (BelowMinimum (spec_version spec))
      else case find (\<lambda>f. feature_id f = FEATURE_SESSION) (spec_features spec) of
             Some session \<Rightarrow>
               (if 4 \<le> length (feature_body session) then
                  (let peer_magic = take 4 (feature_body session); expected = Network_magic network
                   in if peer_magic \<noteq> expected then Inl (MagicMismatch peer_magic expected) else Inr ())
                else Inr ())
           | None \<Rightarrow> Inr ())"

definition is_proxy :: "PeerSpec \<Rightarrow> bool" where
  "is_proxy spec \<longleftrightarrow> list_ex (\<lambda>f. feature_id f = FEATURE_PROXY) (spec_features spec)"

text \<open>One iteration of the feature loop of \<open>measure_size\<close>, and the whole of it.\<close>

definition measure_feature :: "unit reader" where
  "measure_feature =
     rbind read_u8 (\<lambda>fid.
     rbind read_vlq_length (\<lambda>flen.
     rbind (read_exact flen) (\<lambda>fbody.
     rreturn ())))"

definition measure_size :: "bytes \<Rightarrow> nat io_result" where
  "measure_size data =
     (case
        rbind read_vlq (\<lambda>_.
        rbind read_short_string (\<lambda>_.
        rbind (read_exact 3) (\<lambda>_.
        rbind read_short_string (\<lambda>_.
        rbind read_u8 (\<lambda>has_addr.
        rbind (if has_addr \<noteq> 0 then
                 rbind read_u8 (\<lambda>addr_len_byte.
                 let ip_len = unat addr_len_byte - 4 in
                 rbind (read_exact ip_len) (\<lambda>_.
                 rbind read_vlq (\<lambda>_. rreturn ())))
               else rreturn ()) (\<lambda>_.
        rbind read_u8 (\<lambda>feat_count.
        rbind (read_times (unat feat_count) measure_feature) (\<lambda>_.
        rreturn ())))))))) data of
        (Inl e, _) \<Rightarrow> Inl e
      | (Inr _, rest) \<Rightarrow> Inr (length data - length rest))"

section \<open>The reference encoding\<close>

definition addr_bytes :: "SocketAddr \<Rightarrow> bytes" where
  "addr_bytes a = of_nat (length (octets (SocketAddr_ip a)) + 4) # octets (SocketAddr_ip a)
     @ write_vlq [] (ucast (SocketAddr_port a))"

definition feature_bytes :: "Feature \<Rightarrow> bytes" where
  "feature_bytes f = feature_id f # write_vlq [] (of_nat (length (feature_body f))) @ feature_body f"

definition features_bytes :: "Feature list \<Rightarrow> bytes" where
  "features_bytes fs = of_nat (length fs) # concat (map feature_bytes fs)"

definition spec_bytes :: "PeerSpec \<Rightarrow> bytes" where
  "spec_bytes sp =
     (of_nat (length (spec_agent sp)) # spec_agent sp)
     @ [major (spec_version sp), minor (spec_version sp), patch (spec_version sp)]
     @ (of_nat (length (spec_name sp)) # spec_name sp)
     @ (case spec_address sp of None \<Rightarrow> [0] | Some a \<Rightarrow> 1 # addr_bytes a)
     @ features_bytes (spec_features sp)"

text \<open>A flow label and a scope do not travel: an address arrives as \<open>SocketAddr::new\<close> makes it.\<close>

definition norm_addr :: "SocketAddr \<Rightarrow> SocketAddr" where
  "norm_addr a = SocketAddr_new (SocketAddr_ip a) (SocketAddr_port a)"

definition feature_ok :: "Feature \<Rightarrow> bool" where
  "feature_ok f \<longleftrightarrow> length (feature_body f) \<le> 262144"

definition spec_ok :: "PeerSpec \<Rightarrow> bool" where
  "spec_ok sp \<longleftrightarrow> short_string (spec_agent sp) \<and> short_string (spec_name sp)
     \<and> (case spec_address sp of None \<Rightarrow> True | Some a \<Rightarrow> addr_ok a \<and> norm_addr a = a)
     \<and> list_all feature_ok (spec_features sp) \<and> length (spec_features sp) \<le> 255"

text \<open>What a peer learns from the handshake built from a configuration.\<close>

definition config_spec :: "bytes \<Rightarrow> HandshakeConfig \<Rightarrow> PeerSpec" where
  "config_spec urandom c =
     \<lparr>spec_agent = cfg_agent_name c, spec_version = cfg_version c, spec_name = cfg_peer_name c,
      spec_address = map_option norm_addr (cfg_declared_address c),
      spec_features =
        [\<lparr>feature_id = FEATURE_MODE, feature_body = build_mode_body (cfg_mode c)\<rparr>,
         \<lparr>feature_id = FEATURE_SESSION, feature_body = build_session_body urandom (cfg_network c)\<rparr>,
         \<lparr>feature_id = FEATURE_PROXY, feature_body = [1]\<rparr>]\<rparr>"

definition config_ok :: "HandshakeConfig \<Rightarrow> bool" where
  "config_ok c \<longleftrightarrow> short_string (cfg_agent_name c) \<and> short_string (cfg_peer_name c)
     \<and> (case cfg_declared_address c of None \<Rightarrow> True | Some a \<Rightarrow> addr_ok a)"

section \<open>Addresses and features\<close>

lemma parse_address_enc:
  assumes "addr_ok a"
  shows "parse_address (addr_bytes a @ rest) = (Inr (Some (norm_addr a)), rest)"
proof -
  have port: "(ucast (ucast (p :: u16) :: u64) :: u16) = p" for p
    by (rule bit_word_eqI) (simp add: bit_simps)
  show ?thesis
    using assms
    by (cases a) (simp_all add: parse_address_def rbind_def addr_bytes_def norm_addr_def write_vlq_read port)
qed

text \<open>The strict reading of a feature, which \<open>measure_size\<close> does.\<close>

definition read_feature :: "Feature reader" where
  "read_feature = rbind read_u8 (\<lambda>fid. rbind read_vlq_length (\<lambda>flen. rbind (read_exact flen)
     (\<lambda>fbody. rreturn \<lparr>feature_id = fid, feature_body = fbody\<rparr>)))"

interpretation feature_codec: tight_codec feature_bytes read_feature feature_ok
proof unfold_locales
  fix f rest assume "feature_ok f"
  then show "read_feature (feature_bytes f @ rest) = (Inr f, rest)"
    by (simp add: read_feature_def rbind_def feature_bytes_def feature_ok_def vlq_length.dec_enc vlq_length_ok_def)
next
  fix s f t assume "read_feature s = (Inr f, t)"
  then obtain i s1 n b where *: "s = i # s1" "read_vlq_length s1 = (Inr n, b @ t)" "length b = n"
    "f = \<lparr>feature_id = i, feature_body = b\<rparr>"
    by (auto simp: read_feature_def rbind_Inr_iff read_exact_Inr_iff read_u8_Inr_iff)
  from vlq_length.dec_tight [OF *(2)] obtain u where
    u: "n \<le> 262144" "s1 = u @ b @ t" "length (write_vlq [] (of_nat n)) \<le> length u"
    by (auto simp: vlq_length_ok_def)
  have "s = (i # u @ b) @ t" "length (feature_bytes f) \<le> length (i # u @ b)"
    using * u by (simp_all add: feature_bytes_def)
  moreover have "feature_ok f" using * u by (simp add: feature_ok_def)
  ultimately show "feature_ok f \<and> (\<exists>u. s = u @ t \<and> length (feature_bytes f) \<le> length u)" by blast
qed

lemma prefix_read_feature [prefix_intros]: "prefix_reader read_feature"
  unfolding read_feature_def by (intro prefix_intros)

lemma measure_feature_read: "measure_feature = rbind read_feature (\<lambda>f. rreturn ())"
  by (auto simp: fun_eq_iff measure_feature_def read_feature_def rbind_def split: prod.splits sum.splits)

lemma parse_features_loop_strict:
  "read_times n read_feature s = (Inr fs, t) \<Longrightarrow> parse_features_loop n acc s = (acc @ fs, t)"
proof (induction n arbitrary: s fs acc)
  case (Suc n)
  then obtain f gs s' where *: "fs = f # gs" "read_feature s = (Inr f, s')" "read_times n read_feature s' = (Inr gs, t)"
    by (auto simp: read_times_Suc_iff simp del: read_times.simps)
  from *(2) obtain i s1 k b where "s = i # s1" "read_vlq_length s1 = (Inr k, b @ s')" "length b = k"
    "f = \<lparr>feature_id = i, feature_body = b\<rparr>"
    by (auto simp: read_feature_def rbind_Inr_iff read_exact_Inr_iff read_u8_Inr_iff)
  with *(1,3) show ?case by (simp add: Suc.IH)
qed simp

definition strict_features :: "Feature list reader" where
  "strict_features = rbind read_u8 (\<lambda>c. read_times (unat c) read_feature)"

lemma parse_features_strict: "strict_features s = (Inr fs, t) \<Longrightarrow> parse_features s = (Inr fs, t)"
  by (auto simp: strict_features_def parse_features_def rbind_Inr_iff dest!: parse_features_loop_strict [where acc = "[]"])

lemma strict_features_enc:
  assumes "list_all feature_ok fs" "length fs \<le> 255"
  shows "strict_features (features_bytes fs @ rest) = (Inr fs, rest)"
proof -
  have "unat (of_nat (length fs) :: u8) = length fs" using assms(2) by (simp add: unat_of_nat)
  with assms(1) show ?thesis
    by (simp add: strict_features_def features_bytes_def rbind_def feature_codec.read_times_enc)
qed

section \<open>Peer entries: lenient and strict\<close>

definition strict_entry :: "PeerSpec reader" where
  "strict_entry =
     rbind read_short_string (\<lambda>agent.
     rbind (read_exact 3) (\<lambda>ver.
     rbind read_short_string (\<lambda>name.
     rbind read_u8 (\<lambda>has_addr.
     rbind (if has_addr \<noteq> 0 then parse_address else rreturn None) (\<lambda>address.
     rbind strict_features (\<lambda>features.
     rreturn \<lparr>spec_agent = agent, spec_version = Version (ver ! 0) (ver ! 1) (ver ! 2),
              spec_name = name, spec_address = address, spec_features = features\<rparr>))))))"

lemma prefix_parse_address [prefix_intros]: "prefix_reader parse_address"
  unfolding parse_address_def Let_def by (intro prefix_intros)

lemma prefix_strict_features [prefix_intros]: "prefix_reader strict_features"
  unfolding strict_features_def by (intro prefix_intros)

lemma prefix_strict_entry [prefix_intros]: "prefix_reader strict_entry"
  unfolding strict_entry_def by (intro prefix_intros)

lemma parse_eq: "parse data = fst (rbind read_vlq (\<lambda>ts. parse_peer_entry) data)"
  by (simp add: parse_def parse_peer_entry_def)

lemma strict_entry_parse: "strict_entry s = (Inr sp, t) \<Longrightarrow> parse_peer_entry s = (Inr sp, t)"
  unfolding strict_entry_def parse_peer_entry_def Let_def rbind_Inr_iff
  by (blast dest: parse_features_strict)

lemma strict_entry_enc:
  assumes "spec_ok sp"
  shows "strict_entry (spec_bytes sp @ rest) = (Inr sp, rest)"
proof -
  have "read_short_string (of_nat (length (spec_agent sp)) # spec_agent sp @ s) = (Inr (spec_agent sp), s)"
    and "read_short_string (of_nat (length (spec_name sp)) # spec_name sp @ s) = (Inr (spec_name sp), s)" for s
    using assms by (simp_all add: read_short_string_Inr_iff spec_ok_def)
  moreover have "read_exact 3 (a # b # c # s) = (Inr [a, b, c], s)" for a b c s
    by (simp add: read_exact_def)
  moreover have "strict_features (features_bytes (spec_features sp) @ rest) = (Inr (spec_features sp), rest)"
    using assms by (intro strict_features_enc) (simp_all add: spec_ok_def)
  ultimately show ?thesis
    using assms by (cases "spec_address sp")
      (simp_all add: strict_entry_def rbind_def spec_bytes_def spec_ok_def parse_address_enc)
qed

text \<open>\<open>measure_size\<close> succeeds exactly on the inputs of the strict reader and returns what it consumed.\<close>

lemma measure_size_strict:
  "measure_size data =
     (case rbind read_vlq (\<lambda>ts. strict_entry) data of
        (Inl e, _) \<Rightarrow> Inl e | (Inr sp, rest) \<Rightarrow> Inr (length data - length rest))"
proof -
  have mf: "read_times n measure_feature s =
     (case read_times n read_feature s of (Inl e, t) \<Rightarrow> (Inl e, t) | (Inr xs, t) \<Rightarrow> (Inr (map (\<lambda>_. ()) xs), t))" for n s
    unfolding measure_feature_read by (rule read_times_map)
  show ?thesis
    by (auto simp: measure_size_def strict_entry_def strict_features_def parse_address_def Let_def rbind_def mf
        split: prod.splits sum.splits)
qed

lemma measure_size_Inr:
  assumes "measure_size data = Inr n"
  obtains sp where "n \<le> length data"
    "\<And>rest. rbind read_vlq (\<lambda>ts. strict_entry) (take n data @ rest) = (Inr sp, rest)"
proof -
  from assms obtain sp t where r: "rbind read_vlq (\<lambda>ts. strict_entry) data = (Inr sp, t)"
    and n: "n = length data - length t"
    by (auto simp: measure_size_strict split: prod.splits sum.splits)
  have "prefix_reader (rbind read_vlq (\<lambda>ts. strict_entry))" by (intro prefix_intros)
  from prefix_readerE [OF this r] obtain u where
    u: "data = u @ t" "\<And>t'. rbind read_vlq (\<lambda>ts. strict_entry) (u @ t') = (Inr sp, t')" by blast
  have "take n data = u" using u(1) n by simp
  then show ?thesis using that u n by simp
qed

lemma strict_parse:
  "rbind read_vlq (\<lambda>ts. strict_entry) data = (Inr sp, t) \<Longrightarrow> parse data = Inr sp"
  unfolding rbind_Inr_iff parse_eq by (auto simp: rbind_def dest!: strict_entry_parse)

lemma parse_short:
  "parse data = Inr spec \<Longrightarrow> short_string (spec_agent spec) \<and> short_string (spec_name spec)"
  unfolding parse_eq fst_def parse_peer_entry_def Let_def
  by (auto simp: rbind_Inr_iff read_short_string_Inr_iff split: prod.splits)

section \<open>Building\<close>

lemma build_eq:
  assumes "dbg \<Longrightarrow> length (cfg_agent_name c) \<le> 255" "dbg \<Longrightarrow> length (cfg_peer_name c) \<le> 255"
  shows "build dbg now ur c = Inr (write_vlq [] (of_nat now) @ spec_bytes (config_spec ur c))"
proof -
  have norm: "octets (SocketAddr_ip (norm_addr a)) = octets (SocketAddr_ip a)"
    "SocketAddr_port (norm_addr a) = SocketAddr_port a" for a
    by (cases a; simp add: norm_addr_def)+
  show ?thesis
    by (cases "cfg_declared_address c")
      (simp_all add: build_def Let_def write_short_string_ok [OF assms(1)] write_short_string_ok [OF assms(2)]
        spec_bytes_def config_spec_def features_bytes_def feature_bytes_def addr_bytes_def norm
        write_vlq_append [of "_ @ _"] write_vlq_append [of "_ # _"])
qed

lemma length_session_body: "length (build_session_body ur n) \<le> 14"
  using write_vlq_length_le_10 [of "zigzag_encode_i64 (rand_u64 ur)"]
  by (simp add: build_session_body_def write_vlq_append [of "Network_magic n"])

lemma take_session_body: "take 4 (build_session_body ur n) = Network_magic n"
  by (simp add: build_session_body_def Let_def write_vlq_append [of "Network_magic n"])

lemma config_spec_ok: "config_ok c \<Longrightarrow> spec_ok (config_spec ur c)"
proof -
  have addr: "addr_ok a \<Longrightarrow> addr_ok (norm_addr a) \<and> norm_addr (norm_addr a) = norm_addr a" for a
    by (cases a) (simp_all add: norm_addr_def)
  have body: "length (build_session_body ur (cfg_network c)) \<le> 262144"
    using length_session_body [of ur "cfg_network c"] by simp
  have mode: "length (build_mode_body (cfg_mode c)) \<le> 262144"
    by (cases "cfg_mode c") simp_all
  assume "config_ok c"
  then show ?thesis
    by (auto simp: spec_ok_def config_ok_def config_spec_def feature_ok_def addr body mode split: option.splits)
qed

lemma built_handshake:
  assumes "config_ok c"
  obtains h where "build dbg now ur c = Inr h"
    "\<And>rest. rbind read_vlq (\<lambda>ts. strict_entry) (h @ rest) = (Inr (config_spec ur c), rest)"
proof -
  have len: "length (cfg_agent_name c) \<le> 255" "length (cfg_peer_name c) \<le> 255"
    using assms by (simp_all add: config_ok_def short_string_def)
  have "rbind read_vlq (\<lambda>ts. strict_entry) (write_vlq [] (of_nat now) @ spec_bytes (config_spec ur c) @ rest)
      = (Inr (config_spec ur c), rest)" for rest
    by (simp add: rbind_def write_vlq_read strict_entry_enc [OF config_spec_ok [OF assms]])
  then show ?thesis using that build_eq [of dbg c now ur] len by simp
qed

text \<open>A built handshake fits the buffer of the reader by far.\<close>

lemma build_length:
  assumes "config_ok c" "build dbg now ur c = Inr h"
  shows "length h \<le> 640"
proof -
  have len: "length (cfg_agent_name c) \<le> 255" "length (cfg_peer_name c) \<le> 255"
    using assms(1) by (simp_all add: config_ok_def short_string_def)
  have "length (octets (SocketAddr_ip a)) \<le> 16" if "addr_ok a" for a
    using that by (cases a) simp_all
  then have addr: "length (addr_bytes (norm_addr a)) \<le> 27" if "cfg_declared_address c = Some a" for a
    using assms(1) that write_vlq_length_le_10 [of "ucast (SocketAddr_port a)"]
    by (cases a) (simp_all add: config_ok_def addr_bytes_def norm_addr_def)
  have mode: "length (build_mode_body (cfg_mode c)) \<le> 10" by (cases "cfg_mode c") simp_all
  have "h = write_vlq [] (of_nat now) @ spec_bytes (config_spec ur c)"
    using assms(2) build_eq [of dbg c now ur] len by simp
  then show ?thesis
    using len addr mode length_session_body [of ur "cfg_network c"] write_vlq_length_le_10 [of "of_nat now"]
      write_vlq_length_le_10 [of "of_nat (length (build_mode_body (cfg_mode c)))"]
      write_vlq_length_le_10 [of "of_nat (length (build_session_body ur (cfg_network c)))"]
      write_vlq_length_le_10 [of 1]
    by (cases "cfg_declared_address c")
      (auto simp: spec_bytes_def config_spec_def features_bytes_def feature_bytes_def)
qed

lemma built_measure:
  assumes "\<And>rest. rbind read_vlq (\<lambda>ts. strict_entry) (h @ rest) = (Inr sp, rest)"
  shows "parse (h @ rest) = Inr sp" "measure_size (h @ rest) = Inr (length h)"
  using assms strict_parse by (auto simp: measure_size_strict)

lemma find_session_config:
  "find (\<lambda>f. feature_id f = FEATURE_SESSION) (spec_features (config_spec ur c)) =
     Some \<lparr>feature_id = FEATURE_SESSION, feature_body = build_session_body ur (cfg_network c)\<rparr>"
  by (simp add: config_spec_def feature_ids)

lemma config_spec_valid:
  "validate_peer (config_spec ur c) n = Inr () \<longleftrightarrow> n = cfg_network c \<and> EIP37_MIN \<le> cfg_version c"
proof -
  have "4 \<le> length (build_session_body ur (cfg_network c))"
    using take_session_body [of ur "cfg_network c"] by (metis length_magic length_take min_def nle_le)
  moreover have "spec_version (config_spec ur c) = cfg_version c"
    by (simp add: config_spec_def)
  ultimately show ?thesis
    by (auto simp: validate_peer_def find_session_config take_session_body)
qed

section \<open>Properties\<close>

text \<open>
  (C15) For every configuration with names of at most 255 bytes, \<open>build\<close> does not panic, and
  whatever bytes follow the handshake on the stream, \<open>parse\<close> recovers exactly the configured
  agent, version, name, address and the Mode, Session and Proxy features, and \<open>measure_size\<close>
  returns exactly the number of bytes built.
\<close>

theorem handshake_roundtrip:
  assumes "config_ok config"
  shows "\<exists>h. build dbg now_millis urandom config = Inr h \<and>
    parse (h @ rest) = Inr (config_spec urandom config) \<and> measure_size (h @ rest) = Inr (length h)"
  by (rule built_handshake [OF assms, of dbg now_millis urandom]) (blast intro: built_measure)

definition example_config :: HandshakeConfig where
  "example_config = \<lparr>cfg_agent_name = ascii ''ergo-proxy'', cfg_peer_name = ascii ''node'',
     cfg_version = Version 6 0 3, cfg_network = Testnet, cfg_mode = Light,
     cfg_declared_address = Some (SocketAddrV4 [95, 179, 246, 102] 9023)\<rparr>"

lemma example_config_ok: "config_ok example_config"
  by (simp add: config_ok_def example_config_def short_string_def ascii_def)

theorem handshake_roundtrip_witness:
  "\<exists>h. build True 1774907744980 [1, 2, 3, 4, 5, 6, 7, 8] example_config = Inr h \<and>
    parse (h @ [9, 9]) = Inr (config_spec [1, 2, 3, 4, 5, 6, 7, 8] example_config) \<and>
    measure_size (h @ [9, 9]) = Inr (length h)"
  by (rule handshake_roundtrip [OF example_config_ok])

text \<open>
  Where \<open>measure_size\<close> succeeds, \<open>parse\<close> does too, and both look at the measured bytes only:
  with anything else behind them they give the same specification and the same size.
\<close>

theorem measure_size_delimits:
  assumes "measure_size data = Inr n"
  shows "n \<le> length data \<and> (\<exists>spec. parse data = Inr spec \<and>
    (\<forall>rest. parse (take n data @ rest) = Inr spec \<and> measure_size (take n data @ rest) = Inr n))"
proof -
  from assms obtain sp where *: "n \<le> length data"
    "\<And>rest. rbind read_vlq (\<lambda>ts. strict_entry) (take n data @ rest) = (Inr sp, rest)"
    using measure_size_Inr by metis
  have "parse data = Inr sp" using strict_parse [OF *(2), of "drop n data"] by simp
  with * built_measure [of "take n data" sp] show ?thesis by simp
qed

theorem measure_size_delimits_witness:
  "measure_size [0, 1, 65, 6, 0, 3, 0, 0, 1, 3, 2, 7, 7, 200] = Inr 13 \<and>
   (\<exists>spec. parse [0, 1, 65, 6, 0, 3, 0, 0, 1, 3, 2, 7, 7, 200] = Inr spec)"
proof -
  have h: "measure_size [0, 1, 65, 6, 0, 3, 0, 0, 1, 3, 2, 7, 7, 200] = Inr 13"
    by (simp add: measure_size_def rbind_def read_vlq_def read_vlq_loop_Cons vlq_cont_def
        read_short_string_def from_utf8_def measure_feature_def read_vlq_length_def MAX_VLQ_LENGTH_def
        read_exact_def)
  from h measure_size_delimits [OF h] show ?thesis by blast
qed



text \<open>
  A peer whose handshake has no Session feature is accepted on every network, whatever
  network it belongs to, as soon as its version is high enough.
\<close>

theorem missing_session_accepted:
  assumes "EIP37_MIN \<le> spec_version spec" "\<forall>f \<in> set (spec_features spec). feature_id f \<noteq> FEATURE_SESSION"
  shows "validate_peer spec network = Inr ()"
  using assms by (auto simp: validate_peer_def not_less find_None_iff2 split: option.splits dest: find_Some_iff [THEN iffD1])

theorem missing_session_accepted_witness:
  "validate_peer \<lparr>spec_agent = [], spec_version = Version 5 0 0, spec_name = [], spec_address = None,
      spec_features = []\<rparr> Mainnet = Inr ()"
  by (rule missing_session_accepted) (simp_all add: EIP37_MIN_def less_eq_Version_def)

text \<open>
  A node of this program recognises its own kind: the specification parsed from a handshake
  it built is flagged as a proxy, and is validated by a node of network \<open>n\<close> exactly when \<open>n\<close> is
  the configured network and the configured version is at least 4.0.100.
\<close>

theorem own_handshake_classified:
  "is_proxy (config_spec urandom config) \<and>
   (validate_peer (config_spec urandom config) n = Inr () \<longleftrightarrow>
      n = cfg_network config \<and> EIP37_MIN \<le> cfg_version config)"
  using config_spec_valid by (simp add: is_proxy_def config_spec_def)



end
