(* ===== verification/Peer.thy ===== *)
theory Peer
  imports Messages Handshake
begin

text \<open>
  The peer life cycle of \<open>src/protocol/peer.rs\<close>.

  Every transition is guarded by a \<open>debug_assert_eq!\<close> only.  The parameter \<open>dbg\<close> says whether
  the assertions are compiled in; \<open>psm_step\<close> is the resulting transition relation, labelled with
  the events that the call returns, and \<open>psm_run\<close> the sequences of calls.
\<close>

datatype PeerState = Connecting | Handshaking | Active | Disconnected | Failed

datatype ProtocolEvent =
    PeerConnected PeerId PeerSpec Direction
  | PeerDisconnected PeerId bytes
  | Message PeerId ProtocolMessage

record PeerStateMachine =
  psm_peer_id :: PeerId
  psm_direction :: Direction
  psm_state :: PeerState
  psm_spec :: "PeerSpec option"

definition PeerStateMachine_new :: "PeerId \<Rightarrow> Direction \<Rightarrow> PeerStateMachine" where
  "PeerStateMachine_new peer_id direction =
    \<lparr>psm_peer_id = peer_id, psm_direction = direction, psm_state = Connecting, psm_spec = None\<rparr>"

definition debug_assert_state :: "bool \<Rightarrow> PeerState \<Rightarrow> PeerStateMachine \<Rightarrow> panic + unit" where
  "debug_assert_state dbg st m = (if dbg \<and> psm_state m \<noteq> st then Inl DebugAssert else Inr ())"

definition PeerStateMachine_set_handshaking ::
    "bool \<Rightarrow> PeerStateMachine \<Rightarrow> panic + PeerStateMachine" where
  "PeerStateMachine_set_handshaking dbg m =
    (case debug_assert_state dbg Connecting m of
      Inl e \<Rightarrow> Inl e
    | Inr _ \<Rightarrow> Inr (m\<lparr>psm_state := Handshaking\<rparr>))"

definition PeerStateMachine_set_active ::
    "bool \<Rightarrow> PeerSpec \<Rightarrow> PeerStateMachine \<Rightarrow> panic + PeerStateMachine \<times> ProtocolEvent" where
  "PeerStateMachine_set_active dbg spec m =
    (case debug_assert_state dbg Handshaking m of
      Inl e \<Rightarrow> Inl e
    | Inr _ \<Rightarrow> Inr (m\<lparr>psm_spec := Some spec, psm_state := Active\<rparr>,
        PeerConnected (psm_peer_id m) spec (psm_direction m)))"

definition PeerStateMachine_set_disconnected ::
    "bool \<Rightarrow> bytes \<Rightarrow> PeerStateMachine \<Rightarrow> panic + PeerStateMachine \<times> ProtocolEvent" where
  "PeerStateMachine_set_disconnected dbg reason m =
    (case debug_assert_state dbg Active m of
      Inl e \<Rightarrow> Inl e
    | Inr _ \<Rightarrow> Inr (m\<lparr>psm_state := Disconnected\<rparr>, PeerDisconnected (psm_peer_id m) reason))"

definition PeerStateMachine_set_failed ::
    "bool \<Rightarrow> bytes \<Rightarrow> PeerStateMachine \<Rightarrow> panic + PeerStateMachine" where
  "PeerStateMachine_set_failed dbg reason m =
    (case debug_assert_state dbg Handshaking m of
      Inl e \<Rightarrow> Inl e
    | Inr _ \<Rightarrow> Inr (m\<lparr>psm_state := Failed\<rparr>))"

definition PeerStateMachine_message_event ::
    "bool \<Rightarrow> ProtocolMessage \<Rightarrow> PeerStateMachine \<Rightarrow> panic + ProtocolEvent" where
  "PeerStateMachine_message_event dbg msg m =
    (case debug_assert_state dbg Active m of
      Inl e \<Rightarrow> Inl e
    | Inr _ \<Rightarrow> Inr (Message (psm_peer_id m) msg))"

subsection \<open>The transition relation\<close>

inductive psm_step :: "bool \<Rightarrow> PeerStateMachine \<Rightarrow> ProtocolEvent list \<Rightarrow> PeerStateMachine \<Rightarrow> bool"
  for dbg :: bool where
  handshaking: "PeerStateMachine_set_handshaking dbg m = Inr m' \<Longrightarrow> psm_step dbg m [] m'"
| active: "PeerStateMachine_set_active dbg spec m = Inr (m', ev) \<Longrightarrow> psm_step dbg m [ev] m'"
| disconnected:
    "PeerStateMachine_set_disconnected dbg reason m = Inr (m', ev) \<Longrightarrow> psm_step dbg m [ev] m'"
| failed: "PeerStateMachine_set_failed dbg reason m = Inr m' \<Longrightarrow> psm_step dbg m [] m'"
| message: "PeerStateMachine_message_event dbg msg m = Inr ev \<Longrightarrow> psm_step dbg m [ev] m"

inductive psm_run :: "bool \<Rightarrow> PeerStateMachine \<Rightarrow> ProtocolEvent list \<Rightarrow> PeerStateMachine \<Rightarrow> bool"
  for dbg :: bool and m :: PeerStateMachine where
  start: "psm_run dbg m [] m"
| call: "psm_run dbg m evs m' \<Longrightarrow> psm_step dbg m' es m'' \<Longrightarrow> psm_run dbg m (evs @ es) m''"

inductive_cases psm_stepE: "psm_step dbg m es m'"

lemmas psm_defs = PeerStateMachine_set_handshaking_def PeerStateMachine_set_active_def
  PeerStateMachine_set_disconnected_def PeerStateMachine_set_failed_def
  PeerStateMachine_message_event_def debug_assert_state_def

text \<open>What a debug build has emitted, by the state it is in.\<close>

fun is_message_of :: "PeerId \<Rightarrow> ProtocolEvent \<Rightarrow> bool" where
  "is_message_of p (Message q _) = (q = p)"
| "is_message_of p _ = False"

definition emitted :: "PeerStateMachine \<Rightarrow> ProtocolEvent list \<Rightarrow> bool" where
  "emitted m evs =
    (case psm_state m of
      Active \<Rightarrow> (case evs of
          e # msgs \<Rightarrow> (\<exists>spec. psm_spec m = Some spec \<and>
              e = PeerConnected (psm_peer_id m) spec (psm_direction m)) \<and>
            list_all (is_message_of (psm_peer_id m)) msgs
        | [] \<Rightarrow> False)
    | Disconnected \<Rightarrow> (\<exists>msgs reason spec. psm_spec m = Some spec \<and>
        evs = PeerConnected (psm_peer_id m) spec (psm_direction m) #
          msgs @ [PeerDisconnected (psm_peer_id m) reason] \<and>
        list_all (is_message_of (psm_peer_id m)) msgs)
    | _ \<Rightarrow> evs = [])"

lemma emitted_step: "psm_step True m es m' \<Longrightarrow> emitted m evs \<Longrightarrow> emitted m' (evs @ es)"
  by (erule psm_stepE)
    (auto simp: psm_defs emitted_def split: if_splits list.splits)

lemma psm_identity: "psm_step dbg m es m' \<Longrightarrow>
    psm_peer_id m' = psm_peer_id m \<and> psm_direction m' = psm_direction m"
  by (erule psm_stepE) (auto simp: psm_defs split: if_splits)

text \<open>The order in which the documentation draws the states.\<close>

fun rank :: "PeerState \<Rightarrow> nat" where
  "rank Connecting = 0"
| "rank Handshaking = 1"
| "rank Active = 2"
| "rank Disconnected = 3"
| "rank Failed = 3"

lemma rank_step: "psm_step True m es m' \<Longrightarrow> rank (psm_state m) < rank (psm_state m') \<or> m' = m"
  by (erule psm_stepE) (auto simp: psm_defs split: if_splits)

subsection \<open>Properties\<close>

text \<open>(C38) In a debug build the events of a peer follow the documented life cycle.  Whatever calls
  are made on a new state machine, as long as no assertion fires: nothing is emitted before the
  peer is active or when it failed; an active peer has emitted \<open>PeerConnected\<close> with its spec,
  then only \<open>Message\<close> events of its own; a disconnected one in addition one final
  \<open>PeerDisconnected\<close>.  The machine never returns to an earlier state.\<close>

theorem debug_life_cycle:
  assumes "psm_run True (PeerStateMachine_new p d) evs m"
  shows "emitted m evs \<and> psm_peer_id m = p \<and> psm_direction m = d \<and>
    (\<forall>es m'. psm_step True m es m' \<longrightarrow> rank (psm_state m) < rank (psm_state m') \<or> m' = m)"
proof -
  have "emitted m evs \<and> psm_peer_id m = p \<and> psm_direction m = d"
    using assms
  proof (induction rule: psm_run.induct)
    case start
    show ?case by (simp add: PeerStateMachine_new_def emitted_def)
  next
    case (call evs m' es m'')
    then show ?case using emitted_step psm_identity by metis
  qed
  then show ?thesis using rank_step by blast
qed

theorem debug_life_cycle_witness:
  "psm_run True (PeerStateMachine_new (PeerId 1) Inbound) [] 
      \<lparr>psm_peer_id = PeerId 1, psm_direction = Inbound, psm_state = Handshaking, psm_spec = None\<rparr> \<and>
    emitted \<lparr>psm_peer_id = PeerId 1, psm_direction = Inbound, psm_state = Handshaking,
      psm_spec = None\<rparr> []"
proof -
  have run: "psm_run True (PeerStateMachine_new (PeerId 1) Inbound) ([] @ [])
      \<lparr>psm_peer_id = PeerId 1, psm_direction = Inbound, psm_state = Handshaking, psm_spec = None\<rparr>"
    by (rule psm_run.call [OF psm_run.start psm_step.handshaking])
      (simp add: psm_defs PeerStateMachine_new_def)
  with debug_life_cycle [of "PeerId 1" Inbound "[]"] show ?thesis by simp
qed

text \<open>In a release build the transitions are not one-way.  The assertions are compiled out, so a
  new machine can emit a message before any handshake, and a disconnected machine can become
  active again.\<close>

theorem release_life_cycle_broken:
  "\<exists>m. psm_run False (PeerStateMachine_new p d)
      [Message p msg, PeerConnected p spec d, PeerDisconnected p reason, PeerConnected p spec d] m \<and>
    psm_state m = Active"
proof -
  let ?m = "PeerStateMachine_new p d"
  let ?a = "?m\<lparr>psm_spec := Some spec, psm_state := Active\<rparr>"
  have "psm_run False ?m ([] @ [Message p msg]) ?m"
    by (rule psm_run.call [OF psm_run.start psm_step.message])
      (simp add: psm_defs PeerStateMachine_new_def)
  from psm_run.call [OF this psm_step.active [of _ spec _ ?a "PeerConnected p spec d"]]
  have "psm_run False ?m [Message p msg, PeerConnected p spec d] ?a"
    by (simp add: psm_defs PeerStateMachine_new_def)
  from psm_run.call [OF this psm_step.disconnected
      [of _ reason _ "?a\<lparr>psm_state := Disconnected\<rparr>" "PeerDisconnected p reason"]]
  have "psm_run False ?m [Message p msg, PeerConnected p spec d, PeerDisconnected p reason]
      (?a\<lparr>psm_state := Disconnected\<rparr>)"
    by (simp add: psm_defs PeerStateMachine_new_def)
  from psm_run.call [OF this psm_step.active [of _ spec _ ?a "PeerConnected p spec d"]]
  show ?thesis by (intro exI [of _ ?a]) (simp add: psm_defs PeerStateMachine_new_def)
qed

end
