(* ===== verification/Hash_Map.thy ===== *)
theory Hash_Map
  imports Proxy_Types "HOL-Library.AList"
begin

text \<open>
  The part of \<open>std::collections::HashMap\<close> that the routing components use.

  A map is the list of its entries in iteration order, with distinct keys.  Rust leaves the
  iteration order of a \<open>HashMap\<close> open, so nothing in the development may depend on the order
  that \<open>insert\<close> and \<open>remove\<close> happen to give here: the router's transition relation permutes the
  entries at will.

  The locale \<open>hash_map\<close> is the interface the components rely on, interpreted below on the list
  operations.  The locales \<open>peer_table\<close> and \<open>pending_table\<close> are the contract that the inventory
  table, the request tracker and the latency tracker share: a table that assigns peers to
  modifiers, and from which a peer can be purged.  Their lemmas describe such a table by the
  history of the operations that built it.
\<close>

type_synonym ('k, 'v) hashmap = "('k \<times> 'v) list"

definition hm_wf :: "('k, 'v) hashmap \<Rightarrow> bool" where
  "hm_wf m = distinct (map fst m)"

definition hm_get :: "'k \<Rightarrow> ('k, 'v) hashmap \<Rightarrow> 'v option" where
  "hm_get k m = map_of m k"

definition hm_insert :: "'k \<Rightarrow> 'v \<Rightarrow> ('k, 'v) hashmap \<Rightarrow> ('k, 'v) hashmap" where
  "hm_insert k v m = AList.update k v m"

definition hm_remove :: "'k \<Rightarrow> ('k, 'v) hashmap \<Rightarrow> ('k, 'v) hashmap" where
  "hm_remove k m = AList.delete k m"

definition hm_retain :: "('k \<Rightarrow> 'v \<Rightarrow> bool) \<Rightarrow> ('k, 'v) hashmap \<Rightarrow> ('k, 'v) hashmap" where
  "hm_retain P m = filter (\<lambda>(k, v). P k v) m"

definition hm_dom :: "('k, 'v) hashmap \<Rightarrow> 'k set" where
  "hm_dom m = fst ` set m"

subsection \<open>The interface of a hash map\<close>

named_theorems hm_simps

locale hash_map =
  fixes wf :: "'m \<Rightarrow> bool"
    and new :: 'm
    and get :: "'k \<Rightarrow> 'm \<Rightarrow> 'v option"
    and insert :: "'k \<Rightarrow> 'v \<Rightarrow> 'm \<Rightarrow> 'm"
    and remove :: "'k \<Rightarrow> 'm \<Rightarrow> 'm"
    and retain :: "('k \<Rightarrow> 'v \<Rightarrow> bool) \<Rightarrow> 'm \<Rightarrow> 'm"
  assumes wf_new: "wf new"
    and wf_insert: "wf m \<Longrightarrow> wf (insert k v m)"
    and wf_remove: "wf m \<Longrightarrow> wf (remove k m)"
    and wf_retain: "wf m \<Longrightarrow> wf (retain P m)"
    and get_new: "get k new = None"
    and get_insert: "get k' (insert k v m) = (if k' = k then Some v else get k' m)"
    and get_remove: "get k' (remove k m) = (if k' = k then None else get k' m)"
    and get_retain: "wf m \<Longrightarrow> get k' (retain P m) =
      (case get k' m of None \<Rightarrow> None | Some v \<Rightarrow> if P k' v then Some v else None)"
begin

lemma get_retain_Some:
  assumes "wf m"
  shows "get k (retain P m) = Some v \<longleftrightarrow> get k m = Some v \<and> P k v"
  using assms by (auto simp: get_retain split: option.splits if_splits)

lemma get_retain_neq:
  assumes "wf m"
  shows "get k (retain (\<lambda>_ v. v \<noteq> p) m) = (if get k m = Some p then None else get k m)"
  using assms by (auto simp: get_retain split: option.splits)

text \<open>The peer maps are written once per key: a fold of insertions of one value.\<close>

lemma get_fold_insert:
  "get k (fold (\<lambda>i. insert i v) ks m) = (if k \<in> set ks then Some v else get k m)"
  by (induction ks arbitrary: m) (auto simp: get_insert)

lemma wf_fold_insert: "wf m \<Longrightarrow> wf (fold (\<lambda>i. insert i v) ks m)"
  by (induction ks arbitrary: m) (auto simp: wf_insert)

end

lemma hm_get_retain:
  "hm_wf m \<Longrightarrow> hm_get k (hm_retain P m) =
    (case hm_get k m of None \<Rightarrow> None | Some v \<Rightarrow> if P k v then Some v else None)"
proof (induction m)
  case Nil
  show ?case by (simp add: hm_get_def hm_retain_def)
next
  case (Cons e m)
  obtain k' v where e: "e = (k', v)" by force
  have wf: "hm_wf m" and new: "k' \<notin> fst ` set m"
    using Cons.prems by (auto simp: hm_wf_def e)
  have none: "map_of (filter (\<lambda>(k, v). P k v) m) k' = None"
    using new by (force simp: map_of_eq_None_iff)
  show ?case
    using Cons.IH [OF wf] none
    by (auto simp: hm_get_def hm_retain_def e split: option.splits)
qed

interpretation hm: hash_map hm_wf "[]" hm_get hm_insert hm_remove hm_retain
proof unfold_locales
  show "hm_wf (hm_retain P m)" if "hm_wf m" for P :: "'a \<Rightarrow> 'b \<Rightarrow> bool" and m
    using that by (auto simp: hm_wf_def hm_retain_def distinct_map inj_on_def)
qed (auto simp: hm_wf_def hm_get_def hm_insert_def hm_remove_def distinct_update distinct_delete
  update_conv' delete_conv' hm_get_retain [unfolded hm_get_def hm_wf_def])

lemmas hm_wf_intros = hm.wf_new hm.wf_insert hm.wf_remove hm.wf_retain hm.wf_fold_insert

declare hm.get_new [hm_simps] hm.get_insert [hm_simps] hm.get_remove [hm_simps]
declare hm.get_fold_insert [hm_simps]

subsection \<open>Entries and keys\<close>

lemma hm_dom_get: "k \<in> hm_dom m \<longleftrightarrow> hm_get k m \<noteq> None"
  by (force simp: hm_dom_def hm_get_def map_of_eq_None_iff)

lemma hm_entries: "hm_wf m \<Longrightarrow> (k, v) \<in> set m \<longleftrightarrow> hm_get k m = Some v"
  by (simp add: hm_wf_def hm_get_def)

lemma hm_dom_insert [simp]: "hm_dom (hm_insert k v m) = insert k (hm_dom m)"
  by (simp add: hm_dom_def hm_insert_def dom_update)

lemma hm_dom_remove [simp]: "hm_dom (hm_remove k m) = hm_dom m - {k}"
  by (auto simp: hm_dom_get hm.get_remove split: if_splits)

lemma hm_dom_empty [simp]: "hm_dom [] = {}"
  by (simp add: hm_dom_def)

lemma hm_get_perm:
  assumes "hm_wf m" "hm_wf m'" "set m' = set m"
  shows "hm_get k m' = hm_get k m"
  using assms by (metis hm_entries not_None_eq)

lemma hm_dom_perm: "set m' = set m \<Longrightarrow> hm_dom m' = hm_dom m"
  by (simp add: hm_dom_def)

subsection \<open>Tables of peers and their histories\<close>

datatype 'k table_op =
    Recorded 'k PeerId
  | Purged PeerId
  | Forgotten 'k

text \<open>What one operation does to the entry of a key, and the entry after a whole history.\<close>

fun entry_step :: "'k \<Rightarrow> 'k table_op \<Rightarrow> PeerId option \<Rightarrow> PeerId option" where
  "entry_step k (Recorded k' p) e = (if k = k' then Some p else e)"
| "entry_step k (Purged p) e = (if e = Some p then None else e)"
| "entry_step k (Forgotten k') e = (if k = k' then None else e)"

definition entry_after :: "'k \<Rightarrow> 'k table_op list \<Rightarrow> PeerId option" where
  "entry_after k ops = fold (entry_step k) ops None"

text \<open>An operation overrides the entry of \<open>k\<close> for the peer \<open>p\<close>.\<close>

fun overrides :: "'k \<Rightarrow> PeerId \<Rightarrow> 'k table_op \<Rightarrow> bool" where
  "overrides k p (Recorded k' _) = (k = k')"
| "overrides k p (Purged q) = (q = p)"
| "overrides k p (Forgotten k') = (k = k')"

lemma entry_after_snoc: "entry_after k (ops @ [oper]) = entry_step k oper (entry_after k ops)"
  by (simp add: entry_after_def)

lemma entry_step_Some:
  "entry_step k oper e = Some p \<longleftrightarrow> oper = Recorded k p \<or> e = Some p \<and> \<not> overrides k p oper"
  by (cases oper) auto

lemma entry_after_Some:
  "entry_after k ops = Some p \<longleftrightarrow>
    (\<exists>pre post. ops = pre @ Recorded k p # post \<and> list_all (\<lambda>oper. \<not> overrides k p oper) post)"
proof (induction ops rule: rev_induct)
  case Nil
  show ?case by (simp add: entry_after_def)
next
  case (snoc oper ops)
  note IH = snoc.IH
  show ?case (is "?l \<longleftrightarrow> ?r")
  proof
    assume ?l
    then consider "oper = Recorded k p" | "entry_after k ops = Some p" "\<not> overrides k p oper"
      by (auto simp: entry_after_snoc entry_step_Some)
    then show ?r
    proof cases
      case 1
      then show ?thesis by (intro exI [of _ ops] exI [of _ "[]"]) simp
    next
      case 2
      then obtain pre post where "ops = pre @ Recorded k p # post"
        "list_all (\<lambda>oper. \<not> overrides k p oper) post"
        using IH by blast
      with 2 show ?thesis by (intro exI [of _ pre] exI [of _ "post @ [oper]"]) simp
    qed
  next
    assume ?r
    then obtain pre post where split: "ops @ [oper] = pre @ Recorded k p # post"
      and keep: "list_all (\<lambda>oper. \<not> overrides k p oper) post" by blast
    show ?l
    proof (cases post rule: rev_cases)
      case Nil
      with split show ?thesis by (simp add: entry_after_snoc)
    next
      case (snoc post' last)
      with split have "ops = pre @ Recorded k p # post'" and [simp]: "last = oper" by auto
      moreover have "list_all (\<lambda>oper. \<not> overrides k p oper) post'" "\<not> overrides k p oper"
        using keep snoc by auto
      ultimately have "entry_after k ops = Some p" using IH by blast
      with \<open>\<not> overrides k p oper\<close> show ?thesis
        by (simp add: entry_after_snoc entry_step_Some)
    qed
  qed
qed

definition refs :: "('k \<Rightarrow> 't \<Rightarrow> PeerId option) \<Rightarrow> 't \<Rightarrow> PeerId set" where
  "refs look t = {p. \<exists>k. look k t = Some p}"

lemma look_refs: "look k t = Some p \<Longrightarrow> p \<in> refs look t"
  by (auto simp: refs_def)

locale peer_table =
  fixes wf :: "'t \<Rightarrow> bool"
    and new :: 't
    and look :: "'k \<Rightarrow> 't \<Rightarrow> PeerId option"
    and enter :: "'k \<Rightarrow> PeerId \<Rightarrow> 't \<Rightarrow> 't"
    and purge :: "PeerId \<Rightarrow> 't \<Rightarrow> 't"
  assumes wf_new: "wf new"
    and wf_enter: "wf t \<Longrightarrow> wf (enter k p t)"
    and wf_purge: "wf t \<Longrightarrow> wf (purge p t)"
    and look_new: "look k new = None"
    and look_enter: "wf t \<Longrightarrow> look k (enter k' p t) = entry_step k (Recorded k' p) (look k t)"
    and look_purge: "wf t \<Longrightarrow> look k (purge p t) = entry_step k (Purged p) (look k t)"
begin

lemma refs_new: "refs look new = {}"
  by (simp add: refs_def look_new)

lemma refs_enter: "wf t \<Longrightarrow> refs look (enter k p t) \<subseteq> insert p (refs look t)"
  by (auto simp: refs_def look_enter split: if_splits)

lemma refs_purge: "wf t \<Longrightarrow> refs look (purge p t) = refs look t - {p}"
  by (force simp: refs_def look_purge split: if_splits)

lemma look_enter_all:
  "wf t \<Longrightarrow> look k (fold (\<lambda>i. enter i p) ks t) = (if k \<in> set ks then Some p else look k t)"
  by (induction ks arbitrary: t) (auto simp: wf_enter look_enter)

lemma wf_enter_all: "wf t \<Longrightarrow> wf (fold (\<lambda>i. enter i p) ks t)"
  by (induction ks arbitrary: t) (auto simp: wf_enter)

lemma refs_enter_all: "wf t \<Longrightarrow> refs look (fold (\<lambda>i. enter i p) ks t) \<subseteq> insert p (refs look t)"
  by (auto simp: refs_def look_enter_all split: if_splits)

end

locale pending_table = peer_table wf new look enter purge
  for wf :: "'t \<Rightarrow> bool" and new :: 't
    and look :: "'k \<Rightarrow> 't \<Rightarrow> PeerId option"
    and enter :: "'k \<Rightarrow> PeerId \<Rightarrow> 't \<Rightarrow> 't"
    and purge :: "PeerId \<Rightarrow> 't \<Rightarrow> 't" +
  fixes forget :: "'k \<Rightarrow> 't \<Rightarrow> 't"
  assumes wf_forget: "wf t \<Longrightarrow> wf (forget k t)"
    and look_forget: "wf t \<Longrightarrow> look k (forget k' t) = entry_step k (Forgotten k') (look k t)"
begin

lemma refs_forget: "wf t \<Longrightarrow> refs look (forget k t) \<subseteq> refs look t"
  by (auto simp: refs_def look_forget split: if_splits)

end

text \<open>Running a history on a table, and the table it gives.\<close>

fun run_op :: "('k \<Rightarrow> PeerId \<Rightarrow> 't \<Rightarrow> 't) \<Rightarrow> (PeerId \<Rightarrow> 't \<Rightarrow> 't) \<Rightarrow> ('k \<Rightarrow> 't \<Rightarrow> 't) \<Rightarrow>
    'k table_op \<Rightarrow> 't \<Rightarrow> 't" where
  "run_op enter purge forget (Recorded k p) t = enter k p t"
| "run_op enter purge forget (Purged p) t = purge p t"
| "run_op enter purge forget (Forgotten k) t = forget k t"

context pending_table
begin

lemma run_ops:
  "wf t \<Longrightarrow> wf (fold (run_op enter purge forget) ops t) \<and>
    look k (fold (run_op enter purge forget) ops t) = fold (entry_step k) ops (look k t)"
proof (induction ops arbitrary: t)
  case (Cons oper ops)
  have "wf (run_op enter purge forget oper t)"
    using Cons.prems by (cases oper) (simp_all add: wf_enter wf_purge wf_forget)
  moreover have "look k (run_op enter purge forget oper t) = entry_step k oper (look k t)"
    using Cons.prems by (cases oper) (simp_all add: look_enter look_purge look_forget)
  ultimately show ?case using Cons.IH by simp
qed simp

lemma look_history:
  "look k (fold (run_op enter purge forget) ops new) = Some p \<longleftrightarrow>
    (\<exists>pre post. ops = pre @ Recorded k p # post \<and> list_all (\<lambda>oper. \<not> overrides k p oper) post)"
  using run_ops [OF wf_new, of ops k] entry_after_Some [of k ops p]
  by (simp add: look_new entry_after_def)

end

end
