(* ===== verification/Inv_Table.thy ===== *)
theory Inv_Table
  imports Hash_Map
begin

text \<open>
  The inventory table of \<open>src/routing/inv_table.rs\<close>: which peer announced a modifier.

  \<open>purge_peer\<close> ends with a debug assertion that no entry of the purged peer is left; \<open>dbg\<close> says
  whether the assertions are compiled in, and a failing one is the result \<open>Inl DebugAssert\<close>.
  The table meets the contract \<open>peer_table\<close>.
\<close>

record InvTable =
  inv_entries :: "(ModifierId, PeerId) hashmap"

definition InvTable_new :: InvTable where
  "InvTable_new = \<lparr>inv_entries = []\<rparr>"

definition InvTable_record :: "ModifierId \<Rightarrow> PeerId \<Rightarrow> InvTable \<Rightarrow> InvTable" where
  "InvTable_record modifier_id peer t = t\<lparr>inv_entries := hm_insert modifier_id peer (inv_entries t)\<rparr>"

definition InvTable_lookup :: "ModifierId \<Rightarrow> InvTable \<Rightarrow> PeerId option" where
  "InvTable_lookup modifier_id t = hm_get modifier_id (inv_entries t)"

definition InvTable_is_empty :: "InvTable \<Rightarrow> bool" where
  "InvTable_is_empty t = (inv_entries t = [])"

definition InvTable_check_invariant_no_peer :: "PeerId \<Rightarrow> InvTable \<Rightarrow> bool" where
  "InvTable_check_invariant_no_peer peer t = (\<not> list_ex (\<lambda>p. p = peer) (map snd (inv_entries t)))"

definition InvTable_retain :: "PeerId \<Rightarrow> InvTable \<Rightarrow> InvTable" where
  "InvTable_retain peer t = t\<lparr>inv_entries := hm_retain (\<lambda>_ p. p \<noteq> peer) (inv_entries t)\<rparr>"

definition InvTable_purge_peer :: "bool \<Rightarrow> PeerId \<Rightarrow> InvTable \<Rightarrow> panic + InvTable" where
  "InvTable_purge_peer dbg peer t =
    (let t' = InvTable_retain peer t in
     if dbg \<and> \<not> InvTable_check_invariant_no_peer peer t' then Inl DebugAssert else Inr t')"

definition InvTable_wf :: "InvTable \<Rightarrow> bool" where
  "InvTable_wf t = hm_wf (inv_entries t)"

lemma InvTable_purge_peer_eq: "InvTable_purge_peer dbg peer t = Inr (InvTable_retain peer t)"
  by (auto simp: InvTable_purge_peer_def Let_def InvTable_check_invariant_no_peer_def
      InvTable_retain_def hm_retain_def list_ex_iff)

interpretation inv_table: peer_table InvTable_wf InvTable_new InvTable_lookup InvTable_record
  InvTable_retain
  by unfold_locales
    (auto simp: InvTable_wf_def InvTable_new_def InvTable_lookup_def InvTable_record_def
      InvTable_retain_def hm_simps hm.get_retain_neq intro: hm_wf_intros)

text \<open>Running a history of announcements and disconnections from the empty table.\<close>

fun InvTable_run :: "bool \<Rightarrow> ModifierId table_op list \<Rightarrow> InvTable \<Rightarrow> panic + InvTable" where
  "InvTable_run dbg [] t = Inr t"
| "InvTable_run dbg (Recorded i p # ops) t = InvTable_run dbg ops (InvTable_record i p t)"
| "InvTable_run dbg (Purged p # ops) t =
    (case InvTable_purge_peer dbg p t of Inl e \<Rightarrow> Inl e | Inr t' \<Rightarrow> InvTable_run dbg ops t')"
| "InvTable_run dbg (Forgotten i # ops) t = InvTable_run dbg ops t"

fun forgets :: "'k table_op \<Rightarrow> bool" where
  "forgets (Forgotten _) = True"
| "forgets _ = False"

lemma InvTable_run_look:
  assumes "InvTable_wf t" and "list_all (\<lambda>oper. \<not> forgets oper) ops"
  shows "\<exists>t'. InvTable_run dbg ops t = Inr t' \<and> InvTable_wf t' \<and>
    (\<forall>k. InvTable_lookup k t' = fold (entry_step k) ops (InvTable_lookup k t))"
  using assms
proof (induction dbg ops t rule: InvTable_run.induct)
  case (2 dbg i p ops t)
  then show ?case
    using inv_table.wf_enter [OF 2(2), of i p] by (simp add: inv_table.look_enter)
next
  case (3 dbg p ops t)
  then show ?case
    using inv_table.wf_purge [OF 3(2), of p]
    by (simp add: InvTable_purge_peer_eq inv_table.look_purge)
qed simp_all

text \<open>(C36) The table answers with the latest announcement that is still valid.  After any history
  of \<open>record\<close> and \<open>purge_peer\<close> calls on a new table, in a debug or a release build, no assertion
  has fired, and \<open>lookup(id)\<close> is \<open>Some(p)\<close> exactly if the history has a \<open>record(id, p)\<close> after
  which no other peer announced \<open>id\<close> and \<open>p\<close> was not purged.\<close>

theorem inv_table_history:
  assumes "list_all (\<lambda>oper. \<not> forgets oper) ops"
  shows "\<exists>t. InvTable_run dbg ops InvTable_new = Inr t \<and>
    (\<forall>i p. InvTable_lookup i t = Some p \<longleftrightarrow>
      (\<exists>pre post. ops = pre @ Recorded i p # post \<and>
        list_all (\<lambda>oper. \<not> overrides i p oper) post))"
proof -
  obtain t where "InvTable_run dbg ops InvTable_new = Inr t"
    and "\<And>k. InvTable_lookup k t = entry_after k ops"
    using InvTable_run_look [OF inv_table.wf_new assms, of dbg]
    by (auto simp: inv_table.look_new entry_after_def)
  then show ?thesis by (simp add: entry_after_Some)
qed

theorem inv_table_history_witness:
  "\<exists>t. InvTable_run True [Recorded [1] (PeerId 7), Recorded [2] (PeerId 8), Purged (PeerId 8)]
      InvTable_new = Inr t \<and>
    InvTable_lookup [1] t = Some (PeerId 7)"
proof -
  obtain t where t: "InvTable_run True
      [Recorded [1] (PeerId 7), Recorded [2] (PeerId 8), Purged (PeerId 8)] InvTable_new = Inr t"
    and look: "\<And>i p. InvTable_lookup i t = Some p \<longleftrightarrow>
      (\<exists>pre post. [Recorded [1] (PeerId 7), Recorded [2] (PeerId 8), Purged (PeerId 8)] =
          pre @ Recorded i p # post \<and> list_all (\<lambda>oper. \<not> overrides i p oper) post)"
    using inv_table_history
      [of "[Recorded [1] (PeerId 7), Recorded [2] (PeerId 8), Purged (PeerId 8)]" True] by auto
  have "InvTable_lookup [1] t = Some (PeerId 7)"
    unfolding look
    by (intro exI [of _ "[]"] exI [of _ "[Recorded [2] (PeerId 8), Purged (PeerId 8)]"]) simp
  with t show ?thesis by blast
qed

end
