(* ===== verification/Tracker.thy ===== *)
theory Tracker
  imports Hash_Map
begin

text \<open>
  The trackers of \<open>src/routing/tracker.rs\<close>.

  The request tracker assigns to a modifier the peer that asked for it; it meets the contract
  \<open>pending_table\<close>.  The sync tracker pairs inbound with outbound peers in two maps, one per
  direction, and checks in debug builds that the two maps are inverse to each other.
\<close>

subsection \<open>Requests\<close>

record RequestTracker =
  req_pending :: "(ModifierId, PeerId) hashmap"

definition RequestTracker_new :: RequestTracker where
  "RequestTracker_new = \<lparr>req_pending = []\<rparr>"

definition RequestTracker_record :: "ModifierId \<Rightarrow> PeerId \<Rightarrow> RequestTracker \<Rightarrow> RequestTracker" where
  "RequestTracker_record modifier_id requester t =
    t\<lparr>req_pending := hm_insert modifier_id requester (req_pending t)\<rparr>"

definition RequestTracker_lookup :: "ModifierId \<Rightarrow> RequestTracker \<Rightarrow> PeerId option" where
  "RequestTracker_lookup modifier_id t = hm_get modifier_id (req_pending t)"

definition RequestTracker_fulfill ::
    "ModifierId \<Rightarrow> RequestTracker \<Rightarrow> PeerId option \<times> RequestTracker" where
  "RequestTracker_fulfill modifier_id t =
    (hm_get modifier_id (req_pending t), t\<lparr>req_pending := hm_remove modifier_id (req_pending t)\<rparr>)"

definition RequestTracker_purge_peer :: "PeerId \<Rightarrow> RequestTracker \<Rightarrow> RequestTracker" where
  "RequestTracker_purge_peer peer t =
    t\<lparr>req_pending := hm_retain (\<lambda>_ p. p \<noteq> peer) (req_pending t)\<rparr>"

definition RequestTracker_wf :: "RequestTracker \<Rightarrow> bool" where
  "RequestTracker_wf t = hm_wf (req_pending t)"

abbreviation RequestTracker_drop :: "ModifierId \<Rightarrow> RequestTracker \<Rightarrow> RequestTracker" where
  "RequestTracker_drop modifier_id t \<equiv> snd (RequestTracker_fulfill modifier_id t)"

interpretation requests: pending_table RequestTracker_wf RequestTracker_new RequestTracker_lookup
  RequestTracker_record RequestTracker_purge_peer RequestTracker_drop
  by unfold_locales
    (auto simp: RequestTracker_wf_def RequestTracker_new_def RequestTracker_lookup_def
      RequestTracker_record_def RequestTracker_purge_peer_def RequestTracker_fulfill_def
      hm_simps hm.get_retain_neq intro: hm_wf_intros)

lemma RequestTracker_fulfill_fst [simp]:
  "fst (RequestTracker_fulfill i t) = RequestTracker_lookup i t"
  by (simp add: RequestTracker_fulfill_def RequestTracker_lookup_def)

subsection \<open>Sync pairings\<close>

record SyncTracker =
  inbound_to_outbound :: "(PeerId, PeerId) hashmap"
  outbound_to_inbound :: "(PeerId, PeerId) hashmap"

definition SyncTracker_new :: SyncTracker where
  "SyncTracker_new = \<lparr>inbound_to_outbound = [], outbound_to_inbound = []\<rparr>"

definition SyncTracker_outbound_for :: "PeerId \<Rightarrow> SyncTracker \<Rightarrow> PeerId option" where
  "SyncTracker_outbound_for inbound t = hm_get inbound (inbound_to_outbound t)"

definition SyncTracker_inbound_for :: "PeerId \<Rightarrow> SyncTracker \<Rightarrow> PeerId option" where
  "SyncTracker_inbound_for outbound t = hm_get outbound (outbound_to_inbound t)"

definition SyncTracker_check_invariant :: "SyncTracker \<Rightarrow> bool" where
  "SyncTracker_check_invariant t \<longleftrightarrow>
    list_all (\<lambda>(inb, outb). hm_get outb (outbound_to_inbound t) = Some inb) (inbound_to_outbound t) \<and>
    list_all (\<lambda>(outb, inb). hm_get inb (inbound_to_outbound t) = Some outb) (outbound_to_inbound t)"

text \<open>The two operations, split into the updates and the assertion of debug builds at their end.\<close>

definition SyncTracker_insert_pair :: "PeerId \<Rightarrow> PeerId \<Rightarrow> SyncTracker \<Rightarrow> SyncTracker" where
  "SyncTracker_insert_pair inbound outbound t =
    (let t1 = t\<lparr>inbound_to_outbound := hm_insert inbound outbound (inbound_to_outbound t)\<rparr>
     in t1\<lparr>outbound_to_inbound := hm_insert outbound inbound (outbound_to_inbound t1)\<rparr>)"

definition SyncTracker_pair :: "bool \<Rightarrow> PeerId \<Rightarrow> PeerId \<Rightarrow> SyncTracker \<Rightarrow> panic + SyncTracker" where
  "SyncTracker_pair dbg inbound outbound t =
    (let t' = SyncTracker_insert_pair inbound outbound t in
     if dbg \<and> \<not> SyncTracker_check_invariant t' then Inl DebugAssert else Inr t')"

definition SyncTracker_remove_peer :: "PeerId \<Rightarrow> SyncTracker \<Rightarrow> SyncTracker" where
  "SyncTracker_remove_peer peer t =
    (let removed = hm_get peer (inbound_to_outbound t);
         t1 = t\<lparr>inbound_to_outbound := hm_remove peer (inbound_to_outbound t)\<rparr>;
         t2 = (case removed of
                 Some outbound \<Rightarrow>
                   t1\<lparr>outbound_to_inbound := hm_remove outbound (outbound_to_inbound t1)\<rparr>
               | None \<Rightarrow> t1);
         removed' = hm_get peer (outbound_to_inbound t2);
         t3 = t2\<lparr>outbound_to_inbound := hm_remove peer (outbound_to_inbound t2)\<rparr>
     in case removed' of
          Some inbound \<Rightarrow> t3\<lparr>inbound_to_outbound := hm_remove inbound (inbound_to_outbound t3)\<rparr>
        | None \<Rightarrow> t3)"

definition SyncTracker_purge_peer :: "bool \<Rightarrow> PeerId \<Rightarrow> SyncTracker \<Rightarrow> panic + SyncTracker" where
  "SyncTracker_purge_peer dbg peer t =
    (let t' = SyncTracker_remove_peer peer t in
     if dbg \<and> \<not> SyncTracker_check_invariant t' then Inl DebugAssert else Inr t')"

definition SyncTracker_wf :: "SyncTracker \<Rightarrow> bool" where
  "SyncTracker_wf t \<longleftrightarrow> hm_wf (inbound_to_outbound t) \<and> hm_wf (outbound_to_inbound t)"

text \<open>The documented invariant, and the half of it that release builds keep.\<close>

definition sync_consistent :: "SyncTracker \<Rightarrow> bool" where
  "sync_consistent t \<longleftrightarrow>
    (\<forall>i u. SyncTracker_outbound_for i t = Some u \<longleftrightarrow> SyncTracker_inbound_for u t = Some i)"

definition sync_forward :: "SyncTracker \<Rightarrow> bool" where
  "sync_forward t \<longleftrightarrow>
    (\<forall>i u. SyncTracker_outbound_for i t = Some u \<longrightarrow> SyncTracker_inbound_for u t = Some i)"

lemma sync_consistent_forward: "sync_consistent t \<Longrightarrow> sync_forward t"
  by (simp add: sync_consistent_def sync_forward_def)

lemma sync_forward_inj:
  "sync_forward t \<Longrightarrow> SyncTracker_outbound_for i t = Some u \<Longrightarrow> SyncTracker_outbound_for j t = Some u \<Longrightarrow>
    i = j"
  by (metis sync_forward_def option.inject)

lemma check_invariant_iff: "SyncTracker_wf t \<Longrightarrow> SyncTracker_check_invariant t \<longleftrightarrow> sync_consistent t"
  by (auto simp: SyncTracker_check_invariant_def sync_consistent_def SyncTracker_wf_def
      SyncTracker_outbound_for_def SyncTracker_inbound_for_def list_all_iff hm_entries)

text \<open>The pairing and the purge, by what the two lookups answer afterwards.\<close>

lemmas sync_lookup_defs = SyncTracker_outbound_for_def SyncTracker_inbound_for_def

lemma SyncTracker_new_ok: "SyncTracker_wf SyncTracker_new" "sync_consistent SyncTracker_new"
  by (simp_all add: SyncTracker_wf_def SyncTracker_new_def sync_consistent_def sync_lookup_defs
      hm_simps hm.wf_new)

lemma sync_new_lookups [simp]:
  "SyncTracker_outbound_for x SyncTracker_new = None" "SyncTracker_inbound_for x SyncTracker_new = None"
  by (simp_all add: SyncTracker_new_def sync_lookup_defs hm_simps)

lemma insert_pair_wf: "SyncTracker_wf t \<Longrightarrow> SyncTracker_wf (SyncTracker_insert_pair i u t)"
  by (simp add: SyncTracker_wf_def SyncTracker_insert_pair_def hm_wf_intros)

lemma remove_peer_wf: "SyncTracker_wf t \<Longrightarrow> SyncTracker_wf (SyncTracker_remove_peer p t)"
  by (auto simp: SyncTracker_wf_def SyncTracker_remove_peer_def Let_def split: option.splits
      intro: hm_wf_intros)

lemma insert_pair_outbound_for: "SyncTracker_outbound_for x (SyncTracker_insert_pair i u t) =
    (if x = i then Some u else SyncTracker_outbound_for x t)"
  by (simp add: SyncTracker_insert_pair_def sync_lookup_defs hm_simps)

lemma insert_pair_inbound_for: "SyncTracker_inbound_for x (SyncTracker_insert_pair i u t) =
    (if x = u then Some i else SyncTracker_inbound_for x t)"
  by (simp add: SyncTracker_insert_pair_def sync_lookup_defs hm_simps)

lemma remove_peer_outbound_for:
  assumes "sync_forward t"
  shows "SyncTracker_outbound_for x (SyncTracker_remove_peer p t) =
    (if x = p \<or> SyncTracker_inbound_for p t = Some x then None else SyncTracker_outbound_for x t)"
proof -
  have "hm_get p (inbound_to_outbound t) = Some u \<Longrightarrow> hm_get u (outbound_to_inbound t) = Some p" for u
    using assms by (simp add: sync_forward_def sync_lookup_defs)
  then show ?thesis
    by (auto simp: SyncTracker_remove_peer_def Let_def sync_lookup_defs hm_simps split: option.splits)
qed

lemma remove_peer_inbound_for:
  "SyncTracker_inbound_for x (SyncTracker_remove_peer p t) =
    (if x = p \<or> SyncTracker_outbound_for p t = Some x then None else SyncTracker_inbound_for x t)"
  by (auto simp: SyncTracker_remove_peer_def Let_def sync_lookup_defs hm_simps split: option.splits)

lemmas sync_lookups = insert_pair_outbound_for insert_pair_inbound_for
  remove_peer_outbound_for remove_peer_inbound_for

lemma insert_pair_forward:
  assumes "sync_forward t" "SyncTracker_inbound_for u t = None"
  shows "sync_forward (SyncTracker_insert_pair i u t)"
  using assms by (auto simp: sync_forward_def sync_lookups)

lemma remove_peer_forward:
  assumes "sync_forward t"
  shows "sync_forward (SyncTracker_remove_peer p t)"
  unfolding sync_forward_def
proof (intro allI impI)
  fix i u
  assume "SyncTracker_outbound_for i (SyncTracker_remove_peer p t) = Some u"
  then have i: "i \<noteq> p" "SyncTracker_inbound_for p t \<noteq> Some i" "SyncTracker_outbound_for i t = Some u"
    by (auto simp: remove_peer_outbound_for [OF assms] split: if_splits)
  then have u: "SyncTracker_inbound_for u t = Some i" using assms by (simp add: sync_forward_def)
  with i have "u \<noteq> p" "SyncTracker_outbound_for p t \<noteq> Some u"
    using sync_forward_inj [OF assms, of p u i] by auto
  with u show "SyncTracker_inbound_for u (SyncTracker_remove_peer p t) = Some i"
    by (simp add: remove_peer_inbound_for)
qed

lemma insert_pair_consistent:
  assumes "sync_consistent t"
  shows "sync_consistent (SyncTracker_insert_pair i u t) \<longleftrightarrow>
    SyncTracker_outbound_for i t \<in> {None, Some u} \<and> SyncTracker_inbound_for u t \<in> {None, Some i}"
    (is "?l \<longleftrightarrow> ?r")
proof -
  have inverse: "SyncTracker_inbound_for w t = Some j \<longleftrightarrow> SyncTracker_outbound_for j t = Some w"
    for j w using assms by (simp add: sync_consistent_def)
  show ?thesis
  proof
    assume ?l
    then have new: "(if j = i then Some u else SyncTracker_outbound_for j t) = Some w \<longleftrightarrow>
        (if w = u then Some i else SyncTracker_inbound_for w t) = Some j" for j w
      by (simp add: sync_consistent_def sync_lookups)
    have "w = u" if "SyncTracker_outbound_for i t = Some w" for w
      using new [of i w] inverse [of w i] that by (auto split: if_splits)
    moreover have "j = i" if "SyncTracker_inbound_for u t = Some j" for j
      using new [of j u] inverse [of u j] that by (auto split: if_splits)
    ultimately show ?r
      by (metis insertCI option.exhaust)
  next
    assume ?r
    then have "(if j = i then Some u else SyncTracker_outbound_for j t) = Some w \<longleftrightarrow>
        (if w = u then Some i else SyncTracker_inbound_for w t) = Some j" for j w
      using inverse [of w j] inverse [of u j] inverse [of w i]
      by (cases "j = i"; cases "w = u") auto
    then show ?l by (simp add: sync_consistent_def sync_lookups)
  qed
qed

lemma remove_peer_consistent:
  assumes "sync_consistent t"
  shows "sync_consistent (SyncTracker_remove_peer p t)"
    and "SyncTracker_outbound_for i (SyncTracker_remove_peer p t) = Some u \<longleftrightarrow>
      SyncTracker_outbound_for i t = Some u \<and> i \<noteq> p \<and> u \<noteq> p"
proof -
  have fwd: "sync_forward t" using assms by (rule sync_consistent_forward)
  have inverse: "SyncTracker_inbound_for w t = Some j \<longleftrightarrow> SyncTracker_outbound_for j t = Some w"
    for j w using assms by (simp add: sync_consistent_def)
  have out: "SyncTracker_outbound_for j (SyncTracker_remove_peer p t) = Some w \<longleftrightarrow>
      SyncTracker_outbound_for j t = Some w \<and> j \<noteq> p \<and> w \<noteq> p" for j w
    by (auto simp: remove_peer_outbound_for [OF fwd] inverse)
  have "SyncTracker_inbound_for w (SyncTracker_remove_peer p t) = Some j \<longleftrightarrow>
      SyncTracker_outbound_for j t = Some w \<and> j \<noteq> p \<and> w \<noteq> p" for j w
    using sync_forward_inj [OF fwd, of p w j] by (auto simp: remove_peer_inbound_for inverse)
  with out show "sync_consistent (SyncTracker_remove_peer p t)"
    by (simp add: sync_consistent_def)
  show "SyncTracker_outbound_for i (SyncTracker_remove_peer p t) = Some u \<longleftrightarrow>
      SyncTracker_outbound_for i t = Some u \<and> i \<noteq> p \<and> u \<noteq> p"
    by (rule out)
qed

lemma pair_eq: "SyncTracker_wf t \<Longrightarrow> SyncTracker_pair dbg i u t =
    (if dbg \<and> \<not> sync_consistent (SyncTracker_insert_pair i u t) then Inl DebugAssert
     else Inr (SyncTracker_insert_pair i u t))"
  by (simp add: SyncTracker_pair_def Let_def check_invariant_iff insert_pair_wf)

lemma purge_eq: "SyncTracker_wf t \<Longrightarrow> SyncTracker_purge_peer dbg p t =
    (if dbg \<and> \<not> sync_consistent (SyncTracker_remove_peer p t) then Inl DebugAssert
     else Inr (SyncTracker_remove_peer p t))"
  by (simp add: SyncTracker_purge_peer_def Let_def check_invariant_iff remove_peer_wf)

subsection \<open>Properties\<close>

text \<open>(C29) When a pairing keeps the sync tracker consistent.  On a consistent tracker, \<open>pair\<close>
  always installs the new pairing in a release build, and the two maps stay inverse to each other
  exactly if neither peer was paired with somebody else before; otherwise the debug assertion at
  the end of \<open>pair\<close> fails.  Re-pairing a peer does not remove its old pairing.\<close>

theorem sync_pair_invariant_iff:
  assumes "SyncTracker_wf t" "sync_consistent t"
  shows "(SyncTracker_pair True i u t = Inl DebugAssert \<longleftrightarrow>
      \<not> (SyncTracker_outbound_for i t \<in> {None, Some u} \<and>
         SyncTracker_inbound_for u t \<in> {None, Some i})) \<and>
    (\<exists>t'. SyncTracker_pair False i u t = Inr t' \<and>
      SyncTracker_outbound_for i t' = Some u \<and> SyncTracker_inbound_for u t' = Some i \<and>
      (sync_consistent t' \<longleftrightarrow>
        SyncTracker_outbound_for i t \<in> {None, Some u} \<and>
        SyncTracker_inbound_for u t \<in> {None, Some i}))"
  using assms by (simp add: pair_eq insert_pair_consistent sync_lookups)

theorem sync_pair_invariant_iff_witness:
  "SyncTracker_pair True (PeerId 1) (PeerId 3)
    \<lparr>inbound_to_outbound = [(PeerId 1, PeerId 2)],
     outbound_to_inbound = [(PeerId 2, PeerId 1)]\<rparr> = Inl DebugAssert"
proof -
  let ?t = "\<lparr>inbound_to_outbound = [(PeerId 1, PeerId 2)],
     outbound_to_inbound = [(PeerId 2, PeerId 1)]\<rparr>"
  have "SyncTracker_wf ?t" "sync_consistent ?t"
    by (auto simp: SyncTracker_wf_def hm_wf_def sync_consistent_def SyncTracker_outbound_for_def
        SyncTracker_inbound_for_def hm_get_def)
  then show ?thesis
    using sync_pair_invariant_iff [of ?t "PeerId 1" "PeerId 3"]
    by (simp add: SyncTracker_outbound_for_def hm_get_def)
qed

text \<open>\<open>purge_peer\<close> on a consistent sync tracker never fires its assertion, dissolves exactly
  the pairings the peer takes part in, on either side, and leaves a consistent tracker.\<close>

theorem sync_purge_dissolves:
  assumes "SyncTracker_wf t" "sync_consistent t"
  shows "\<exists>t'. SyncTracker_purge_peer dbg p t = Inr t' \<and> SyncTracker_wf t' \<and> sync_consistent t' \<and>
    (\<forall>i u. SyncTracker_outbound_for i t' = Some u \<longleftrightarrow>
      SyncTracker_outbound_for i t = Some u \<and> i \<noteq> p \<and> u \<noteq> p)"
  using assms by (simp add: purge_eq remove_peer_wf remove_peer_consistent)

theorem sync_purge_dissolves_witness:
  "\<exists>t'. SyncTracker_purge_peer True (PeerId 2)
    \<lparr>inbound_to_outbound = [(PeerId 1, PeerId 2)],
     outbound_to_inbound = [(PeerId 2, PeerId 1)]\<rparr> = Inr t' \<and>
    SyncTracker_outbound_for (PeerId 1) t' = None"
proof -
  let ?t = "\<lparr>inbound_to_outbound = [(PeerId 1, PeerId 2)],
     outbound_to_inbound = [(PeerId 2, PeerId 1)]\<rparr>"
  have "SyncTracker_wf ?t" "sync_consistent ?t"
    by (auto simp: SyncTracker_wf_def hm_wf_def sync_consistent_def SyncTracker_outbound_for_def
        SyncTracker_inbound_for_def hm_get_def)
  then obtain t' where t': "SyncTracker_purge_peer True (PeerId 2) ?t = Inr t'"
    and "\<And>u. SyncTracker_outbound_for (PeerId 1) t' = Some u \<longleftrightarrow>
      SyncTracker_outbound_for (PeerId 1) ?t = Some u \<and> PeerId 1 \<noteq> PeerId 2 \<and> u \<noteq> PeerId 2"
    using sync_purge_dissolves [of ?t True "PeerId 2"] by blast
  then have "SyncTracker_outbound_for (PeerId 1) t' \<noteq> Some u" for u
    by (simp add: SyncTracker_outbound_for_def hm_get_def)
  with t' show ?thesis by (auto simp: not_Some_eq)
qed

text \<open>A request is answered to the peer that asked last and only once.  After any history of
  \<open>record\<close>, \<open>purge_peer\<close> and \<open>fulfill\<close> calls on a new request tracker, \<open>fulfill(id)\<close> returns
  \<open>Some(p)\<close> exactly if the history has a \<open>record(id, p)\<close> after which nobody else asked for \<open>id\<close>,
  the request was not fulfilled and \<open>p\<close> was not purged; a second \<open>fulfill(id)\<close> returns \<open>None\<close>.\<close>

theorem request_tracker_history:
  "(let t = fold (run_op RequestTracker_record RequestTracker_purge_peer
        (\<lambda>i t. snd (RequestTracker_fulfill i t))) ops RequestTracker_new
    in (fst (RequestTracker_fulfill i t) = Some p \<longleftrightarrow>
        (\<exists>pre post. ops = pre @ Recorded i p # post \<and>
          list_all (\<lambda>oper. \<not> overrides i p oper) post)) \<and>
      fst (RequestTracker_fulfill i (snd (RequestTracker_fulfill i t))) = None)"
proof -
  define t where "t = fold (run_op RequestTracker_record RequestTracker_purge_peer
        (\<lambda>i t. snd (RequestTracker_fulfill i t))) ops RequestTracker_new"
  have "RequestTracker_wf t"
    unfolding t_def using requests.run_ops [OF requests.wf_new] by blast
  then have "RequestTracker_lookup i (snd (RequestTracker_fulfill i t)) = None"
    by (simp add: requests.look_forget)
  then show ?thesis
    using requests.look_history [of i ops p] by (simp add: Let_def flip: t_def)
qed

end
