(* ===== verification/Latency.thy ===== *)
theory Latency
  imports Complex_Main Hash_Map
begin

text \<open>
  The latency tracker of \<open>src/routing/latency.rs\<close>.

  An \<open>Instant\<close> is a number of nanoseconds on the monotonic clock; \<open>elapsed\<close> saturates at zero.
  The \<open>f64\<close> values are modelled by real numbers, so rounding is left out; \<open>f64::MAX\<close> and
  \<open>f64::MIN\<close> keep their values because \<open>stats\<close> starts its folds with them.  The counter of
  samples is a \<open>u64\<close> that wraps around, as in a release build.  The in-flight requests meet the
  contract \<open>pending_table\<close>.
\<close>

definition EMA_ALPHA :: real where
  "EMA_ALPHA = 0.3"

definition f64_MAX :: real where
  "f64_MAX = (2 - 1 / 2 ^ 52) * 2 ^ 1023"

record PendingTiming =
  target_peer :: PeerId
  sent_at :: nat

record PeerLatency =
  ema_ms :: real
  sample_count :: u64

record LatencyTracker =
  lat_pending :: "(ModifierId, PendingTiming) hashmap"
  lat_peers :: "(PeerId, PeerLatency) hashmap"

record LatencyStats =
  min_ms :: real
  avg_ms :: real
  max_ms :: real
  peer_count :: nat

definition LatencyTracker_new :: LatencyTracker where
  "LatencyTracker_new = \<lparr>lat_pending = [], lat_peers = []\<rparr>"

definition LatencyTracker_record_request ::
    "nat \<Rightarrow> ModifierId \<Rightarrow> PeerId \<Rightarrow> LatencyTracker \<Rightarrow> LatencyTracker" where
  "LatencyTracker_record_request now modifier_id target t =
    t\<lparr>lat_pending :=
      hm_insert modifier_id \<lparr>target_peer = target, sent_at = now\<rparr> (lat_pending t)\<rparr>"

text \<open>\<open>sent_at.elapsed().as_secs_f64() * 1000.0\<close>\<close>

definition rtt_between :: "nat \<Rightarrow> nat \<Rightarrow> real" where
  "rtt_between sent now = real (now - sent) / 10 ^ 9 * 1000"

definition LatencyTracker_record_response ::
    "nat \<Rightarrow> ModifierId \<Rightarrow> LatencyTracker \<Rightarrow> real option \<times> LatencyTracker" where
  "LatencyTracker_record_response now modifier_id t =
    (case hm_get modifier_id (lat_pending t) of
      None \<Rightarrow> (None, t)
    | Some timing \<Rightarrow>
        (let t1 = t\<lparr>lat_pending := hm_remove modifier_id (lat_pending t)\<rparr>;
             rtt_ms = rtt_between (sent_at timing) now;
             entry = (case hm_get (target_peer timing) (lat_peers t1) of
                        Some e \<Rightarrow> e
                      | None \<Rightarrow> \<lparr>ema_ms = rtt_ms, sample_count = 0\<rparr>);
             entry1 = (if sample_count entry = 0 then entry\<lparr>ema_ms := rtt_ms\<rparr>
                       else entry\<lparr>ema_ms := EMA_ALPHA * rtt_ms + (1 - EMA_ALPHA) * ema_ms entry\<rparr>);
             entry2 = entry1\<lparr>sample_count := sample_count entry1 + 1\<rparr>
         in (Some rtt_ms,
             t1\<lparr>lat_peers := hm_insert (target_peer timing) entry2 (lat_peers t1)\<rparr>)))"

definition LatencyTracker_peer_latency :: "PeerId \<Rightarrow> LatencyTracker \<Rightarrow> real option" where
  "LatencyTracker_peer_latency peer t = map_option ema_ms (hm_get peer (lat_peers t))"

definition LatencyTracker_purge_peer :: "PeerId \<Rightarrow> LatencyTracker \<Rightarrow> LatencyTracker" where
  "LatencyTracker_purge_peer peer t =
    (let t1 = t\<lparr>lat_pending := hm_retain (\<lambda>_ timing. target_peer timing \<noteq> peer) (lat_pending t)\<rparr>
     in t1\<lparr>lat_peers := hm_remove peer (lat_peers t1)\<rparr>)"

text \<open>The loop of \<open>stats\<close>: the running minimum, maximum, sum and count.\<close>

fun stats_loop :: "PeerLatency list \<Rightarrow> real \<times> real \<times> real \<times> nat \<Rightarrow> real \<times> real \<times> real \<times> nat" where
  "stats_loop [] acc = acc"
| "stats_loop (entry # es) (mi, ma, sum_ms, count) =
    stats_loop es
      (if sample_count entry > 0
       then (min mi (ema_ms entry), max ma (ema_ms entry), sum_ms + ema_ms entry, count + 1)
       else (mi, ma, sum_ms, count))"

definition LatencyTracker_stats :: "LatencyTracker \<Rightarrow> LatencyStats option" where
  "LatencyTracker_stats t =
    (if lat_peers t = [] then None
     else case stats_loop (map snd (lat_peers t)) (f64_MAX, - f64_MAX, 0, 0) of
       (mi, ma, sum_ms, count) \<Rightarrow>
         if count = 0 then None
         else Some \<lparr>min_ms = mi, avg_ms = sum_ms / real count, max_ms = ma, peer_count = count\<rparr>)"

text \<open>\<open>Iterator::min_by\<close> keeps the earlier of two equal elements.\<close>

fun min_by_latency :: "(PeerId \<times> real) list \<Rightarrow> (PeerId \<times> real) option" where
  "min_by_latency [] = None"
| "min_by_latency (c # cs) = Some (foldl (\<lambda>a b. if snd a > snd b then b else a) c cs)"

definition LatencyTracker_fastest_peer :: "PeerId list \<Rightarrow> LatencyTracker \<Rightarrow> PeerId option" where
  "LatencyTracker_fastest_peer candidates t =
    map_option fst
      (min_by_latency
        (List.map_filter (\<lambda>p. map_option (\<lambda>lat. (p, lat)) (LatencyTracker_peer_latency p t))
          candidates))"

subsection \<open>The in-flight requests\<close>

definition LatencyTracker_wf :: "LatencyTracker \<Rightarrow> bool" where
  "LatencyTracker_wf t \<longleftrightarrow> hm_wf (lat_pending t) \<and> hm_wf (lat_peers t)"

definition LatencyTracker_target :: "ModifierId \<Rightarrow> LatencyTracker \<Rightarrow> PeerId option" where
  "LatencyTracker_target i t = map_option target_peer (hm_get i (lat_pending t))"

abbreviation LatencyTracker_drop :: "nat \<Rightarrow> ModifierId \<Rightarrow> LatencyTracker \<Rightarrow> LatencyTracker" where
  "LatencyTracker_drop now i t \<equiv> snd (LatencyTracker_record_response now i t)"

interpretation latency: pending_table LatencyTracker_wf LatencyTracker_new LatencyTracker_target
  "LatencyTracker_record_request now" LatencyTracker_purge_peer "LatencyTracker_drop now'"
  for now now' :: nat
proof unfold_locales
  show "LatencyTracker_target k (LatencyTracker_purge_peer p t) =
      entry_step k (Purged p) (LatencyTracker_target k t)"
    if "LatencyTracker_wf t" for t k p
    using that
    by (auto simp: LatencyTracker_wf_def LatencyTracker_target_def LatencyTracker_purge_peer_def
        hm.get_retain split: option.splits)
  show "LatencyTracker_target k (LatencyTracker_drop now' k' t) =
      entry_step k (Forgotten k') (LatencyTracker_target k t)"
    if "LatencyTracker_wf t" for t k k'
    by (auto simp: LatencyTracker_target_def LatencyTracker_record_response_def Let_def hm_simps
        split: option.splits)
  show "LatencyTracker_wf (LatencyTracker_drop now' k t)" if "LatencyTracker_wf t" for t k
    using that
    by (auto simp: LatencyTracker_wf_def LatencyTracker_record_response_def Let_def
        split: option.splits intro: hm_wf_intros)
qed (auto simp: LatencyTracker_wf_def LatencyTracker_new_def LatencyTracker_target_def
    LatencyTracker_record_request_def LatencyTracker_purge_peer_def hm_simps intro: hm_wf_intros)

text \<open>The peers the tracker knows of: targets of pending requests and peers with statistics.\<close>

definition latency_refs :: "LatencyTracker \<Rightarrow> PeerId set" where
  "latency_refs t = refs LatencyTracker_target t \<union> hm_dom (lat_peers t)"

lemma peer_latency_refs: "LatencyTracker_peer_latency p t = Some l \<Longrightarrow> p \<in> latency_refs t"
  by (auto simp: latency_refs_def LatencyTracker_peer_latency_def hm_dom_get)

lemma target_refs: "LatencyTracker_target i t = Some p \<Longrightarrow> p \<in> latency_refs t"
  by (auto simp: latency_refs_def refs_def)

lemma latency_refs_new [simp]: "latency_refs LatencyTracker_new = {}"
  by (simp add: latency_refs_def latency.refs_new) (simp add: LatencyTracker_new_def)

lemma latency_refs_request:
  "LatencyTracker_wf t \<Longrightarrow>
    latency_refs (LatencyTracker_record_request now i p t) \<subseteq> insert p (latency_refs t)"
  using latency.refs_enter [of t now i p]
  by (auto simp: latency_refs_def LatencyTracker_record_request_def)

lemma latency_refs_response:
  assumes "LatencyTracker_wf t"
  shows "latency_refs (LatencyTracker_drop now i t) \<subseteq> latency_refs t"
proof -
  have "hm_dom (lat_peers (LatencyTracker_drop now i t)) \<subseteq> latency_refs t"
    by (auto simp: latency_refs_def LatencyTracker_record_response_def Let_def refs_def
        LatencyTracker_target_def split: option.splits)
  then show ?thesis using latency.refs_forget [OF assms, of now i] by (auto simp: latency_refs_def)
qed

lemma latency_refs_purge:
  "LatencyTracker_wf t \<Longrightarrow> latency_refs (LatencyTracker_purge_peer p t) = latency_refs t - {p}"
  using latency.refs_purge [of t p]
  by (auto simp: latency_refs_def LatencyTracker_purge_peer_def)

subsection \<open>The moving average\<close>

text \<open>One request of \<open>i\<close> to \<open>p\<close> and its response, at the given times, and a series of them.\<close>

definition lat_sample :: "PeerId \<Rightarrow> ModifierId \<Rightarrow> nat \<times> nat \<Rightarrow> LatencyTracker \<Rightarrow> LatencyTracker" where
  "lat_sample p i sr t = LatencyTracker_drop (snd sr) i
    (LatencyTracker_record_request (fst sr) i p t)"

definition ema_step :: "real \<Rightarrow> real \<Rightarrow> real" where
  "ema_step e r = EMA_ALPHA * r + (1 - EMA_ALPHA) * e"

definition sample_rtt :: "nat \<times> nat \<Rightarrow> real" where
  "sample_rtt sr = rtt_between (fst sr) (snd sr)"

lemma lat_sample_peers: "lat_peers (lat_sample p i sr t) = hm_insert p
    (case hm_get p (lat_peers t) of
      None \<Rightarrow> \<lparr>ema_ms = sample_rtt sr, sample_count = 1\<rparr>
    | Some e \<Rightarrow> e\<lparr>ema_ms := if sample_count e = 0 then sample_rtt sr
                           else ema_step (ema_ms e) (sample_rtt sr),
        sample_count := sample_count e + 1\<rparr>) (lat_peers t)"
  by (simp add: lat_sample_def LatencyTracker_record_response_def LatencyTracker_record_request_def
      Let_def hm_simps sample_rtt_def ema_step_def split: option.splits)

lemma lat_samples_other:
  "q \<noteq> p \<Longrightarrow> hm_get q (lat_peers (fold (lat_sample p i) ts t)) = hm_get q (lat_peers t)"
  by (induction ts arbitrary: t) (simp_all add: lat_sample_peers hm_simps)

lemma lat_samples_same:
  assumes "hm_get p (lat_peers t) = Some \<lparr>ema_ms = e, sample_count = of_nat n\<rparr>"
    and "0 < n" "n + length ts < 2 ^ 64"
  shows "hm_get p (lat_peers (fold (lat_sample p i) ts t)) =
    Some \<lparr>ema_ms = foldl ema_step e (map sample_rtt ts), sample_count = of_nat (n + length ts)\<rparr>"
  using assms
proof (induction ts arbitrary: t e n)
  case (Cons sr ts)
  have "(of_nat n :: u64) \<noteq> 0"
    using Cons.prems by (auto simp: word_of_nat_eq_0_iff dest: dvd_imp_le)
  then have "hm_get p (lat_peers (lat_sample p i sr t)) =
      Some \<lparr>ema_ms = ema_step e (sample_rtt sr), sample_count = of_nat (Suc n)\<rparr>"
    using Cons.prems(1) by (simp add: lat_sample_peers hm_simps)
  from Cons.IH [OF this] Cons.prems show ?case by simp
qed simp

lemma ema_closed:
  "foldl ema_step r rs = (1 - EMA_ALPHA) ^ length rs * r +
    (\<Sum>k<length rs. EMA_ALPHA * (1 - EMA_ALPHA) ^ (length rs - 1 - k) * rs ! k)"
proof (induction rs rule: rev_induct)
  case (snoc x rs)
  let ?n = "length rs"
  have "(\<Sum>k<?n. EMA_ALPHA * (1 - EMA_ALPHA) ^ (?n - k) * (rs @ [x]) ! k) =
      (1 - EMA_ALPHA) * (\<Sum>k<?n. EMA_ALPHA * (1 - EMA_ALPHA) ^ (?n - 1 - k) * rs ! k)"
    unfolding sum_distrib_left
  proof (rule sum.cong)
    fix k assume "k \<in> {..<?n}"
    then have "?n - k = Suc (?n - 1 - k)" by auto
    with \<open>k \<in> _\<close> show "EMA_ALPHA * (1 - EMA_ALPHA) ^ (?n - k) * (rs @ [x]) ! k =
        (1 - EMA_ALPHA) * (EMA_ALPHA * (1 - EMA_ALPHA) ^ (?n - 1 - k) * rs ! k)"
      by (simp add: nth_append)
  qed simp
  then show ?case using snoc by (simp add: ema_step_def algebra_simps)
qed simp

lemma ema_step_between: "lo \<le> e \<Longrightarrow> e \<le> hi \<Longrightarrow> lo \<le> r \<Longrightarrow> r \<le> hi \<Longrightarrow> lo \<le> ema_step e r \<and> ema_step e r \<le> hi"
  by (simp add: ema_step_def EMA_ALPHA_def)

lemma ema_between:
  "lo \<le> e \<Longrightarrow> e \<le> hi \<Longrightarrow> list_all (\<lambda>r. lo \<le> r \<and> r \<le> hi) rs \<Longrightarrow>
    lo \<le> foldl ema_step e rs \<and> foldl ema_step e rs \<le> hi"
  by (induction rs arbitrary: e) (simp_all add: ema_step_between)



subsection \<open>Statistics over all peers\<close>

definition measured :: "LatencyTracker \<Rightarrow> real list" where
  "measured t = map ema_ms (filter (\<lambda>e. sample_count e > 0) (map snd (lat_peers t)))"

lemma stats_loop_folds:
  "stats_loop es (mi, ma, s, c) =
    (let vs = map ema_ms (filter (\<lambda>e. sample_count e > 0) es)
     in (fold min vs mi, fold max vs ma, s + sum_list vs, c + length vs))"
  by (induction es arbitrary: mi ma s c) (simp_all add: Let_def min.commute max.commute)

lemma fold_min_bound: "vs \<noteq> [] \<Longrightarrow> list_all (\<lambda>v. v \<le> b) vs \<Longrightarrow> fold min vs b = Min (set vs)"
  for b :: real
  using Min.set_eq_fold [of b vs] by (simp add: min_absorb2 list_all_iff)

lemma fold_max_bound: "vs \<noteq> [] \<Longrightarrow> list_all (\<lambda>v. b \<le> v) vs \<Longrightarrow> fold max vs b = Max (set vs)"
  for b :: real
  using Max.set_eq_fold [of b vs] by (simp add: max_absorb2 list_all_iff)

lemma mean_between:
  fixes vs :: "real list"
  assumes "vs \<noteq> []"
  shows "Min (set vs) \<le> sum_list vs / length vs \<and> sum_list vs / length vs \<le> Max (set vs)"
proof -
  have "real (length vs) * Min (set vs) \<le> sum_list vs"
    using sum_list_mono [of vs "\<lambda>_. Min (set vs)" "\<lambda>v. v"] by (simp add: sum_list_triv)
  moreover have "sum_list vs \<le> real (length vs) * Max (set vs)"
    using sum_list_mono [of vs "\<lambda>v. v" "\<lambda>_. Max (set vs)"] by (simp add: sum_list_triv)
  ultimately show ?thesis using assms by (simp add: field_simps)
qed

lemma stats_measured:
  assumes "list_all (\<lambda>v. - f64_MAX \<le> v \<and> v \<le> f64_MAX) (measured t)"
  shows "LatencyTracker_stats t = (if measured t = [] then None else
    Some \<lparr>min_ms = Min (set (measured t)), avg_ms = sum_list (measured t) / length (measured t),
      max_ms = Max (set (measured t)), peer_count = length (measured t)\<rparr>)"
proof (cases "measured t = []")
  case True
  then show ?thesis
    by (simp add: LatencyTracker_stats_def stats_loop_folds Let_def measured_def)
next
  case False
  then have peers: "lat_peers t \<noteq> []" by (auto simp: measured_def)
  have "fold min (measured t) f64_MAX = Min (set (measured t))"
    "fold max (measured t) (- f64_MAX) = Max (set (measured t))"
    using assms False by (auto intro!: fold_min_bound fold_max_bound simp: list_all_iff)
  then show ?thesis
    using peers False
    by (simp add: LatencyTracker_stats_def stats_loop_folds Let_def flip: measured_def)
qed

text \<open>\<open>stats\<close> returns the minimum, the mean and the maximum of the latencies of the peers
  that have samples, with their number, and the mean lies between the other two; it returns
  \<open>None\<close> exactly if no peer has a sample.  The latencies are assumed to be finite \<open>f64\<close> values.\<close>

theorem latency_stats_correct:
  assumes "list_all (\<lambda>v. - f64_MAX \<le> v \<and> v \<le> f64_MAX) (measured t)"
  shows "(LatencyTracker_stats t = None \<longleftrightarrow> measured t = []) \<and>
    (\<forall>st. LatencyTracker_stats t = Some st \<longrightarrow>
      min_ms st = Min (set (measured t)) \<and> max_ms st = Max (set (measured t)) \<and>
      avg_ms st = sum_list (measured t) / length (measured t) \<and>
      peer_count st = length (measured t) \<and> min_ms st \<le> avg_ms st \<and> avg_ms st \<le> max_ms st)"
  using stats_measured [OF assms] mean_between [of "measured t"] by auto

theorem latency_stats_correct_witness:
  "LatencyTracker_stats \<lparr>lat_pending = [], lat_peers =
      [(PeerId 1, \<lparr>ema_ms = 10, sample_count = 2\<rparr>), (PeerId 2, \<lparr>ema_ms = 30, sample_count = 1\<rparr>)]\<rparr>
    \<noteq> None"
  using latency_stats_correct [of "\<lparr>lat_pending = [], lat_peers =
      [(PeerId 1, \<lparr>ema_ms = 10, sample_count = 2\<rparr>), (PeerId 2, \<lparr>ema_ms = 30, sample_count = 1\<rparr>)]\<rparr>"]
  by (simp add: measured_def f64_MAX_def)

subsection \<open>The fastest candidate\<close>

lemma min_by_fold:
  "\<exists>pre post. c # cs = pre @ foldl (\<lambda>a b. if snd a > snd b then b else a) c cs # post \<and>
    list_all (\<lambda>x. snd (foldl (\<lambda>a b. if snd a > snd b then b else a) c cs) < snd x) pre \<and>
    list_all (\<lambda>x. snd (foldl (\<lambda>a b. if snd a > snd b then b else a) c cs) \<le> snd x) post"
  for c :: "PeerId \<times> real"
proof (induction cs arbitrary: c)
  case (Cons b bs)
  define a where "a = (if snd c > snd b then b else c)"
  define m where "m = foldl (\<lambda>a b. if snd a > snd b then b else a) a bs"
  obtain pre post where split: "a # bs = pre @ m # post"
    and pre: "list_all (\<lambda>x. snd m < snd x) pre" and post: "list_all (\<lambda>x. snd m \<le> snd x) post"
    using Cons.IH [of a] by (auto simp: m_def)
  have le: "snd m \<le> snd a"
    using split pre by (cases pre) auto
  have "\<exists>pre' post'. c # b # bs = pre' @ m # post' \<and> list_all (\<lambda>x. snd m < snd x) pre' \<and>
      list_all (\<lambda>x. snd m \<le> snd x) post'"
  proof (cases "snd c > snd b")
    case True
    then have "c # b # bs = (c # pre) @ m # post" "list_all (\<lambda>x. snd m < snd x) (c # pre)"
      using split pre le by (auto simp: a_def)
    with post show ?thesis by blast
  next
    case keep: False
    then have a: "a = c" by (simp add: a_def)
    show ?thesis
    proof (cases pre)
      case Nil
      then have "c # b # bs = [] @ m # (b # post)" "list_all (\<lambda>x. snd m \<le> snd x) (b # post)"
        using split post keep a by auto
      then show ?thesis by (intro exI [of _ "[]"] exI [of _ "b # post"]) simp
    next
      case (Cons x xs)
      then have "c # b # bs = (c # b # xs) @ m # post" "list_all (\<lambda>x. snd m < snd x) (c # b # xs)"
        using split pre keep a by auto
      with post show ?thesis by blast
    qed
  qed
  then show ?case by (simp add: m_def a_def)
next
  case Nil
  show ?case by (intro exI [of _ "[]"]) simp
qed

lemma map_filter_split:
  assumes "List.map_filter f xs = pre @ y # post"
  shows "\<exists>xp x xq. xs = xp @ x # xq \<and> f x = Some y \<and> List.map_filter f xp = pre \<and>
    List.map_filter f xq = post"
  using assms
proof (induction xs arbitrary: pre)
  case (Cons x xs)
  show ?case
  proof (cases "f x")
    case None
    with Cons obtain xp x' xq where "xs = xp @ x' # xq" "f x' = Some y"
      "List.map_filter f xp = pre" "List.map_filter f xq = post"
      by (auto simp: List.map_filter_simps)
    with None show ?thesis
      by (intro exI [of _ "x # xp"] exI [of _ x'] exI [of _ xq]) (simp add: List.map_filter_simps)
  next
    case (Some z)
    show ?thesis
    proof (cases pre)
      case Nil
      with Some Cons.prems show ?thesis
        by (intro exI [of _ "[]"] exI [of _ x] exI [of _ xs]) (simp add: List.map_filter_simps)
    next
      case pre: (Cons w ws)
      with Some Cons.prems Cons.IH [of ws] obtain xp x' xq where "xs = xp @ x' # xq" "f x' = Some y"
        "List.map_filter f xp = ws" "List.map_filter f xq = post"
        by (auto simp: List.map_filter_simps)
      with Some pre Cons.prems show ?thesis
        by (intro exI [of _ "x # xp"] exI [of _ x'] exI [of _ xq]) (simp add: List.map_filter_simps)
    qed
  qed
qed (simp add: List.map_filter_simps)

text \<open>\<open>fastest_peer\<close> returns \<open>None\<close> exactly if no candidate has a latency, and otherwise the
  first candidate of smallest latency: every earlier candidate with a latency is strictly slower,
  and no later one is faster.\<close>

theorem fastest_peer_first_minimum:
  "case LatencyTracker_fastest_peer candidates t of
    None \<Rightarrow> list_all (\<lambda>q. LatencyTracker_peer_latency q t = None) candidates
  | Some p \<Rightarrow> \<exists>pre post l. candidates = pre @ p # post \<and> LatencyTracker_peer_latency p t = Some l \<and>
      list_all (\<lambda>q. pred_option (\<lambda>l'. l < l') (LatencyTracker_peer_latency q t)) pre \<and>
      list_all (\<lambda>q. pred_option (\<lambda>l'. l \<le> l') (LatencyTracker_peer_latency q t)) post"
proof -
  define f where "f = (\<lambda>p. map_option (\<lambda>lat. (p, lat)) (LatencyTracker_peer_latency p t))"
  have f: "list_all (\<lambda>x. R (snd x)) (List.map_filter f qs) \<longleftrightarrow>
      list_all (\<lambda>q. pred_option R (LatencyTracker_peer_latency q t)) qs" for R qs
    by (induction qs) (auto simp: List.map_filter_simps f_def split: option.splits)
  show ?thesis
  proof (cases "List.map_filter f candidates")
    case Nil
    then have "list_all (\<lambda>q. LatencyTracker_peer_latency q t = None) candidates"
      by (induction candidates) (auto simp: List.map_filter_simps f_def split: option.splits)
    with Nil show ?thesis by (simp add: LatencyTracker_fastest_peer_def flip: f_def)
  next
    case (Cons c cs)
    define m where "m = foldl (\<lambda>a b. if snd a > snd b then b else a) c cs"
    obtain pre post where "List.map_filter f candidates = pre @ m # post"
      and bounds: "list_all (\<lambda>x. snd m < snd x) pre" "list_all (\<lambda>x. snd m \<le> snd x) post"
      using min_by_fold [of c cs] Cons by (auto simp: m_def)
    then obtain cp p cq where "candidates = cp @ p # cq" "f p = Some m"
      and "List.map_filter f cp = pre" "List.map_filter f cq = post"
      using map_filter_split by metis
    moreover have "LatencyTracker_fastest_peer candidates t = Some (fst m)"
      using Cons by (simp add: LatencyTracker_fastest_peer_def m_def flip: f_def)
    moreover have "p = fst m" "LatencyTracker_peer_latency p t = Some (snd m)"
      using \<open>f p = Some m\<close> by (auto simp: f_def)
    ultimately show ?thesis
      using bounds f [of "\<lambda>l. snd m < l" cp] f [of "\<lambda>l. snd m \<le> l" cq]
      by simp blast
  qed
qed

end
