(* ===== verification/Router.thy ===== *)
theory Router
  imports Peer Inv_Table Tracker Latency
begin

text \<open>
  The router of \<open>src/routing/router.rs\<close>: the peer registry, the four tables, and the
  decision which messages go to whom.

  \<open>Router_handle_event dbg now event r\<close> is the whole handler: \<open>dbg\<close> compiles the debug assertions
  of the tables in, \<open>now\<close> gives the successive readings of the monotonic clock during the call, and
  the result is either a failed assertion or the new router with the actions.  The registry is a
  \<open>HashMap\<close>: the loops over it run in the order of the list, and \<open>router_step\<close> lets that order
  change between any two calls.
\<close>

datatype Action = Send (target: PeerId) (sent_message: ProtocolMessage)

record PeerEntry =
  entry_direction :: Direction
  entry_mode :: ProxyMode

record Router =
  router_peers :: "(PeerId, PeerEntry) hashmap"
  router_inv_table :: InvTable
  router_requests :: RequestTracker
  router_sync :: SyncTracker
  router_latency :: LatencyTracker

definition Router_new :: Router where
  "Router_new =
    \<lparr>router_peers = [], router_inv_table = InvTable_new, router_requests = RequestTracker_new,
     router_sync = SyncTracker_new, router_latency = LatencyTracker_new\<rparr>"

definition Router_register_peer :: "PeerId \<Rightarrow> Direction \<Rightarrow> ProxyMode \<Rightarrow> Router \<Rightarrow> Router" where
  "Router_register_peer peer_id direction mode r =
    r\<lparr>router_peers :=
      hm_insert peer_id \<lparr>entry_direction = direction, entry_mode = mode\<rparr> (router_peers r)\<rparr>"

fun opposite :: "Direction \<Rightarrow> Direction" where
  "opposite Outbound = Inbound"
| "opposite Inbound = Outbound"

text \<open>The iteration over the registry that forwards \<open>Inv\<close> and unknown messages.\<close>

definition forward_to :: "Direction \<Rightarrow> PeerId \<Rightarrow> ProtocolMessage \<Rightarrow> Router \<Rightarrow> Action list" where
  "forward_to target_direction source msg r =
    map (\<lambda>(pid, _). Send pid msg)
      (filter (\<lambda>(pid, entry). pid \<noteq> source \<and> entry_direction entry = target_direction)
        (router_peers r))"

definition route_inv ::
    "PeerId \<Rightarrow> Direction \<Rightarrow> u8 \<Rightarrow> ModifierId list \<Rightarrow> Router \<Rightarrow> Router \<times> Action list" where
  "route_inv source source_direction modifier_type ids r =
    (let r' = r\<lparr>router_inv_table :=
           fold (\<lambda>i. InvTable_record i source) ids (router_inv_table r)\<rparr>
     in (r', forward_to (opposite source_direction) source (Inv modifier_type ids) r'))"

text \<open>The loop over the requested modifiers; iteration \<open>n\<close> reads the clock as \<open>now n\<close>.\<close>

fun route_request_loop :: "(nat \<Rightarrow> nat) \<Rightarrow> PeerId \<Rightarrow> u8 \<Rightarrow> ModifierId list \<Rightarrow> Router \<Rightarrow>
    Router \<times> Action list" where
  "route_request_loop now source modifier_type [] r = (r, [])"
| "route_request_loop now source modifier_type (i # ids) r =
    (case InvTable_lookup i (router_inv_table r) of
      Some tgt \<Rightarrow>
        if tgt \<noteq> source then
          (let r1 = r\<lparr>router_requests := RequestTracker_record i source (router_requests r),
                 router_latency :=
                   LatencyTracker_record_request (now 0) i tgt (router_latency r)\<rparr>;
               (r2, actions) = route_request_loop (\<lambda>n. now (Suc n)) source modifier_type ids r1
           in (r2, Send tgt (ModifierRequest modifier_type [i]) # actions))
        else route_request_loop (\<lambda>n. now (Suc n)) source modifier_type ids r
    | None \<Rightarrow> route_request_loop (\<lambda>n. now (Suc n)) source modifier_type ids r)"

fun route_response_loop :: "(nat \<Rightarrow> nat) \<Rightarrow> u8 \<Rightarrow> (ModifierId \<times> bytes) list \<Rightarrow> Router \<Rightarrow>
    Router \<times> Action list" where
  "route_response_loop now modifier_type [] r = (r, [])"
| "route_response_loop now modifier_type ((i, data) # modifiers) r =
    (let r1 = r\<lparr>router_latency :=
           snd (LatencyTracker_record_response (now 0) i (router_latency r))\<rparr>;
         (fulfilled, requests) = RequestTracker_fulfill i (router_requests r1);
         (r2, actions) = route_response_loop (\<lambda>n. now (Suc n)) modifier_type modifiers
           (r1\<lparr>router_requests := requests\<rparr>)
     in (r2, (case fulfilled of
               Some requester \<Rightarrow> [Send requester (ModifierResponse modifier_type [(i, data)])]
             | None \<Rightarrow> []) @ actions))"

definition route_sync_info ::
    "bool \<Rightarrow> PeerId \<Rightarrow> PeerEntry \<Rightarrow> bytes \<Rightarrow> Router \<Rightarrow> panic + Router \<times> Action list" where
  "route_sync_info dbg source entry body r =
    (if entry_mode entry = Light then Inr (r, [])
     else case entry_direction entry of
       Inbound \<Rightarrow>
         (case List.find (\<lambda>(pid, e). entry_direction e = Outbound \<and>
                 SyncTracker_inbound_for pid (router_sync r) = None) (router_peers r) of
           Some (outbound_id, _) \<Rightarrow>
             (case SyncTracker_pair dbg source outbound_id (router_sync r) of
               Inl e \<Rightarrow> Inl e
             | Inr sync \<Rightarrow> Inr (r\<lparr>router_sync := sync\<rparr>, [Send outbound_id (SyncInfo body)]))
         | None \<Rightarrow> Inr (r, []))
     | Outbound \<Rightarrow>
         (case SyncTracker_inbound_for source (router_sync r) of
           Some inbound \<Rightarrow> Inr (r, [Send inbound (SyncInfo body)])
         | None \<Rightarrow> Inr (r, [])))"

definition Router_route_message :: "bool \<Rightarrow> (nat \<Rightarrow> nat) \<Rightarrow> PeerId \<Rightarrow> ProtocolMessage \<Rightarrow> Router \<Rightarrow>
    panic + Router \<times> Action list" where
  "Router_route_message dbg now source msg r =
    (case hm_get source (router_peers r) of
      None \<Rightarrow> Inr (r, [])
    | Some entry \<Rightarrow>
        (case msg of
          Inv modifier_type ids \<Rightarrow> Inr (route_inv source (entry_direction entry) modifier_type ids r)
        | ModifierRequest modifier_type ids \<Rightarrow>
            Inr (route_request_loop now source modifier_type ids r)
        | ModifierResponse modifier_type modifiers \<Rightarrow>
            Inr (route_response_loop now modifier_type modifiers r)
        | SyncInfo body \<Rightarrow> route_sync_info dbg source entry body r
        | GetPeers \<Rightarrow> Inr (r, [Send source (Peers [])])
        | Peers _ \<Rightarrow> Inr (r, [])
        | Unknown code body \<Rightarrow>
            Inr (r, forward_to (opposite (entry_direction entry)) source (Unknown code body) r)))"

definition Router_disconnect :: "bool \<Rightarrow> PeerId \<Rightarrow> Router \<Rightarrow> panic + Router \<times> Action list" where
  "Router_disconnect dbg peer_id r =
    (case InvTable_purge_peer dbg peer_id (router_inv_table r) of
      Inl e \<Rightarrow> Inl e
    | Inr table \<Rightarrow>
        (let r1 = r\<lparr>router_inv_table := table\<rparr>;
             r2 = r1\<lparr>router_requests := RequestTracker_purge_peer peer_id (router_requests r1)\<rparr>
         in case SyncTracker_purge_peer dbg peer_id (router_sync r2) of
              Inl e \<Rightarrow> Inl e
            | Inr sync \<Rightarrow>
                (let r3 = r2\<lparr>router_sync := sync\<rparr>;
                     r4 = r3\<lparr>router_latency := LatencyTracker_purge_peer peer_id (router_latency r3)\<rparr>;
                     r5 = r4\<lparr>router_peers := hm_remove peer_id (router_peers r4)\<rparr>
                 in Inr (r5, []))))"

fun Router_handle_event :: "bool \<Rightarrow> (nat \<Rightarrow> nat) \<Rightarrow> ProtocolEvent \<Rightarrow> Router \<Rightarrow>
    panic + Router \<times> Action list" where
  "Router_handle_event dbg now (PeerConnected _ _ _) r = Inr (r, [])"
| "Router_handle_event dbg now (PeerDisconnected peer_id _) r = Router_disconnect dbg peer_id r"
| "Router_handle_event dbg now (Message peer_id msg) r = Router_route_message dbg now peer_id msg r"

definition Router_outbound_peers :: "Router \<Rightarrow> PeerId list" where
  "Router_outbound_peers r =
    map fst (filter (\<lambda>(_, e). entry_direction e = Outbound) (router_peers r))"

definition Router_inbound_peers :: "Router \<Rightarrow> PeerId list" where
  "Router_inbound_peers r =
    map fst (filter (\<lambda>(_, e). entry_direction e = Inbound) (router_peers r))"

definition Router_peer_count :: "Router \<Rightarrow> nat" where
  "Router_peer_count r = length (router_peers r)"

definition Router_latency_stats :: "Router \<Rightarrow> LatencyStats option" where
  "Router_latency_stats r = LatencyTracker_stats (router_latency r)"

subsection \<open>Transitions and the invariant\<close>

abbreviation registered :: "Router \<Rightarrow> PeerId set" where
  "registered r \<equiv> hm_dom (router_peers r)"

inductive router_step :: "bool \<Rightarrow> Router \<Rightarrow> Router \<Rightarrow> bool" for dbg :: bool where
  register: "router_step dbg r (Router_register_peer peer_id direction mode r)"
| event: "Router_handle_event dbg now ev r = Inr (r', actions) \<Longrightarrow> router_step dbg r r'"
| rehash: "distinct (map fst entries) \<Longrightarrow> set entries = set (router_peers r) \<Longrightarrow>
    router_step dbg r (r\<lparr>router_peers := entries\<rparr>)"

inductive router_reachable :: "bool \<Rightarrow> Router \<Rightarrow> bool" for dbg :: bool where
  new: "router_reachable dbg Router_new"
| step: "router_reachable dbg r \<Longrightarrow> router_step dbg r r' \<Longrightarrow> router_reachable dbg r'"

inductive_cases router_stepE: "router_step dbg r r'"

definition router_wf :: "Router \<Rightarrow> bool" where
  "router_wf r \<longleftrightarrow> hm_wf (router_peers r) \<and> InvTable_wf (router_inv_table r) \<and>
    RequestTracker_wf (router_requests r) \<and> SyncTracker_wf (router_sync r) \<and>
    LatencyTracker_wf (router_latency r)"

definition sync_registered :: "PeerId set \<Rightarrow> SyncTracker \<Rightarrow> bool" where
  "sync_registered ps t \<longleftrightarrow>
    (\<forall>i u. SyncTracker_outbound_for i t = Some u \<longrightarrow> i \<in> ps \<and> u \<in> ps) \<and>
    (\<forall>u i. SyncTracker_inbound_for u t = Some i \<longrightarrow> u \<in> ps)"

text \<open>No table refers to an unregistered peer.  For the sync tracker this leaves out the inbound
  side of an outbound peer's entry, which can be stale in a release build.\<close>

definition router_ok :: "Router \<Rightarrow> bool" where
  "router_ok r \<longleftrightarrow> router_wf r \<and>
    refs InvTable_lookup (router_inv_table r) \<subseteq> registered r \<and>
    refs RequestTracker_lookup (router_requests r) \<subseteq> registered r \<and>
    latency_refs (router_latency r) \<subseteq> registered r \<and>
    sync_forward (router_sync r) \<and> sync_registered (registered r) (router_sync r)"

lemma sync_registered_mono: "sync_registered ps t \<Longrightarrow> ps \<subseteq> qs \<Longrightarrow> sync_registered qs t"
  by (auto simp: sync_registered_def)

lemma router_ok_new: "router_ok Router_new"
  by (simp add: router_ok_def router_wf_def Router_new_def hm.wf_new inv_table.wf_new
      requests.wf_new latency.wf_new SyncTracker_new_ok inv_table.refs_new requests.refs_new
      sync_consistent_forward sync_registered_def)

lemma router_ok_register:
  assumes "router_ok r"
  shows "router_ok (Router_register_peer p d mo r)"
  using assms sync_registered_mono [of "registered r" _ "insert p (registered r)"]
  by (auto simp: router_ok_def router_wf_def Router_register_peer_def hm.wf_insert)

lemma router_ok_rehash:
  assumes "router_ok r" "distinct (map fst entries)" "set entries = set (router_peers r)"
  shows "router_ok (r\<lparr>router_peers := entries\<rparr>)"
  using assms hm_dom_perm [OF assms(3)] by (simp add: router_ok_def router_wf_def hm_wf_def)

lemma router_ok_inv:
  assumes "router_ok r" "source \<in> registered r"
  shows "router_ok (fst (route_inv source d mt ids r))"
  using assms inv_table.refs_enter_all [of "router_inv_table r" source ids]
  by (auto simp: router_ok_def router_wf_def route_inv_def Let_def inv_table.wf_enter_all)

text \<open>One iteration of each loop: the router after it, and the actions it adds.\<close>

definition request_iteration :: "nat \<Rightarrow> PeerId \<Rightarrow> ModifierId \<Rightarrow> Router \<Rightarrow> Router" where
  "request_iteration t source i r =
    (case InvTable_lookup i (router_inv_table r) of
      Some tgt \<Rightarrow> if tgt \<noteq> source
        then r\<lparr>router_requests := RequestTracker_record i source (router_requests r),
          router_latency := LatencyTracker_record_request t i tgt (router_latency r)\<rparr>
        else r
    | None \<Rightarrow> r)"

definition request_action :: "InvTable \<Rightarrow> PeerId \<Rightarrow> u8 \<Rightarrow> ModifierId \<Rightarrow> Action option" where
  "request_action table source mt i =
    (case InvTable_lookup i table of
      Some tgt \<Rightarrow> if tgt \<noteq> source then Some (Send tgt (ModifierRequest mt [i])) else None
    | None \<Rightarrow> None)"

definition response_iteration :: "nat \<Rightarrow> ModifierId \<Rightarrow> Router \<Rightarrow> Router" where
  "response_iteration t i r =
    r\<lparr>router_latency := LatencyTracker_drop t i (router_latency r),
      router_requests := RequestTracker_drop i (router_requests r)\<rparr>"

lemma request_iteration_keeps [simp]:
  "router_peers (request_iteration t source i r) = router_peers r"
  "router_inv_table (request_iteration t source i r) = router_inv_table r"
  "router_sync (request_iteration t source i r) = router_sync r"
  by (simp_all add: request_iteration_def split: option.splits)

lemma response_iteration_keeps [simp]:
  "router_peers (response_iteration t i r) = router_peers r"
  "router_inv_table (response_iteration t i r) = router_inv_table r"
  "router_sync (response_iteration t i r) = router_sync r"
  by (simp_all add: response_iteration_def)

lemma route_request_Cons:
  "route_request_loop now source mt (i # ids) r =
    (let (r', actions) = route_request_loop (\<lambda>n. now (Suc n)) source mt ids
           (request_iteration (now 0) source i r)
     in (r', (case request_action (router_inv_table r) source mt i of Some a \<Rightarrow> [a] | None \<Rightarrow> []) @
       actions))"
  by (auto simp: request_iteration_def request_action_def Let_def split: option.splits prod.splits)

lemma route_response_Cons:
  "route_response_loop now mt ((i, data) # ms) r =
    (let (r', actions) = route_response_loop (\<lambda>n. now (Suc n)) mt ms (response_iteration (now 0) i r)
     in (r', (case RequestTracker_lookup i (router_requests r) of
          Some q \<Rightarrow> [Send q (ModifierResponse mt [(i, data)])] | None \<Rightarrow> []) @ actions))"
  by (simp add: response_iteration_def Let_def case_prod_unfold)

declare route_request_loop.simps(2) [simp del]
declare route_response_loop.simps(2) [simp del]

lemma route_request_keeps:
  "router_peers (fst (route_request_loop now source mt ids r)) = router_peers r"
  "router_inv_table (fst (route_request_loop now source mt ids r)) = router_inv_table r"
  "router_sync (fst (route_request_loop now source mt ids r)) = router_sync r"
  by (induction ids arbitrary: now r) (simp_all add: route_request_Cons case_prod_unfold Let_def)

lemma route_response_keeps:
  "router_peers (fst (route_response_loop now mt ms r)) = router_peers r"
  "router_inv_table (fst (route_response_loop now mt ms r)) = router_inv_table r"
  "router_sync (fst (route_response_loop now mt ms r)) = router_sync r"
  by (induction ms arbitrary: now r) (auto simp: route_response_Cons case_prod_unfold Let_def)

lemma router_ok_request_iteration:
  assumes "router_ok r" "source \<in> registered r"
  shows "router_ok (request_iteration t source i r)"
proof (cases "InvTable_lookup i (router_inv_table r)")
  case None
  with assms show ?thesis by (simp add: request_iteration_def)
next
  case (Some tgt)
  then have "tgt \<in> refs InvTable_lookup (router_inv_table r)" by (auto simp: refs_def)
  then show ?thesis
    using Some assms requests.refs_enter [of "router_requests r" i source]
      latency_refs_request [of "router_latency r" t i tgt]
    by (auto simp: request_iteration_def router_ok_def router_wf_def requests.wf_enter
        latency.wf_enter)
qed

lemma router_ok_request:
  "router_ok r \<Longrightarrow> source \<in> registered r \<Longrightarrow> router_ok (fst (route_request_loop now source mt ids r))"
  by (induction ids arbitrary: now r)
    (simp_all add: route_request_Cons case_prod_unfold Let_def router_ok_request_iteration)

lemma router_ok_response_iteration: "router_ok r \<Longrightarrow> router_ok (response_iteration t i r)"
  using requests.refs_forget [of "router_requests r" i] latency_refs_response [of "router_latency r" t i]
  by (auto simp: response_iteration_def router_ok_def router_wf_def requests.wf_forget
      latency.wf_forget)

lemma router_ok_response: "router_ok r \<Longrightarrow> router_ok (fst (route_response_loop now mt ms r))"
  by (induction ms arbitrary: now r)
    (auto simp: route_response_Cons case_prod_unfold Let_def router_ok_response_iteration)

lemma find_Some: "List.find P xs = Some x \<Longrightarrow> x \<in> set xs \<and> P x"
  by (auto simp: find_Some_iff)

lemma hm_dom_member: "(k, v) \<in> set m \<Longrightarrow> k \<in> hm_dom m"
  by (force simp: hm_dom_def)

lemma router_ok_pair:
  assumes "router_ok r" "source \<in> registered r" "u \<in> registered r"
    and "SyncTracker_inbound_for u (router_sync r) = None"
    and "SyncTracker_pair dbg source u (router_sync r) = Inr sync"
  shows "router_ok (r\<lparr>router_sync := sync\<rparr>)" and "dbg \<Longrightarrow> sync_consistent sync"
proof -
  have wf: "SyncTracker_wf (router_sync r)" using assms(1) by (simp add: router_ok_def router_wf_def)
  have sync: "sync = SyncTracker_insert_pair source u (router_sync r)"
    using assms(5) by (simp add: pair_eq [OF wf] split: if_splits)
  show "router_ok (r\<lparr>router_sync := sync\<rparr>)"
    using assms(1-4)
    by (auto simp: router_ok_def router_wf_def sync insert_pair_wf insert_pair_forward
        sync_registered_def sync_lookups split: if_splits)
  show "dbg \<Longrightarrow> sync_consistent sync"
    using assms(5) sync by (simp add: pair_eq [OF wf] split: if_splits)
qed

lemma router_ok_sync:
  assumes "router_ok r" "source \<in> registered r"
    and "route_sync_info dbg source entry body r = Inr (r', actions)"
  shows "router_ok r'" and "dbg \<Longrightarrow> sync_consistent (router_sync r) \<Longrightarrow> sync_consistent (router_sync r')"
    and "router_peers r' = router_peers r"
  using assms router_ok_pair [OF assms(1,2)]
  by (auto simp: route_sync_info_def dest!: find_Some dest: hm_dom_member
      split: if_splits Direction.splits option.splits prod.splits sum.splits)

lemma router_ok_disconnect:
  assumes "router_ok r" "Router_disconnect dbg p r = Inr (r', actions)"
  shows "router_ok r'" and "dbg \<Longrightarrow> sync_consistent (router_sync r')"
    and "router_peers r' = hm_remove p (router_peers r)" and "actions = []"
proof -
  have wf: "router_wf r" and swf: "SyncTracker_wf (router_sync r)"
    and fwd: "sync_forward (router_sync r)"
    using assms(1) by (simp_all add: router_ok_def router_wf_def)
  have r': "r' = r\<lparr>router_inv_table := InvTable_retain p (router_inv_table r),
      router_requests := RequestTracker_purge_peer p (router_requests r),
      router_sync := SyncTracker_remove_peer p (router_sync r),
      router_latency := LatencyTracker_purge_peer p (router_latency r),
      router_peers := hm_remove p (router_peers r)\<rparr>"
    and con: "dbg \<Longrightarrow> sync_consistent (SyncTracker_remove_peer p (router_sync r))"
    and "actions = []"
    using assms(2)
    by (auto simp: Router_disconnect_def InvTable_purge_peer_eq purge_eq [OF swf] Let_def
        split: if_splits)
  have "sync_registered (registered r - {p}) (SyncTracker_remove_peer p (router_sync r))"
    using assms(1) fwd
    by (auto simp: router_ok_def sync_registered_def sync_lookups sync_forward_def split: if_splits)
  then show "router_ok r'"
    using assms(1) wf fwd remove_peer_forward [OF fwd] inv_table.refs_purge [of "router_inv_table r" p]
      requests.refs_purge [of "router_requests r" p] latency_refs_purge [of "router_latency r" p]
    by (auto simp: router_ok_def router_wf_def r' hm.wf_remove inv_table.wf_purge requests.wf_purge
        latency.wf_purge remove_peer_wf)
  show "dbg \<Longrightarrow> sync_consistent (router_sync r')" using con by (simp add: r')
  show "router_peers r' = hm_remove p (router_peers r)" by (simp add: r')
  show "actions = []" by fact
qed

end
