(* ===== verification/Router_Safety.thy ===== *)
theory Router_Safety
  imports Router
begin

text \<open>
  Safety of the router: the tables never refer to unregistered peers, actions go to registered
  peers, and the one way in which a release build leaves this contract, the sync tracker.
\<close>

subsection \<open>The invariant\<close>

lemma get_registered: "hm_get p (router_peers r) = Some e \<Longrightarrow> p \<in> registered r"
  by (simp add: hm_dom_get)

lemma route_inv_keeps:
  "router_peers (fst (route_inv source d mt ids r)) = router_peers r"
  "router_sync (fst (route_inv source d mt ids r)) = router_sync r"
  by (simp_all add: route_inv_def Let_def)

lemma router_ok_message:
  assumes ok: "router_ok r" and route: "Router_route_message dbg now source msg r = Inr (r', actions)"
  shows "router_ok r'" and "dbg \<Longrightarrow> sync_consistent (router_sync r) \<Longrightarrow> sync_consistent (router_sync r')"
    and "router_peers r' = router_peers r"
proof -
  have "router_ok r' \<and> (dbg \<longrightarrow> sync_consistent (router_sync r) \<longrightarrow> sync_consistent (router_sync r')) \<and>
    router_peers r' = router_peers r"
  proof (cases "hm_get source (router_peers r)")
    case None
    with ok route show ?thesis by (auto simp: Router_route_message_def)
  next
    case (Some entry)
    have reg: "source \<in> registered r" using Some by (rule get_registered)
    show ?thesis
    proof (cases msg)
      case (Inv mt ids)
      with Some route have "r' = fst (route_inv source (entry_direction entry) mt ids r)"
        by (simp add: Router_route_message_def)
      with ok reg show ?thesis by (simp add: router_ok_inv route_inv_keeps)
    next
      case (ModifierRequest mt ids)
      with Some route have "r' = fst (route_request_loop now source mt ids r)"
        by (simp add: Router_route_message_def)
      with ok reg show ?thesis by (simp add: router_ok_request route_request_keeps)
    next
      case (ModifierResponse mt ms)
      with Some route have "r' = fst (route_response_loop now mt ms r)"
        by (simp add: Router_route_message_def)
      with ok show ?thesis by (simp add: router_ok_response route_response_keeps)
    next
      case (SyncInfo body)
      with Some route have "route_sync_info dbg source entry body r = Inr (r', actions)"
        by (simp add: Router_route_message_def)
      from router_ok_sync [OF ok reg this] show ?thesis by blast
    qed (use ok Some route in \<open>auto simp: Router_route_message_def\<close>)
  qed
  then show "router_ok r'" "router_peers r' = router_peers r"
    "dbg \<Longrightarrow> sync_consistent (router_sync r) \<Longrightarrow> sync_consistent (router_sync r')" by auto
qed

lemma router_ok_event:
  assumes "router_ok r" "Router_handle_event dbg now ev r = Inr (r', actions)"
  shows "router_ok r'" and "dbg \<Longrightarrow> sync_consistent (router_sync r) \<Longrightarrow> sync_consistent (router_sync r')"
  using assms router_ok_message [OF assms(1)] router_ok_disconnect [OF assms(1)]
  by (cases ev; fastforce)+

lemma reachable_ok:
  assumes "router_reachable dbg r"
  shows "router_ok r \<and> (dbg \<longrightarrow> sync_consistent (router_sync r))"
  using assms
proof (induction rule: router_reachable.induct)
  case new
  show ?case using router_ok_new SyncTracker_new_ok by (simp add: Router_new_def)
next
  case (step r r')
  from step(2) show ?case
  proof (cases rule: router_step.cases)
    case (register p d mo)
    with step.IH show ?thesis
      using router_ok_register by (auto simp: Router_register_peer_def)
  next
    case (event now ev acts)
    with step.IH show ?thesis using router_ok_event by blast
  next
    case (rehash entries)
    with step.IH show ?thesis using router_ok_rehash by simp
  qed
qed

subsection \<open>The targets of actions\<close>

lemma forward_targets:
  assumes "Send t m \<in> set (forward_to d source msg r)"
  shows "t \<in> registered r" and "m = msg" and "t \<noteq> source"
  using assms by (auto simp: forward_to_def hm_dom_member)

lemma request_actions:
  "snd (route_request_loop now source mt ids r) =
    List.map_filter (request_action (router_inv_table r) source mt) ids"
  by (induction ids arbitrary: now r)
    (simp_all add: route_request_Cons case_prod_unfold Let_def List.map_filter_simps
      split: option.splits)

lemma request_targets:
  "Send t m \<in> set (snd (route_request_loop now source mt ids r)) \<Longrightarrow>
    \<exists>i\<in>set ids. InvTable_lookup i (router_inv_table r) = Some t \<and> t \<noteq> source \<and>
      m = ModifierRequest mt [i]"
  by (auto simp: request_actions List.map_filter_def request_action_def
      split: option.splits if_splits)

lemma response_iteration_lookup:
  "RequestTracker_wf (router_requests r) \<Longrightarrow>
    RequestTracker_lookup k (router_requests (response_iteration t i r)) =
    (if k = i then None else RequestTracker_lookup k (router_requests r))"
  by (simp add: response_iteration_def requests.look_forget)

lemma response_iteration_wf:
  "RequestTracker_wf (router_requests r) \<Longrightarrow>
    RequestTracker_wf (router_requests (response_iteration t i r))"
  by (simp add: response_iteration_def requests.wf_forget)

lemma response_targets:
  "RequestTracker_wf (router_requests r) \<Longrightarrow>
    Send t m \<in> set (snd (route_response_loop now mt ms r)) \<Longrightarrow>
    \<exists>(i, data)\<in>set ms. RequestTracker_lookup i (router_requests r) = Some t \<and>
      m = ModifierResponse mt [(i, data)]"
proof (induction ms arbitrary: now r)
  case (Cons p ms)
  obtain i data where p: "p = (i, data)" by force
  consider "RequestTracker_lookup i (router_requests r) = Some t" "m = ModifierResponse mt [(i, data)]"
    | "Send t m \<in> set (snd (route_response_loop (\<lambda>n. now (Suc n)) mt ms
        (response_iteration (now 0) i r)))"
    using Cons.prems(2)
    by (auto simp: p route_response_Cons case_prod_unfold Let_def split: option.splits)
  then show ?case
  proof cases
    case 2
    from Cons.IH [OF response_iteration_wf [OF Cons.prems(1)] this] Cons.prems(1)
    show ?thesis by (auto simp: p response_iteration_lookup split: if_splits)
  qed (auto simp: p)
qed simp

lemma sync_targets:
  assumes "route_sync_info dbg source entry body r = Inr (r', actions)" "Send t m \<in> set actions"
  shows "m = SyncInfo body \<and> (t \<in> registered r \<or>
    entry_direction entry = Outbound \<and> SyncTracker_inbound_for source (router_sync r) = Some t)"
  using assms
  by (auto simp: route_sync_info_def dest!: find_Some dest: hm_dom_member
      split: if_splits Direction.splits option.splits prod.splits sum.splits)

text \<open>The only action that may go to an unregistered peer: a \<open>SyncInfo\<close> of an outbound peer whose
  entry in the sync tracker names an inbound peer that is not paired with it any more.\<close>

definition stale_sync :: "ProtocolEvent \<Rightarrow> PeerId \<Rightarrow> Router \<Rightarrow> bool" where
  "stale_sync ev t r \<longleftrightarrow> (\<exists>source body. ev = Message source (SyncInfo body) \<and>
    map_option entry_direction (hm_get source (router_peers r)) = Some Outbound \<and>
    SyncTracker_inbound_for source (router_sync r) = Some t \<and>
    SyncTracker_outbound_for t (router_sync r) \<noteq> Some source)"

lemma message_targets:
  assumes ok: "router_ok r" and route: "Router_route_message dbg now source msg r = Inr (r', actions)"
    and act: "Send t m \<in> set actions"
  shows "t \<in> registered r \<or> stale_sync (Message source msg) t r"
proof (cases "hm_get source (router_peers r)")
  case None
  with route act show ?thesis by (auto simp: Router_route_message_def)
next
  case (Some entry)
  note reg = get_registered [OF Some]
  have known: "t \<in> registered r" if "t \<in> refs InvTable_lookup (router_inv_table r) \<or>
      t \<in> refs RequestTracker_lookup (router_requests r)"
    using that ok by (auto simp: router_ok_def)
  show ?thesis
  proof (cases msg)
    case (ModifierRequest mt ids)
    with Some route act have "Send t m \<in> set (snd (route_request_loop now source mt ids r))"
      by (simp add: Router_route_message_def)
    from request_targets [OF this] known show ?thesis by (auto simp: refs_def)
  next
    case (ModifierResponse mt ms)
    with Some route act have "Send t m \<in> set (snd (route_response_loop now mt ms r))"
      by (simp add: Router_route_message_def)
    from response_targets [OF _ this] ok known show ?thesis
      by (auto simp: refs_def router_ok_def router_wf_def)
  next
    case (SyncInfo body)
    with Some route have sync: "route_sync_info dbg source entry body r = Inr (r', actions)"
      by (simp add: Router_route_message_def)
    have "t \<in> registered r" if "SyncTracker_outbound_for t (router_sync r) = Some source"
      using ok that by (auto simp: router_ok_def sync_registered_def)
    with sync_targets [OF sync act] Some SyncInfo show ?thesis by (auto simp: stale_sync_def)
  qed (use Some route act reg forward_targets in
      \<open>fastforce simp: Router_route_message_def route_inv_def Let_def\<close>)+
qed

lemma event_targets:
  assumes "router_ok r" "Router_handle_event dbg now ev r = Inr (r', actions)" "Send t m \<in> set actions"
  shows "t \<in> registered r \<or> stale_sync ev t r"
  using assms message_targets router_ok_disconnect(4) by (cases ev) fastforce+

lemma event_no_panic:
  assumes "router_ok r"
  shows "\<exists>r' actions. Router_handle_event False now ev r = Inr (r', actions)"
proof -
  have wf: "SyncTracker_wf (router_sync r)"
    using assms by (simp add: router_ok_def router_wf_def)
  then show ?thesis
    by (cases ev)
      (auto simp: Router_disconnect_def InvTable_purge_peer_eq purge_eq Let_def
        Router_route_message_def route_sync_info_def pair_eq split: option.splits
        ProtocolMessage.splits Direction.splits)
qed

lemma find_outbound:
  "List.find (\<lambda>(pid, e). entry_direction e = Outbound \<and> F pid) entries =
    List.find (\<lambda>(pid, _). F pid) (filter (\<lambda>(_, e). entry_direction e = Outbound) entries)"
  by (induction entries) auto

subsection \<open>Runs of the router\<close>

datatype router_call =
    Register PeerId Direction ProxyMode
  | Handle ProtocolEvent

text \<open>A sequence of calls; the result has the actions of every call.\<close>

fun router_run :: "bool \<Rightarrow> (nat \<Rightarrow> nat) \<Rightarrow> router_call list \<Rightarrow> Router \<Rightarrow> panic + Router \<times> Action list list" where
  "router_run dbg now [] r = Inr (r, [])"
| "router_run dbg now (Register p d mo # calls) r =
    (case router_run dbg now calls (Router_register_peer p d mo r) of
      Inl e \<Rightarrow> Inl e | Inr (r', acts) \<Rightarrow> Inr (r', [] # acts))"
| "router_run dbg now (Handle ev # calls) r =
    (case Router_handle_event dbg now ev r of
      Inl e \<Rightarrow> Inl e
    | Inr (r1, actions) \<Rightarrow>
        (case router_run dbg now calls r1 of Inl e \<Rightarrow> Inl e | Inr (r', acts) \<Rightarrow> Inr (r', actions # acts)))"

lemma router_run_reachable:
  "router_run dbg now calls r = Inr (r', acts) \<Longrightarrow> router_reachable dbg r \<Longrightarrow> router_reachable dbg r'"
proof (induction dbg now calls r arbitrary: acts rule: router_run.induct)
  case (2 dbg now p d mo calls r)
  then show ?case
    using router_reachable.step [OF 2(3) router_step.register] by (auto split: sum.splits)
next
  case (3 dbg now ev calls r)
  then show ?case
    using router_reachable.step [OF 3(3) router_step.event] by (fastforce split: sum.splits)
qed simp

lemmas eval_router = Router_route_message_def route_sync_info_def Router_disconnect_def
  Router_register_peer_def Router_new_def InvTable_purge_peer_eq SyncTracker_pair_def
  SyncTracker_insert_pair_def SyncTracker_purge_peer_def SyncTracker_remove_peer_def
  SyncTracker_check_invariant_def SyncTracker_new_def sync_lookup_defs
  hm_get_def hm_insert_def hm_remove_def Let_def

text \<open>A run used to exhibit the properties: an outbound peer announces a modifier.\<close>

definition demo_id :: ModifierId where
  "demo_id = replicate 32 9"

definition demo_announce :: "router_call list" where
  "demo_announce =
    [Register (PeerId 1) Inbound Full, Register (PeerId 2) Outbound Full,
     Handle (Message (PeerId 2) (Inv 1 [demo_id]))]"

lemma demo_announce_run:
  "\<exists>r acts. router_run dbg now demo_announce Router_new = Inr (r, acts) \<and>
    InvTable_lookup demo_id (router_inv_table r) = Some (PeerId 2) \<and>
    hm_get (PeerId 1) (router_peers r) \<noteq> None \<and>
    last acts = [Send (PeerId 1) (Inv 1 [demo_id])]"
  by (simp add: demo_announce_def eval_router route_inv_def forward_to_def InvTable_lookup_def
      InvTable_record_def InvTable_new_def)

subsection \<open>Properties\<close>

text \<open>(C1) The routing tables are consistent with the peer registry.  In every reachable state, in a
  debug or a release build and for any iteration order of the registry: the inventory table, the
  request tracker and the latency tracker refer to registered peers only, and every pairing of an
  inbound peer is between registered peers and known to both sides; in a debug build the sync
  tracker is bidirectionally consistent.\<close>

theorem reachable_tables_registered:
  assumes "router_reachable dbg r"
  shows "(\<forall>i p. InvTable_lookup i (router_inv_table r) = Some p \<longrightarrow> p \<in> registered r) \<and>
    (\<forall>i p. RequestTracker_lookup i (router_requests r) = Some p \<longrightarrow> p \<in> registered r) \<and>
    (\<forall>i p. LatencyTracker_target i (router_latency r) = Some p \<longrightarrow> p \<in> registered r) \<and>
    (\<forall>p l. LatencyTracker_peer_latency p (router_latency r) = Some l \<longrightarrow> p \<in> registered r) \<and>
    (\<forall>i u. SyncTracker_outbound_for i (router_sync r) = Some u \<longrightarrow>
      i \<in> registered r \<and> u \<in> registered r \<and> SyncTracker_inbound_for u (router_sync r) = Some i) \<and>
    (dbg \<longrightarrow> sync_consistent (router_sync r))"
  using reachable_ok [OF assms]
  by (auto simp: router_ok_def sync_registered_def sync_forward_def
      dest!: look_refs [of InvTable_lookup] look_refs [of RequestTracker_lookup] peer_latency_refs
        target_refs)

theorem reachable_tables_registered_witness:
  "\<exists>r acts. router_run True (\<lambda>_. 0) demo_announce Router_new = Inr (r, acts) \<and>
    InvTable_lookup demo_id (router_inv_table r) = Some (PeerId 2) \<and> PeerId 2 \<in> registered r"
proof -
  obtain r acts where run: "router_run True (\<lambda>_. 0) demo_announce Router_new = Inr (r, acts)"
    and look: "InvTable_lookup demo_id (router_inv_table r) = Some (PeerId 2)"
    using demo_announce_run by blast
  then show ?thesis
    using reachable_tables_registered [OF router_run_reachable [OF run router_reachable.new]] by blast
qed

text \<open>(C8) Actions go to registered peers.  Whatever event a reachable router handles, every target
  is registered, except for a \<open>SyncInfo\<close> from an outbound peer whose sync entry is stale; in a
  debug build there is no exception.\<close>

theorem actions_target_registered:
  assumes "router_reachable dbg r" "Router_handle_event dbg now ev r = Inr (r', actions)"
    "a \<in> set actions"
  shows "target a \<in> registered r \<or> \<not> dbg \<and> stale_sync ev (target a) r"
proof -
  have "target a \<in> registered r \<or> stale_sync ev (target a) r"
    using event_targets [of r dbg now ev r' actions "target a" "sent_message a"]
      reachable_ok [OF assms(1)] assms(2,3) by simp
  moreover have "dbg \<Longrightarrow> \<not> stale_sync ev (target a) r"
    using reachable_ok [OF assms(1)] by (auto simp: stale_sync_def sync_consistent_def)
  ultimately show ?thesis by blast
qed

theorem actions_target_registered_witness:
  "\<exists>r r' actions. router_reachable True r \<and>
    Router_handle_event True (\<lambda>_. 0) (Message (PeerId 1) (ModifierRequest 1 [demo_id])) r =
      Inr (r', actions) \<and>
    Send (PeerId 2) (ModifierRequest 1 [demo_id]) \<in> set actions \<and> PeerId 2 \<in> registered r"
proof -
  obtain r acts where run: "router_run True (\<lambda>_. 0) demo_announce Router_new = Inr (r, acts)"
    and look: "InvTable_lookup demo_id (router_inv_table r) = Some (PeerId 2)"
    and one: "hm_get (PeerId 1) (router_peers r) \<noteq> None"
    using demo_announce_run by blast
  obtain r' where "Router_handle_event True (\<lambda>_. 0) (Message (PeerId 1) (ModifierRequest 1 [demo_id])) r =
      Inr (r', [Send (PeerId 2) (ModifierRequest 1 [demo_id])])"
    using look one by (auto simp: Router_route_message_def route_request_Cons request_action_def)
  then show ?thesis
    using actions_target_registered [OF router_run_reachable [OF run router_reachable.new], of "\<lambda>_. 0"]
      router_run_reachable [OF run router_reachable.new] by fastforce
qed



text \<open>(C30) The exception is real: in a release build an inbound peer that sends \<open>SyncInfo\<close> twice while
  two outbound peers are free is paired with both; when it disconnects, one of the entries stays,
  and the next \<open>SyncInfo\<close> of that outbound peer is sent to the disconnected peer.\<close>

theorem repaired_sync_targets_disconnected:
  assumes "p \<noteq> q" "p \<noteq> u" "q \<noteq> u"
  shows "\<exists>r acts. router_run False now
      [Register p Inbound Full, Register q Outbound Full, Register u Outbound Full,
       Handle (Message p (SyncInfo b1)), Handle (Message p (SyncInfo b2)),
       Handle (PeerDisconnected p reason), Handle (Message q (SyncInfo b3))] Router_new = Inr (r, acts) \<and>
    router_reachable False r \<and> p \<notin> registered r \<and> last acts = [Send p (SyncInfo b3)]"
proof -
  obtain r acts where run: "router_run False now
      [Register p Inbound Full, Register q Outbound Full, Register u Outbound Full,
       Handle (Message p (SyncInfo b1)), Handle (Message p (SyncInfo b2)),
       Handle (PeerDisconnected p reason), Handle (Message q (SyncInfo b3))] Router_new = Inr (r, acts)"
    and "p \<notin> registered r" "last acts = [Send p (SyncInfo b3)]"
    using assms by (auto simp: eval_router hm_dom_def)
  with router_run_reachable [OF run router_reachable.new] show ?thesis by blast
qed

theorem repaired_sync_targets_disconnected_witness:
  "\<exists>r acts. router_run False (\<lambda>_. 0)
      [Register (PeerId 1) Inbound Full, Register (PeerId 2) Outbound Full,
       Register (PeerId 3) Outbound Full,
       Handle (Message (PeerId 1) (SyncInfo [1])), Handle (Message (PeerId 1) (SyncInfo [2])),
       Handle (PeerDisconnected (PeerId 1) []), Handle (Message (PeerId 2) (SyncInfo [3]))] Router_new =
      Inr (r, acts) \<and>
    router_reachable False r \<and> PeerId 1 \<notin> registered r \<and>
    last acts = [Send (PeerId 1) (SyncInfo [3])]"
  by (rule repaired_sync_targets_disconnected) simp_all

text \<open>In a debug build the same message sequence brings the node down: when an inbound peer in
  full mode that is already paired sends \<open>SyncInfo\<close> while some outbound peer is free, the assertion
  in \<open>pair\<close> fails.\<close>

theorem debug_second_sync_panics:
  assumes "router_reachable True r"
    and "hm_get source (router_peers r) = Some \<lparr>entry_direction = Inbound, entry_mode = Full\<rparr>"
    and "SyncTracker_outbound_for source (router_sync r) \<noteq> None"
    and free: "hm_get w (router_peers r) = Some \<lparr>entry_direction = Outbound, entry_mode = mo\<rparr>"
      "SyncTracker_inbound_for w (router_sync r) = None"
  shows "Router_handle_event True now (Message source (SyncInfo body)) r = Inl DebugAssert"
proof -
  let ?P = "\<lambda>(pid, e). entry_direction e = Outbound \<and> SyncTracker_inbound_for pid (router_sync r) = None"
  have ok: "router_ok r" and con: "sync_consistent (router_sync r)"
    using reachable_ok [OF assms(1)] by auto
  then have wf: "hm_wf (router_peers r)" "SyncTracker_wf (router_sync r)"
    by (simp_all add: router_ok_def router_wf_def)
  have "(w, \<lparr>entry_direction = Outbound, entry_mode = mo\<rparr>) \<in> set (router_peers r)"
    using free(1) wf(1) by (simp add: hm_entries)
  moreover have "?P (w, \<lparr>entry_direction = Outbound, entry_mode = mo\<rparr>)" using free(2) by simp
  ultimately have "List.find ?P (router_peers r) \<noteq> None" by (metis (no_types, lifting) find_None_iff)
  then obtain v e where find: "List.find ?P (router_peers r) = Some (v, e)" by auto
  then have "SyncTracker_inbound_for v (router_sync r) = None"
    by (auto dest: find_Some)
  then have "\<not> sync_consistent (SyncTracker_insert_pair source v (router_sync r))"
    using assms(3) con insert_pair_consistent [OF con, of source v] by (auto simp: sync_consistent_def)
  then show ?thesis
    using assms(2) find by (simp add: Router_route_message_def route_sync_info_def pair_eq [OF wf(2)])
qed

theorem debug_second_sync_panics_witness:
  "\<exists>r acts. router_run True (\<lambda>_. 0)
      [Register (PeerId 1) Inbound Full, Register (PeerId 2) Outbound Full,
       Register (PeerId 3) Outbound Full, Handle (Message (PeerId 1) (SyncInfo [1]))] Router_new =
      Inr (r, acts) \<and>
    Router_handle_event True (\<lambda>_. 0) (Message (PeerId 1) (SyncInfo [2])) r = Inl DebugAssert"
proof -
  obtain r acts where run: "router_run True (\<lambda>_. 0)
      [Register (PeerId 1) Inbound Full, Register (PeerId 2) Outbound Full,
       Register (PeerId 3) Outbound Full, Handle (Message (PeerId 1) (SyncInfo [1]))] Router_new =
      Inr (r, acts)"
    and state: "hm_get (PeerId 1) (router_peers r) =
        Some \<lparr>entry_direction = Inbound, entry_mode = Full\<rparr>"
      "SyncTracker_outbound_for (PeerId 1) (router_sync r) \<noteq> None"
      "hm_get (PeerId 3) (router_peers r) = Some \<lparr>entry_direction = Outbound, entry_mode = Full\<rparr>"
      "SyncTracker_inbound_for (PeerId 3) (router_sync r) = None"
    by (simp add: eval_router)
  show ?thesis
    using run debug_second_sync_panics
      [OF router_run_reachable [OF run router_reachable.new] state, of "\<lambda>_. 0" "[2]"] by blast
qed

text \<open>A paired inbound peer cannot go on syncing when no outbound peer is free.  If \<open>u\<close> is the
  only outbound peer and it is free, the first \<open>SyncInfo\<close> of an inbound peer in full mode is
  forwarded to \<open>u\<close> and pairs the two; the next one is dropped, although the pairing names \<open>u\<close>.\<close>

theorem second_sync_dropped:
  assumes "router_ok r"
    and "hm_get source (router_peers r) = Some \<lparr>entry_direction = Inbound, entry_mode = Full\<rparr>"
    and "Router_outbound_peers r = [u]" "SyncTracker_inbound_for u (router_sync r) = None"
  shows "\<exists>r1. Router_handle_event False now (Message source (SyncInfo b1)) r =
      Inr (r1, [Send u (SyncInfo b1)]) \<and>
    SyncTracker_outbound_for source (router_sync r1) = Some u \<and>
    Router_handle_event False now' (Message source (SyncInfo b2)) r1 = Inr (r1, [])"
proof -
  let ?P = "\<lambda>s (pid, e). entry_direction e = Outbound \<and> SyncTracker_inbound_for pid s = None"
  have wf: "SyncTracker_wf (router_sync r)"
    using assms(1) by (simp add: router_ok_def router_wf_def)
  obtain e where only: "filter (\<lambda>(_, e). entry_direction e = Outbound) (router_peers r) = [(u, e)]"
    using assms(3) by (auto simp: Router_outbound_peers_def map_eq_Cons_conv)
  have find: "List.find (?P s) (router_peers r) =
      (if SyncTracker_inbound_for u s = None then Some (u, e) else None)" for s
    unfolding find_outbound only by simp
  let ?s = "SyncTracker_insert_pair source u (router_sync r)"
  have "SyncTracker_outbound_for source ?s = Some u" "SyncTracker_inbound_for u ?s = Some source"
    by (simp_all add: sync_lookups)
  then show ?thesis
    using assms(2,4)
    by (intro exI [of _ "r\<lparr>router_sync := ?s\<rparr>"])
      (simp add: Router_route_message_def route_sync_info_def pair_eq [OF wf] find)
qed

theorem second_sync_dropped_witness:
  "\<exists>r r1. router_ok r \<and> Router_handle_event False (\<lambda>_. 0) (Message (PeerId 1) (SyncInfo [1])) r =
      Inr (r1, [Send (PeerId 2) (SyncInfo [1])]) \<and>
    Router_handle_event False (\<lambda>_. 1) (Message (PeerId 1) (SyncInfo [2])) r1 = Inr (r1, [])"
proof -
  let ?r = "Router_register_peer (PeerId 2) Outbound Full
    (Router_register_peer (PeerId 1) Inbound Full Router_new)"
  have ok: "router_ok ?r" by (intro router_ok_register router_ok_new)
  have state: "hm_get (PeerId 1) (router_peers ?r) =
      Some \<lparr>entry_direction = Inbound, entry_mode = Full\<rparr>"
    "Router_outbound_peers ?r = [PeerId 2]" "SyncTracker_inbound_for (PeerId 2) (router_sync ?r) = None"
    by (simp_all add: eval_router Router_outbound_peers_def)
  show ?thesis using ok second_sync_dropped [OF ok state] by blast
qed

end
