(* ===== verification/Config.thy ===== *)
theory Config
  imports Proxy_Types
begin

text \<open>
  The configuration of \<open>src/config.rs\<close>.  Reading the file and the TOML parser are parameters of
  \<open>Config_load\<close>; the checks on the parsed configuration and the parser of the version string,
  with the rules of \<open>str::split\<close> and \<open>u8::from_str\<close>, are modelled.  A \<open>usize\<close> is a natural number.
\<close>

record ProxyConfig =
  proxy_network :: Network

record ListenerConfig =
  listener_address :: SocketAddr
  listener_mode :: ProxyMode
  listener_max_inbound :: nat

record ListenConfig =
  listen_ipv6 :: "ListenerConfig option"
  listen_ipv4 :: "ListenerConfig option"

record OutboundConfig =
  min_peers :: nat
  max_peers :: nat
  seed_peers :: "SocketAddr list"

record IdentityConfig =
  agent_name :: bytes
  peer_name :: bytes
  protocol_version :: bytes

record Config =
  config_proxy :: ProxyConfig
  config_listen :: ListenConfig
  config_outbound :: OutboundConfig
  config_identity :: IdentityConfig

datatype parse_int_error = Empty | InvalidDigit | PosOverflow

datatype 'e config_error =
    ReadFailed io_error
  | InvalidToml 'e
  | NoListener
  | NoSeedPeer
  | MinAboveMax
  | InvalidVersion bytes
  | InvalidNumber parse_int_error

definition Config_load ::
    "(bytes \<Rightarrow> bytes io_result) \<Rightarrow> (bytes \<Rightarrow> 'e + Config) \<Rightarrow> bytes \<Rightarrow> 'e config_error + Config" where
  "Config_load read_to_string from_str path =
    (case read_to_string path of
      Inl e \<Rightarrow> Inl (ReadFailed e)
    | Inr content \<Rightarrow>
        (case from_str content of
          Inl e \<Rightarrow> Inl (InvalidToml e)
        | Inr config \<Rightarrow>
            if listen_ipv4 (config_listen config) = None \<and> listen_ipv6 (config_listen config) = None
            then Inl NoListener
            else if seed_peers (config_outbound config) = [] then Inl NoSeedPeer
            else if min_peers (config_outbound config) > max_peers (config_outbound config)
            then Inl MinAboveMax
            else Inr config))"

text \<open>\<open>str::split\<close> with a one-byte pattern.\<close>

fun split_on :: "u8 \<Rightarrow> bytes \<Rightarrow> bytes list" where
  "split_on c [] = [[]]"
| "split_on c (b # bs) =
    (if b = c then [] # split_on c bs
     else case split_on c bs of p # ps \<Rightarrow> (b # p) # ps | [] \<Rightarrow> [[b]])"

text \<open>\<open>u8::from_str\<close>: an optional plus sign and decimal digits, with checked arithmetic.\<close>

fun u8_digits :: "nat \<Rightarrow> bytes \<Rightarrow> parse_int_error + u8" where
  "u8_digits n [] = Inr (of_nat n)"
| "u8_digits n (d # ds) =
    (if \<not> is_digit d then Inl InvalidDigit
     else if 10 * n > 255 then Inl PosOverflow
     else if 10 * n + (unat d - 48) > 255 then Inl PosOverflow
     else u8_digits (10 * n + (unat d - 48)) ds)"

definition u8_from_str :: "bytes \<Rightarrow> parse_int_error + u8" where
  "u8_from_str s =
    (case s of
      [] \<Rightarrow> Inl Empty
    | [c] \<Rightarrow> if c = 43 \<or> c = 45 then Inl InvalidDigit else u8_digits 0 [c]
    | c # cs \<Rightarrow> if c = 43 then u8_digits 0 cs else u8_digits 0 (c # cs))"

definition Config_version_bytes :: "Config \<Rightarrow> 'e config_error + u8 \<times> u8 \<times> u8" where
  "Config_version_bytes config =
    (let version = protocol_version (config_identity config); parts = split_on 46 version
     in if length parts \<noteq> 3 then Inl (InvalidVersion version)
        else case u8_from_str (parts ! 0) of
            Inl e \<Rightarrow> Inl (InvalidNumber e)
          | Inr a \<Rightarrow>
        (case u8_from_str (parts ! 1) of
            Inl e \<Rightarrow> Inl (InvalidNumber e)
          | Inr b \<Rightarrow>
        (case u8_from_str (parts ! 2) of
            Inl e \<Rightarrow> Inl (InvalidNumber e)
          | Inr c \<Rightarrow> Inr (a, b, c))))"

subsection \<open>Splitting and numerals\<close>

text \<open>The numerals of a byte: digits, after an optional plus sign, with a value of at most 255.\<close>

definition u8_numeral :: "bytes \<Rightarrow> u8 \<Rightarrow> bool" where
  "u8_numeral s n \<longleftrightarrow>
    (\<exists>ds. (s = ds \<or> s = 43 # ds) \<and> ds \<noteq> [] \<and> list_all is_digit ds \<and> dec_value ds = unat n)"

lemma dec_value_ge: "m \<le> foldl (\<lambda>n d. 10 * n + (unat d - 48)) m ds" for ds :: bytes
proof (induction ds arbitrary: m)
  case (Cons d ds)
  show ?case using Cons [of "10 * m + (unat d - 48)"] by simp
qed simp

lemma of_nat_u8: "n \<le> 255 \<Longrightarrow> of_nat n = (w :: u8) \<longleftrightarrow> n = unat w"
  by (auto simp: unat_of_nat)

lemma u8_digits_iff:
  "n \<le> 255 \<Longrightarrow> u8_digits n ds = Inr w \<longleftrightarrow>
    list_all is_digit ds \<and> foldl (\<lambda>n d. 10 * n + (unat d - 48)) n ds = unat w"
proof (induction ds arbitrary: n)
  case Nil
  then show ?case by (simp add: of_nat_u8)
next
  case (Cons d ds)
  have "unat w < 256" using unsigned_less [of w, where ?'a = nat] by simp
  moreover have "10 * n + (unat d - 48) \<le> foldl (\<lambda>n d. 10 * n + (unat d - 48)) (10 * n + (unat d - 48)) ds"
    by (rule dec_value_ge)
  ultimately show ?case using Cons by auto
qed

lemma sign_no_digit: "\<not> is_digit 43" "\<not> is_digit 45" "\<not> is_digit 46"
  by (simp_all add: is_digit_def)

lemma u8_from_str_iff: "u8_from_str s = Inr n \<longleftrightarrow> u8_numeral s n"
proof -
  have digits: "u8_digits 0 ds = Inr n \<longleftrightarrow> list_all is_digit ds \<and> dec_value ds = unat n" for ds
    using u8_digits_iff [of 0 ds n] by (simp add: dec_value_def)
  consider "s = []" | c where "s = [c]" | c d ds where "s = c # d # ds"
    by (metis list.exhaust)
  then show ?thesis
  proof cases
    case 1
    then show ?thesis by (simp add: u8_from_str_def u8_numeral_def)
  next
    case 2
    then show ?thesis
      using sign_no_digit digits [of s]
      by (auto simp: u8_from_str_def u8_numeral_def simp del: u8_digits.simps)
  next
    case 3
    then show ?thesis
      using sign_no_digit digits [of s] digits [of "d # ds"]
      by (auto simp: u8_from_str_def u8_numeral_def simp del: u8_digits.simps)
  qed
qed

lemma split_on_nonempty: "split_on c s \<noteq> []"
  by (cases s) (auto split: list.splits)

lemma split_on_Cons:
  "split_on c s = p # ps \<longleftrightarrow> c \<notin> set p \<and> (ps = [] \<and> s = p \<or> (\<exists>t. s = p @ c # t \<and> split_on c t = ps))"
proof (induction s arbitrary: p)
  case (Cons b bs)
  show ?case
  proof (cases "b = c")
    case True
    then show ?thesis by (cases p) auto
  next
    case False
    obtain q qs where q: "split_on c bs = q # qs" using split_on_nonempty by (meson list.exhaust)
    show ?thesis
    proof (cases p)
      case Nil
      with False q show ?thesis by auto
    next
      case (Cons b' p')
      with False q Cons.IH [of p'] show ?thesis by auto
    qed
  qed
qed auto

lemma split_on_append: "c \<notin> set p \<Longrightarrow> split_on c (p @ c # t) = p # split_on c t"
  by (simp add: split_on_Cons)

lemma split_on_single: "split_on c s = [p] \<longleftrightarrow> c \<notin> set p \<and> s = p"
  by (auto simp: split_on_Cons split_on_nonempty)

lemma split_on_three:
  "split_on c s = [x, y, z] \<longleftrightarrow> s = x @ c # y @ c # z \<and> c \<notin> set x \<and> c \<notin> set y \<and> c \<notin> set z"
proof
  assume "split_on c s = [x, y, z]"
  then obtain t where t: "s = x @ c # t" "c \<notin> set x" "split_on c t = [y, z]"
    using split_on_Cons [of c s x "[y, z]"] by auto
  then obtain t' where "t = y @ c # t'" "c \<notin> set y" "split_on c t' = [z]"
    using split_on_Cons [of c t y "[z]"] by auto
  with t show "s = x @ c # y @ c # z \<and> c \<notin> set x \<and> c \<notin> set y \<and> c \<notin> set z"
    by (simp add: split_on_single)
next
  assume "s = x @ c # y @ c # z \<and> c \<notin> set x \<and> c \<notin> set y \<and> c \<notin> set z"
  then show "split_on c s = [x, y, z]"
    using split_on_single [of c z z] by (simp add: split_on_append)
qed

lemma u8_numeral_no_dot: "u8_numeral s n \<Longrightarrow> 46 \<notin> set s"
  using sign_no_digit by (auto simp: u8_numeral_def list_all_iff)

lemma version_bytes_parts:
  assumes "protocol_version (config_identity config) = x @ ascii ''.'' @ y @ ascii ''.'' @ z"
    and n: "u8_numeral x a" "u8_numeral y b" "u8_numeral z c"
  shows "Config_version_bytes config = Inr (a, b, c)"
proof -
  have "split_on 46 (protocol_version (config_identity config)) = [x, y, z]"
    using assms n [THEN u8_numeral_no_dot] by (simp add: split_on_three ascii_def)
  with n show ?thesis by (simp add: Config_version_bytes_def u8_from_str_iff [symmetric])
qed

lemma version_bytes_Inr:
  assumes "Config_version_bytes config = Inr (a, b, c)"
  shows "\<exists>x y z. protocol_version (config_identity config) = x @ ascii ''.'' @ y @ ascii ''.'' @ z \<and>
    u8_numeral x a \<and> u8_numeral y b \<and> u8_numeral z c"
proof -
  obtain x y z where "split_on 46 (protocol_version (config_identity config)) = [x, y, z]"
    "u8_from_str x = Inr a" "u8_from_str y = Inr b" "u8_from_str z = Inr c"
    using assms
    by (auto simp: Config_version_bytes_def Let_def length_Suc_conv numeral_3_eq_3
        split: if_splits sum.splits)
  then show ?thesis by (auto simp: split_on_three u8_from_str_iff ascii_def)
qed

subsection \<open>Properties\<close>

text \<open>\<open>version_bytes\<close> accepts exactly three decimal numerals of bytes separated by dots, where a
  numeral may have a plus sign and leading zeros, and returns their values.\<close>

theorem version_bytes_accepts:
  "Config_version_bytes config = Inr (a, b, c) \<longleftrightarrow>
    (\<exists>x y z. protocol_version (config_identity config) = x @ ascii ''.'' @ y @ ascii ''.'' @ z \<and>
      u8_numeral x a \<and> u8_numeral y b \<and> u8_numeral z c)"
proof
  show "Config_version_bytes config = Inr (a, b, c)" if "\<exists>x y z.
      protocol_version (config_identity config) = x @ ascii ''.'' @ y @ ascii ''.'' @ z \<and>
      u8_numeral x a \<and> u8_numeral y b \<and> u8_numeral z c"
    using that by (elim exE conjE) (rule version_bytes_parts)
qed (rule version_bytes_Inr)

text \<open>The version survives printing and parsing: when the configured string is what \<open>Display\<close>
  prints for a version, \<open>version_bytes\<close> returns its three numbers.\<close>

theorem version_print_parse:
  assumes "protocol_version (config_identity config) = Version_fmt v"
  shows "Config_version_bytes config = Inr (major v, minor v, patch v)"
proof -
  have "u8_numeral (show_dec (unat n)) n" for n
    using show_dec_digits show_dec_value by (auto simp: u8_numeral_def)
  then show ?thesis
    using version_bytes_parts [OF assms [unfolded Version_fmt_def]] by blast
qed

theorem version_print_parse_witness:
  "Config_version_bytes \<lparr>config_proxy = \<lparr>proxy_network = Mainnet\<rparr>,
      config_listen = \<lparr>listen_ipv6 = None, listen_ipv4 = None\<rparr>,
      config_outbound = \<lparr>min_peers = 1, max_peers = 2, seed_peers = []\<rparr>,
      config_identity = \<lparr>agent_name = [], peer_name = [],
        protocol_version = Version_fmt (Version 5 0 25)\<rparr>\<rparr> = Inr (5, 0, 25)"
  using version_print_parse [of "\<lparr>config_proxy = \<lparr>proxy_network = Mainnet\<rparr>,
      config_listen = \<lparr>listen_ipv6 = None, listen_ipv4 = None\<rparr>,
      config_outbound = \<lparr>min_peers = 1, max_peers = 2, seed_peers = []\<rparr>,
      config_identity = \<lparr>agent_name = [], peer_name = [],
        protocol_version = Version_fmt (Version 5 0 25)\<rparr>\<rparr>" "Version 5 0 25"] by simp

text \<open>\<open>load\<close> returns a configuration exactly if the file can be read, parses to it, and it has a
  listener, a seed peer and \<open>min_peers <= max_peers\<close>.\<close>

theorem load_accepts:
  "Config_load read_to_string from_str path = Inr config \<longleftrightarrow>
    (\<exists>content. read_to_string path = Inr content \<and> from_str content = Inr config) \<and>
    (listen_ipv4 (config_listen config) \<noteq> None \<or> listen_ipv6 (config_listen config) \<noteq> None) \<and>
    seed_peers (config_outbound config) \<noteq> [] \<and>
    min_peers (config_outbound config) \<le> max_peers (config_outbound config)"
  by (auto simp: Config_load_def split: sum.splits)

end
