(* ===== verification/Rrd.thy ===== *)
theory Rrd
  imports Router_Safety Config
begin

text \<open>
  The latency export of \<open>main\<close> in \<open>src/main.rs\<close>: the task that creates the round-robin database
  and updates it every 30 seconds.

  The program \<open>rrdtool\<close> is the parameter \<open>rrdtool\<close>: for the arguments of a call it tells whether
  the call succeeded, and is \<open>None\<close> if it could not be run.  \<open>rrd_task\<close> lists the calls the task
  makes, given the router at each tick.  The format \<open>{:.1}\<close> rounds to the nearest tenth, ties to even.
\<close>

definition rrd_path :: bytes where
  "rrd_path = ascii ''/var/lib/ergo-proxy/latency.rrd''"

definition rrd_create :: "bytes list" where
  "rrd_create = [ascii ''create'', rrd_path, ascii ''--step'', ascii ''30'',
    ascii ''DS:min:GAUGE:60:0:U'', ascii ''DS:avg:GAUGE:60:0:U'', ascii ''DS:max:GAUGE:60:0:U'',
    ascii ''DS:peers:GAUGE:60:0:U'',
    ascii ''RRA:AVERAGE:0.5:1:2880'', ascii ''RRA:AVERAGE:0.5:10:8640'', ascii ''RRA:AVERAGE:0.5:120:8760'',
    ascii ''RRA:MAX:0.5:1:2880'', ascii ''RRA:MAX:0.5:10:8640'',
    ascii ''RRA:LAST:0.5:1:2880'', ascii ''RRA:LAST:0.5:10:8640'']"

definition round_even :: "real \<Rightarrow> nat" where
  "round_even x =
    (let n = nat \<lfloor>x\<rfloor>; rest = x - real n
     in if rest < 1 / 2 then n else if rest > 1 / 2 then n + 1 else if even n then n else n + 1)"

definition show_tenths :: "real \<Rightarrow> bytes" where
  "show_tenths x =
    (let n = round_even (10 * x) in show_dec (n div 10) @ ascii ''.'' @ show_dec (n mod 10))"

definition rrd_update :: "Router \<Rightarrow> bytes" where
  "rrd_update r =
    (let peer_count' = length (Router_outbound_peers r)
     in case Router_latency_stats r of
          Some stats \<Rightarrow> ascii ''N:'' @ show_tenths (min_ms stats) @ ascii '':'' @
            show_tenths (avg_ms stats) @ ascii '':'' @ show_tenths (max_ms stats) @ ascii '':'' @
            show_dec (peer_count stats)
        | None \<Rightarrow> ascii ''N:U:U:U:'' @ show_dec peer_count')"

definition rrd_task :: "(bytes list \<Rightarrow> bool option) \<Rightarrow> Router list \<Rightarrow> bytes list list" where
  "rrd_task rrdtool routers =
    (let info = [ascii ''info'', rrd_path];
         updates = map (\<lambda>r. [ascii ''update'', rrd_path, rrd_update r]) routers
     in if rrdtool info = Some True then info # updates
        else info # rrd_create # (if rrdtool rrd_create = Some True then updates else []))"

subsection \<open>The statistics of a router in use\<close>

text \<open>A property of the latency tracker that all its operations keep holds in every reachable router.\<close>

lemma request_latency:
  assumes "P (router_latency r)" "\<And>now i p t. P t \<Longrightarrow> P (LatencyTracker_record_request now i p t)"
  shows "P (router_latency (fst (route_request_loop now source mt ids r)))"
  using assms(1)
proof (induction ids arbitrary: now r)
  case (Cons i ids)
  then have "P (router_latency (request_iteration (now 0) source i r))"
    using assms(2) by (simp add: request_iteration_def split: option.splits)
  with Cons.IH show ?case by (simp add: route_request_Cons case_prod_unfold Let_def)
qed simp

lemma response_latency:
  assumes "P (router_latency r)" "\<And>now i t. P t \<Longrightarrow> P (LatencyTracker_drop now i t)"
  shows "P (router_latency (fst (route_response_loop now mt ms r)))"
  using assms(1)
proof (induction ms arbitrary: now r)
  case (Cons m ms)
  obtain i data where m: "m = (i, data)" by force
  have "P (router_latency (response_iteration (now 0) i r))"
    using Cons.prems assms(2) by (simp add: response_iteration_def)
  with Cons.IH show ?case by (simp add: m route_response_Cons case_prod_unfold Let_def)
qed simp

lemma event_latency:
  assumes "Router_handle_event dbg now ev r = Inr (r', actions)" "P (router_latency r)"
    and "\<And>now i p t. P t \<Longrightarrow> P (LatencyTracker_record_request now i p t)"
    and "\<And>now i t. P t \<Longrightarrow> P (LatencyTracker_drop now i t)"
    and "\<And>p t. P t \<Longrightarrow> P (LatencyTracker_purge_peer p t)"
  shows "P (router_latency r')"
proof (cases ev)
  case (Message p m)
  have "P (router_latency r')" if "route_request_loop now p mt ids r = (r', actions)" for mt ids
    using request_latency [of P, OF assms(2,3)] that by (metis fst_conv)
  moreover have "P (router_latency r')" if "route_response_loop now mt ms r = (r', actions)" for mt ms
    using response_latency [of P, OF assms(2,4)] that by (metis fst_conv)
  ultimately show ?thesis
    using assms(1,2)
    by (auto simp: Message Router_route_message_def route_inv_def route_sync_info_def Let_def
        split: option.splits ProtocolMessage.splits if_splits Direction.splits prod.splits sum.splits)
qed (use assms in \<open>auto simp: Router_disconnect_def Let_def split: sum.splits\<close>)

lemma reachable_latency:
  assumes "router_reachable dbg r" "P LatencyTracker_new"
    and "\<And>now i p t. P t \<Longrightarrow> P (LatencyTracker_record_request now i p t)"
    and "\<And>now i t. P t \<Longrightarrow> P (LatencyTracker_drop now i t)"
    and "\<And>p t. P t \<Longrightarrow> P (LatencyTracker_purge_peer p t)"
  shows "P (router_latency r)"
  using assms(1)
proof (induction rule: router_reachable.induct)
  case new
  show ?case using assms(2) by (simp add: Router_new_def)
next
  case (step r r')
  from step(2,3) show ?case
    by (cases rule: router_step.cases)
      (auto simp: Router_register_peer_def intro: event_latency [where P = P, OF _ _ assms(3-5)])
qed

lemma reachable_measured:
  assumes "router_reachable dbg r"
  shows "list_all (\<lambda>v. 0 \<le> v) (measured (router_latency r))"
proof -
  have "\<forall>p e. hm_get p (lat_peers (router_latency r)) = Some e \<longrightarrow> 0 \<le> ema_ms e"
    using assms
  proof (rule reachable_latency)
    fix now i and t :: LatencyTracker assume "\<forall>p e. hm_get p (lat_peers t) = Some e \<longrightarrow> 0 \<le> ema_ms e"
    then show "\<forall>p e. hm_get p (lat_peers (LatencyTracker_drop now i t)) = Some e \<longrightarrow> 0 \<le> ema_ms e"
      by (auto simp: LatencyTracker_record_response_def Let_def rtt_between_def EMA_ALPHA_def hm_simps
          split: option.splits if_splits)
  qed (auto simp: LatencyTracker_new_def LatencyTracker_record_request_def LatencyTracker_purge_peer_def
      Let_def hm_simps split: if_splits)
  moreover have "hm_wf (lat_peers (router_latency r))"
    using reachable_ok [OF assms] by (simp add: router_ok_def router_wf_def LatencyTracker_wf_def)
  ultimately show ?thesis by (auto simp: measured_def list_all_iff hm_wf_def hm_get_def)
qed

subsection \<open>The fields of an update\<close>

lemma round_even_near:
  assumes "0 \<le> x"
  shows "\<bar>real (round_even x) - x\<bar> \<le> 1 / 2"
proof -
  define n where "n = nat \<lfloor>x\<rfloor>"
  have "real n \<le> x" "x < real n + 1" using assms unfolding n_def by linarith+
  then show ?thesis unfolding round_even_def Let_def n_def [symmetric] by auto
qed

lemma round_even_mono:
  assumes "0 \<le> x" "x \<le> y"
  shows "round_even x \<le> round_even y"
proof (rule ccontr)
  assume "\<not> ?thesis"
  then have "real (round_even x) \<ge> real (round_even y) + 1" by linarith
  then have "x = y" using round_even_near [of x] round_even_near [of y] assms by linarith
  with \<open>\<not> ?thesis\<close> show False by simp
qed

text \<open>The number that a field with a decimal point denotes.\<close>

definition field_value :: "bytes \<Rightarrow> real" where
  "field_value f = (case split_on 46 f of
    [a, b] \<Rightarrow> real (dec_value a) + real (dec_value b) / 10 ^ length b | _ \<Rightarrow> 0)"

lemma digits_no_mark: "48 > c \<or> c > 57 \<Longrightarrow> c \<notin> set (show_dec n)"
  using show_dec_digits [of n] by (auto simp: list_all_iff is_digit_def)

lemma show_digit: "n < 10 \<Longrightarrow> length (show_dec n) = 1"
  by (simp add: show_dec.simps [of n])

lemma field_value_tenths: "field_value (show_tenths x) = real (round_even (10 * x)) / 10"
proof -
  define n where "n = round_even (10 * x)"
  have "split_on 46 (show_tenths x) = [show_dec (n div 10), show_dec (n mod 10)]"
    by (simp add: show_tenths_def Let_def ascii_def split_on_append split_on_single digits_no_mark flip: n_def)
  then have "field_value (show_tenths x) = real (n div 10) + real (n mod 10) / 10"
    by (simp add: field_value_def show_dec_value show_digit)
  also have "\<dots> = real (10 * (n div 10) + n mod 10) / 10" by (simp only: of_nat_add of_nat_mult) simp
  finally show ?thesis by (simp add: n_def)
qed

lemma tenths_no_colon: "58 \<notin> set (show_tenths x)"
  by (simp add: show_tenths_def Let_def ascii_def digits_no_mark)

lemma split_fields:
  assumes "list_all (\<lambda>x. 58 \<notin> set x) [a, b, c, d]"
  shows "split_on 58 (ascii ''N:'' @ a @ ascii '':'' @ b @ ascii '':'' @ c @ ascii '':'' @ d) =
    [ascii ''N'', a, b, c, d]"
  using assms by (simp add: ascii_def split_on_append split_on_single)

lemma rrd_update_fields:
  "split_on 58 (rrd_update r) = (case Router_latency_stats r of
     None \<Rightarrow> [ascii ''N'', ascii ''U'', ascii ''U'', ascii ''U'', show_dec (length (Router_outbound_peers r))]
   | Some st \<Rightarrow> [ascii ''N'', show_tenths (min_ms st), show_tenths (avg_ms st), show_tenths (max_ms st),
       show_dec (peer_count st)])"
proof (cases "Router_latency_stats r")
  case None
  then have "rrd_update r = ascii ''N:'' @ ascii ''U'' @ ascii '':'' @ ascii ''U'' @ ascii '':'' @
      ascii ''U'' @ ascii '':'' @ show_dec (length (Router_outbound_peers r))"
    by (simp add: rrd_update_def ascii_def)
  then show ?thesis by (simp only: split_fields) (simp add: None ascii_def split_on_single digits_no_mark)
next
  case (Some st)
  then show ?thesis by (simp add: rrd_update_def split_fields tenths_no_colon digits_no_mark)
qed


text \<open>Two outbound peers, of which one has answered a request after 12.34 ms.\<close>

definition demo_events :: "((nat \<Rightarrow> nat) \<times> ProtocolEvent) list" where
  "demo_events =
    [(\<lambda>_. 0, Message (PeerId 2) (Inv 1 [[5]])),
     (\<lambda>_. 0, Message (PeerId 1) (ModifierRequest 1 [[5]])),
     (\<lambda>_. 12340000, Message (PeerId 2) (ModifierResponse 1 [([5], [])]))]"

definition demo_peers :: Router where
  "demo_peers = Router_register_peer (PeerId 3) Outbound Full (Router_register_peer (PeerId 2) Outbound Full
    (Router_register_peer (PeerId 1) Inbound Full Router_new))"

primrec handle_all :: "((nat \<Rightarrow> nat) \<times> ProtocolEvent) list \<Rightarrow> Router \<Rightarrow> Router" where
  "handle_all [] r = r"
| "handle_all (e # es) r = (case Router_handle_event False (fst e) (snd e) r of
    Inr (r', _) \<Rightarrow> handle_all es r' | Inl _ \<Rightarrow> r)"

lemma handle_all_reachable: "router_reachable False r \<Longrightarrow> router_reachable False (handle_all es r)"
  by (induction es arbitrary: r) (auto split: sum.splits dest: router_reachable.step [OF _ router_step.event])


end
