(* ===== verification/Connection.thy ===== *)
theory Connection
  imports Frame Handshake
begin

text \<open>
  The connections of \<open>src/transport/connection.rs\<close>: the handshake over a buffered stream, and the
  frames behind it.

  A \<open>BufReader\<close> is its buffer and the segments that arrive on the socket; a read returns the next
  segment, or as much of it as the buffer of 8 KiB takes.  An empty segment, or none, is the end of
  the stream.  A writer is any
  type with the operations \<open>write_all\<close> and \<open>flush\<close>, which are parameters, as in \<open>write_frame\<close>.
  \<open>timed_out\<close> says whether the timer fires before the peer's handshake has been read.  \<open>build\<close> needs
  the clock and eight random bytes, and panics in debug builds if a name is too long.
\<close>

definition HANDSHAKE_TIMEOUT_SECS :: nat where
  "HANDSHAKE_TIMEOUT_SECS = 30"

record BufReader =
  buffer :: bytes
  segments :: "bytes list"

definition BufReader_new :: "bytes list \<Rightarrow> BufReader" where
  "BufReader_new segs = \<lparr>buffer = [], segments = segs\<rparr>"

text \<open>The capacity that \<open>BufReader::new\<close> gives the buffer.\<close>

definition BUF_SIZE :: nat where
  "BUF_SIZE = 8192"

definition fill_buf :: "BufReader \<Rightarrow> BufReader" where
  "fill_buf r =
    (if buffer r \<noteq> [] then r
     else case segments r of
         [] \<Rightarrow> r
       | seg # segs \<Rightarrow> \<lparr>buffer = take BUF_SIZE seg,
           segments = (if length seg \<le> BUF_SIZE then segs else drop BUF_SIZE seg # segs)\<rparr>)"

definition consume :: "nat \<Rightarrow> BufReader \<Rightarrow> BufReader" where
  "consume n r = r\<lparr>buffer := drop n (buffer r)\<rparr>"

text \<open>The bytes that are still to be read.\<close>

definition stream :: "BufReader \<Rightarrow> bytes" where
  "stream r = buffer r @ concat (segments r)"

record 'w Connection =
  conn_reader :: BufReader
  conn_writer :: 'w
  conn_magic :: bytes
  conn_peer_spec :: PeerSpec

definition measure_handshake_size :: "bytes \<Rightarrow> nat io_result" where
  "measure_handshake_size data = measure_size data"

definition read_handshake :: "BufReader \<Rightarrow> PeerSpec io_result \<times> BufReader" where
  "read_handshake r =
    (let r1 = fill_buf r; buf_snapshot = buffer r1
     in if buf_snapshot = [] then (Inl ConnectionReset, r1)
        else case parse buf_snapshot of
            Inl e \<Rightarrow> (Inl e, r1)
          | Inr spec \<Rightarrow>
              (case measure_handshake_size buf_snapshot of
                Inl e \<Rightarrow> (Inl e, r1)
              | Inr consumed \<Rightarrow> (Inr spec, consume consumed r1)))"

text \<open>The steps the two directions share: send our handshake, and read and validate the peer's.\<close>

definition send_handshake :: "('w \<Rightarrow> bytes \<Rightarrow> 'w io_result) \<Rightarrow> ('w \<Rightarrow> 'w io_result) \<Rightarrow> bytes \<Rightarrow> 'w \<Rightarrow>
    unit io_result \<times> 'w" where
  "send_handshake write_all flush hs_bytes writer =
    (case write_all writer hs_bytes of
      Inl e \<Rightarrow> (Inl e, writer)
    | Inr writer1 \<Rightarrow> (case flush writer1 of Inl e \<Rightarrow> (Inl e, writer1) | Inr writer2 \<Rightarrow> (Inr (), writer2)))"

definition receive_handshake :: "bool \<Rightarrow> Network \<Rightarrow> BufReader \<Rightarrow> PeerSpec io_result \<times> BufReader" where
  "receive_handshake timed_out network reader =
    (if timed_out then (Inl TimedOut, reader)
     else case read_handshake reader of
         (Inl e, reader1) \<Rightarrow> (Inl e, reader1)
       | (Inr peer_spec, reader1) \<Rightarrow>
           (case validate_peer peer_spec network of
             Inl _ \<Rightarrow> (Inl InvalidData, reader1)
           | Inr _ \<Rightarrow> (Inr peer_spec, reader1)))"

text \<open>The result has the writer as it was left, also when the handshake failed.\<close>

definition Connection_outbound ::
    "('w \<Rightarrow> bytes \<Rightarrow> 'w io_result) \<Rightarrow> ('w \<Rightarrow> 'w io_result) \<Rightarrow> bool \<Rightarrow> nat \<Rightarrow> bytes \<Rightarrow> bool \<Rightarrow>
      HandshakeConfig \<Rightarrow> BufReader \<Rightarrow> 'w \<Rightarrow> panic + 'w Connection io_result \<times> 'w" where
  "Connection_outbound write_all flush dbg now_millis urandom timed_out config reader writer =
    (let magic = Network_magic (cfg_network config)
     in case build dbg now_millis urandom config of
          Inl p \<Rightarrow> Inl p
        | Inr hs_bytes \<Rightarrow>
            (case send_handshake write_all flush hs_bytes writer of
              (Inl e, writer1) \<Rightarrow> Inr (Inl e, writer1)
            | (Inr _, writer1) \<Rightarrow>
                (case receive_handshake timed_out (cfg_network config) reader of
                  (Inl e, _) \<Rightarrow> Inr (Inl e, writer1)
                | (Inr peer_spec, reader1) \<Rightarrow>
                    Inr (Inr \<lparr>conn_reader = reader1, conn_writer = writer1, conn_magic = magic,
                      conn_peer_spec = peer_spec\<rparr>, writer1))))"

definition Connection_inbound ::
    "('w \<Rightarrow> bytes \<Rightarrow> 'w io_result) \<Rightarrow> ('w \<Rightarrow> 'w io_result) \<Rightarrow> bool \<Rightarrow> nat \<Rightarrow> bytes \<Rightarrow> bool \<Rightarrow>
      HandshakeConfig \<Rightarrow> BufReader \<Rightarrow> 'w \<Rightarrow> panic + 'w Connection io_result \<times> 'w" where
  "Connection_inbound write_all flush dbg now_millis urandom timed_out config reader writer =
    (let magic = Network_magic (cfg_network config)
     in case receive_handshake timed_out (cfg_network config) reader of
          (Inl e, _) \<Rightarrow> Inr (Inl e, writer)
        | (Inr peer_spec, reader1) \<Rightarrow>
            (case build dbg now_millis urandom config of
              Inl p \<Rightarrow> Inl p
            | Inr hs_bytes \<Rightarrow>
                (case send_handshake write_all flush hs_bytes writer of
                  (Inl e, writer1) \<Rightarrow> Inr (Inl e, writer1)
                | (Inr _, writer1) \<Rightarrow>
                    Inr (Inr \<lparr>conn_reader = reader1, conn_writer = writer1, conn_magic = magic,
                      conn_peer_spec = peer_spec\<rparr>, writer1))))"

text \<open>Reading a frame takes its bytes from the buffer and, as they are needed, from the following
  segments: the frame reader runs on the remaining bytes.\<close>

definition Connection_read_frame ::
    "(bytes \<Rightarrow> bytes) \<Rightarrow> 'w Connection \<Rightarrow> Frame io_result \<times> 'w Connection" where
  "Connection_read_frame digest c =
    (case read_frame digest (conn_magic c) (stream (conn_reader c)) of
      (result, rest) \<Rightarrow> (result, c\<lparr>conn_reader := \<lparr>buffer = rest, segments = []\<rparr>\<rparr>))"

definition Connection_write_frame ::
    "('w \<Rightarrow> bytes \<Rightarrow> 'w io_result) \<Rightarrow> ('w \<Rightarrow> 'w io_result) \<Rightarrow> (bytes \<Rightarrow> bytes) \<Rightarrow> Frame \<Rightarrow>
      'w Connection \<Rightarrow> 'w Connection io_result" where
  "Connection_write_frame write_all flush digest f c =
    map_sum id (\<lambda>writer. c\<lparr>conn_writer := writer\<rparr>)
      (write_frame write_all flush digest (conn_writer c) (conn_magic c) f)"

definition Connection_split :: "'w Connection \<Rightarrow> BufReader \<times> 'w \<times> bytes \<times> PeerSpec" where
  "Connection_split c = (conn_reader c, conn_writer c, conn_magic c, conn_peer_spec c)"

subsection \<open>The handshake on the stream\<close>

lemma stream_fill_buf [simp]: "stream (fill_buf r) = stream r"
  by (auto simp: fill_buf_def stream_def split: list.splits)

lemma stream_consume: "stream r = take n (buffer r) @ stream (consume n r)"
  by (simp add: stream_def consume_def)

lemma read_handshake_Inr:
  assumes "read_handshake r = (Inr spec, r')"
  shows "\<exists>h. stream r = h @ stream r' \<and> (\<forall>rest. parse (h @ rest) = Inr spec \<and>
    measure_size (h @ rest) = Inr (length h))"
proof -
  let ?b = "buffer (fill_buf r)"
  obtain n where n: "measure_size ?b = Inr n" "parse ?b = Inr spec" "r' = consume n (fill_buf r)"
    using assms
    by (auto simp: read_handshake_def Let_def measure_handshake_size_def split: if_splits sum.splits)
  obtain sp where le: "n \<le> length ?b"
    and strict: "\<And>rest. rbind read_vlq (\<lambda>ts. strict_entry) (take n ?b @ rest) = (Inr sp, rest)"
    using measure_size_Inr [OF n(1)] by metis
  have "sp = spec" using strict_parse [OF strict [of "drop n ?b"]] n(2) by simp
  then have facts: "parse (take n ?b @ rest) = Inr spec"
    "measure_size (take n ?b @ rest) = Inr (length (take n ?b))" for rest
    using built_measure [OF strict] by blast+
  have "stream r = take n ?b @ stream r'"
    using stream_consume [of "fill_buf r" n] n(3) by simp
  with facts show ?thesis by blast
qed

text \<open>The reader behind a handshake \<open>h\<close> that was followed by \<open>x\<close> in its segment.\<close>

definition reader_after :: "bytes \<Rightarrow> bytes \<Rightarrow> bytes list \<Rightarrow> BufReader" where
  "reader_after h x segs = consume (length h) (fill_buf (BufReader_new ((h @ x) # segs)))"

lemma stream_reader_after:
  assumes "length h \<le> BUF_SIZE"
  shows "stream (reader_after h x segs) = x @ concat segs"
proof (cases "length (h @ x) \<le> BUF_SIZE")
  case False
  with assms show ?thesis
    by (simp add: reader_after_def BufReader_new_def fill_buf_def consume_def stream_def append_take_drop_id
        flip: append_assoc)
qed (simp add: reader_after_def BufReader_new_def fill_buf_def consume_def stream_def)

lemma built_fits: "config_ok c \<Longrightarrow> build dbg now ur c = Inr h \<Longrightarrow> length h \<le> BUF_SIZE"
  using build_length [of c dbg now ur h] by (simp add: BUF_SIZE_def)

lemma read_handshake_built:
  assumes "config_ok c" "build dbg now ur c = Inr h"
  shows "read_handshake (BufReader_new ((h @ x) # segs)) = (Inr (config_spec ur c), reader_after h x segs)"
proof -
  obtain h' where h': "build dbg now ur c = Inr h'"
    and strict: "\<And>rest. rbind read_vlq (\<lambda>ts. strict_entry) (h' @ rest) = (Inr (config_spec ur c), rest)"
    using built_handshake [OF assms(1)] by metis
  have "h' = h" using h' assms(2) by simp
  note built = built_measure [OF strict, unfolded this]
  have "h \<noteq> []" using strict [of "[]"] \<open>h' = h\<close> 
    by (auto simp: rbind_def read_vlq_def read_vlq_loop.simps [of _ _ "[]"])
  moreover have "buffer (fill_buf (BufReader_new ((h @ x) # segs))) = h @ take (BUF_SIZE - length h) x"
    using built_fits [OF assms] by (simp add: BufReader_new_def fill_buf_def)
  ultimately show ?thesis
    using built
    by (simp add: read_handshake_def reader_after_def Let_def measure_handshake_size_def)
qed

text \<open>Both directions succeed against a node of this program on the same network.\<close>

lemma established:
  assumes "config_ok c'" "build dbg' t' ur' c' = Inr h'" "build dbg t ur c = Inr h"
    and "cfg_network c = cfg_network c'" "EIP37_MIN \<le> cfg_version c'"
  shows "Connection_outbound (\<lambda>w b. Inr (w @ b)) Inr dbg t ur False c
      (BufReader_new ((h' @ x) # segs)) [] =
      Inr (Inr \<lparr>conn_reader = reader_after h' x segs, conn_writer = h,
        conn_magic = Network_magic (cfg_network c), conn_peer_spec = config_spec ur' c'\<rparr>, h)" (is ?o)
    and "Connection_inbound (\<lambda>w b. Inr (w @ b)) Inr dbg t ur False c
      (BufReader_new ((h' @ x) # segs)) [] =
      Inr (Inr \<lparr>conn_reader = reader_after h' x segs, conn_writer = h,
        conn_magic = Network_magic (cfg_network c), conn_peer_spec = config_spec ur' c'\<rparr>, h)" (is ?i)
proof -
  have "validate_peer (config_spec ur' c') (cfg_network c) = Inr ()"
    using assms(4,5) config_spec_valid by simp
  then have "receive_handshake False (cfg_network c) (BufReader_new ((h' @ x) # segs)) =
      (Inr (config_spec ur' c'), reader_after h' x segs)"
    by (simp add: receive_handshake_def read_handshake_built [OF assms(1,2)])
  then show ?o ?i
    by (simp_all add: Connection_outbound_def Connection_inbound_def assms(3) send_handshake_def)
qed

lemma connection_established:
  assumes "Connection_outbound write_all flush dbg now ur timed_out config reader writer =
      Inr (Inr c, writer') \<or>
    Connection_inbound write_all flush dbg now ur timed_out config reader writer = Inr (Inr c, writer')"
  shows "read_handshake reader = (Inr (conn_peer_spec c), conn_reader c)"
    and "validate_peer (conn_peer_spec c) (cfg_network config) = Inr ()"
    and "conn_magic c = Network_magic (cfg_network config)" and "conn_writer c = writer'"
    and "\<exists>h. build dbg now ur config = Inr h \<and>
      send_handshake write_all flush h writer = (Inr (), conn_writer c)"
  using assms
  by (auto simp: Connection_outbound_def Connection_inbound_def Let_def receive_handshake_def
      split: sum.splits prod.splits if_splits)

lemma example_built:
  obtains h where "build False 0 [] example_config = Inr h" "EIP37_MIN \<le> cfg_version example_config"
proof -
  have "EIP37_MIN \<le> cfg_version example_config"
    by (simp add: example_config_def EIP37_MIN_def less_eq_Version_def)
  then show ?thesis using built_handshake [OF example_config_ok] that by metis
qed

text \<open>A handshake that the strict reader takes exactly cannot be delivered in two parts.\<close>

lemma measure_size_proper_prefix:
  assumes "measure_size (u @ v) = Inr (length (u @ v))" "v \<noteq> []"
  shows "\<exists>e. measure_size u = Inl e"
proof (cases "measure_size u")
  case (Inr n)
  obtain sp where "n \<le> length u"
    and strict: "\<And>rest. rbind read_vlq (\<lambda>ts. strict_entry) (take n u @ rest) = (Inr sp, rest)"
    using measure_size_Inr [OF Inr] by metis
  have "measure_size (u @ v) = Inr (length (take n u))"
    using built_measure(2) [OF strict, of "drop n u @ v"] by (simp flip: append_assoc)
  with assms \<open>n \<le> length u\<close> show ?thesis by simp
qed simp

subsection \<open>Properties\<close>

text \<open>(C14) No byte is lost between the handshake and the first frame.  Whenever a connection is
  established, in either direction, the bytes received so far are the peer's handshake followed by
  exactly the bytes that are left for the frames; the handshake parses to the peer's specification,
  which passed the validation, and the connection has the magic of the configured network.\<close>

theorem no_bytes_lost:
  assumes "Connection_outbound write_all flush dbg now ur timed_out config reader writer =
      Inr (Inr c, writer') \<or>
    Connection_inbound write_all flush dbg now ur timed_out config reader writer = Inr (Inr c, writer')"
  shows "\<exists>h. stream reader = h @ stream (conn_reader c) \<and> parse h = Inr (conn_peer_spec c) \<and>
    measure_size h = Inr (length h) \<and>
    validate_peer (conn_peer_spec c) (cfg_network config) = Inr () \<and>
    conn_magic c = Network_magic (cfg_network config) \<and> conn_writer c = writer'"
proof -
  note est = connection_established [OF assms]
  obtain h where h: "stream reader = h @ stream (conn_reader c)"
    "\<And>rest. parse (h @ rest) = Inr (conn_peer_spec c) \<and> measure_size (h @ rest) = Inr (length h)"
    using read_handshake_Inr [OF est(1)] by blast
  show ?thesis using h(1) h(2) [of "[]"] est(2-4) by (intro exI [of _ h]) simp
qed

theorem no_bytes_lost_witness:
  "\<exists>h c writer. Connection_inbound (\<lambda>w b. Inr (w @ b)) Inr False 0 [] False example_config
      (BufReader_new [h @ [7], [8]]) [] = Inr (Inr c, writer) \<and>
    (\<exists>h'. parse h' = Inr (conn_peer_spec c) \<and> measure_size h' = Inr (length h') \<and>
      stream (BufReader_new [h @ [7], [8]]) = h' @ stream (conn_reader c))"
proof -
  obtain h where h: "build False 0 [] example_config = Inr h" "EIP37_MIN \<le> cfg_version example_config"
    by (rule example_built)
  note in_ok = established(2) [OF example_config_ok h(1) h(1) refl h(2), of "[7]" "[[8]]"]
  obtain h' where "parse h' = Inr (config_spec [] example_config)" "measure_size h' = Inr (length h')"
    "stream (BufReader_new [h @ [7], [8]]) = h' @ [7, 8]"
    using no_bytes_lost [OF disjI2 [OF in_ok]] built_fits [OF example_config_ok h(1)]
    by (auto simp: stream_reader_after)
  then show ?thesis
    using in_ok built_fits [OF example_config_ok h(1)]
    by (intro exI [of _ h] exI conjI) (assumption, auto simp: stream_reader_after)
qed

text \<open>A peer that is not accepted learns nothing about this node: when an inbound connection
  fails because the handshake times out, does not parse or is not valid, nothing has been written.
  An outbound connection writes its handshake first.\<close>

theorem inbound_silent_until_valid:
  assumes "fst (receive_handshake timed_out (cfg_network config) reader) = Inl e"
  shows "Connection_inbound write_all flush dbg now ur timed_out config reader writer =
    Inr (Inl e, writer)"
  using assms by (auto simp: Connection_inbound_def Let_def split: prod.splits)

theorem inbound_silent_until_valid_witness:
  "Connection_inbound (\<lambda>w b. Inr (w @ b)) (\<lambda>w. Inr w) True 0 [] False example_config
    (BufReader_new [[]]) [] = Inr (Inl ConnectionReset, [])"
  by (rule inbound_silent_until_valid)
    (simp add: receive_handshake_def read_handshake_def BufReader_new_def fill_buf_def)



text \<open>(C33) A handshake that one read does not return is refused.  Only what the first read of the
  socket returns is parsed: if the first segment ends before the end of the handshake, or the
  handshake is longer than the buffer of 8 KiB, reading it fails, although the rest follows.\<close>

theorem split_handshake_refused:
  assumes "measure_size h = Inr (length h)" "seg @ concat segs = h @ x"
    and "length seg < length h \<or> BUF_SIZE < length h"
  shows "\<exists>e r. read_handshake (BufReader_new (seg # segs)) = (Inl e, r)"
proof -
  let ?u = "take BUF_SIZE seg"
  define m where "m = length ?u"
  have short: "m < length h" "m \<le> length seg" "m \<le> BUF_SIZE" using assms(3) by (auto simp: m_def)
  have "?u = take m seg" by (simp add: m_def min_def)
  also have "\<dots> = take m (seg @ concat segs)" using short by simp
  also have "\<dots> = take m h" unfolding assms(2) using short by simp
  finally have "?u = take m h" .
  then have h: "h = ?u @ drop m h" by simp
  have "measure_size (?u @ drop m h) = Inr (length (?u @ drop m h))"
    unfolding h [symmetric] by (rule assms(1))
  then obtain e where "measure_size ?u = Inl e"
    using measure_size_proper_prefix [of ?u "drop m h"] short(1) by auto
  then show ?thesis
    by (auto simp: read_handshake_def BufReader_new_def fill_buf_def Let_def measure_handshake_size_def
        split: sum.splits)
qed

theorem split_handshake_refused_witness:
  "\<exists>e r. read_handshake (BufReader_new [[0, 1, 65, 6, 0, 3], [0, 0, 1, 3, 2, 7, 7]]) = (Inl e, r)"
  by (rule split_handshake_refused [of "[0, 1, 65, 6, 0, 3, 0, 0, 1, 3, 2, 7, 7]" _ _ "[]"])
    (simp_all add: measure_size_def rbind_def read_vlq_def read_vlq_loop_Cons vlq_cont_def
        read_short_string_def from_utf8_def measure_feature_def read_vlq_length_def MAX_VLQ_LENGTH_def
        read_exact_def)

end
