(* ===== verification/Router_Delivery.thy ===== *)
theory Router_Delivery
  imports Router_Safety
begin

text \<open>
  What the router does with each message: announcements, requests and responses, and the clean-up
  when a peer disconnects.
\<close>

subsection \<open>Announcements\<close>

text \<open>The registered peers of a direction.\<close>

definition peers_of :: "Direction \<Rightarrow> Router \<Rightarrow> PeerId set" where
  "peers_of d r = {p. map_option entry_direction (hm_get p (router_peers r)) = Some d}"

lemma forward_to_peers:
  assumes "hm_wf (router_peers r)" "source \<notin> peers_of d r"
  shows "target ` set (forward_to d source msg r) = peers_of d r"
    and "distinct (map target (forward_to d source msg r))"
proof -
  have targets: "map target (forward_to d source msg r) =
      map fst (filter (\<lambda>(pid, e). pid \<noteq> source \<and> entry_direction e = d) (router_peers r))"
    by (simp add: forward_to_def case_prod_unfold)
  show "distinct (map target (forward_to d source msg r))"
    using assms(1) unfolding targets hm_wf_def by (simp add: distinct_map_filter)
  have "set (map target (forward_to d source msg r)) = peers_of d r"
    using assms unfolding targets by (force simp: peers_of_def hm_entries [symmetric])
  then show "target ` set (forward_to d source msg r) = peers_of d r" by simp
qed

lemma opposite_neq [simp]: "opposite d \<noteq> d" "d \<noteq> opposite d"
  by (cases d; simp)+

subsection \<open>Responses\<close>

text \<open>The first modifier of each id, in order.\<close>

fun first_of_each :: "ModifierId list \<Rightarrow> (ModifierId \<times> bytes) list \<Rightarrow> (ModifierId \<times> bytes) list" where
  "first_of_each seen [] = []"
| "first_of_each seen ((i, data) # ms) =
    (if i \<in> set seen then first_of_each seen ms else (i, data) # first_of_each (i # seen) ms)"

definition response_action :: "u8 \<Rightarrow> RequestTracker \<Rightarrow> ModifierId \<times> bytes \<Rightarrow> Action option" where
  "response_action mt t p = map_option (\<lambda>q. Send q (ModifierResponse mt [p])) (RequestTracker_lookup (fst p) t)"

lemma response_actions_seen:
  assumes "RequestTracker_wf (router_requests r)" "RequestTracker_wf t"
    and "\<And>k. RequestTracker_lookup k (router_requests r) =
      (if k \<in> set seen then None else RequestTracker_lookup k t)"
  shows "snd (route_response_loop now mt ms r) =
      List.map_filter (response_action mt t) (first_of_each seen ms) \<and>
    (\<forall>k. RequestTracker_lookup k (router_requests (fst (route_response_loop now mt ms r))) =
      (if k \<in> set seen \<union> fst ` set ms then None else RequestTracker_lookup k t))"
  using assms
proof (induction ms arbitrary: now r seen)
  case (Cons p ms)
  obtain i data where p: "p = (i, data)" by force
  let ?r = "response_iteration (now 0) i r"
  have wf: "RequestTracker_wf (router_requests ?r)"
    using Cons.prems(1) by (rule response_iteration_wf)
  have look: "RequestTracker_lookup k (router_requests ?r) =
      (if k \<in> set (i # seen) then None else RequestTracker_lookup k t)" for k
    using Cons.prems(1,3) by (simp add: response_iteration_lookup)
  have look': "i \<in> set seen \<Longrightarrow> RequestTracker_lookup k (router_requests ?r) =
      (if k \<in> set seen then None else RequestTracker_lookup k t)" for k
    using look by auto
  show ?case
  proof (cases "i \<in> set seen")
    case True
    with Cons.IH [OF wf Cons.prems(2) look'] Cons.prems(3) [of i] show ?thesis
      by (auto simp: p route_response_Cons case_prod_unfold Let_def)
  next
    case False
    with Cons.IH [OF wf Cons.prems(2) look] Cons.prems(3) [of i] show ?thesis
      by (auto simp: p route_response_Cons case_prod_unfold Let_def List.map_filter_simps
          response_action_def split: option.splits)
  qed
qed (simp add: List.map_filter_simps)

lemma response_actions:
  assumes "RequestTracker_wf (router_requests r)"
  shows "snd (route_response_loop now mt ms r) =
      List.map_filter (response_action mt (router_requests r)) (first_of_each [] ms)"
    and "RequestTracker_lookup k (router_requests (fst (route_response_loop now mt ms r))) =
      (if k \<in> fst ` set ms then None else RequestTracker_lookup k (router_requests r))"
  using response_actions_seen [OF assms assms, of "[]" now mt ms] by simp_all

subsection \<open>Requests\<close>

lemma request_iteration_lookup:
  assumes "RequestTracker_wf (router_requests r)"
  shows "RequestTracker_lookup k (router_requests (request_iteration t source i r)) =
    (if k = i \<and> request_action (router_inv_table r) source mt i \<noteq> None then Some source
     else RequestTracker_lookup k (router_requests r))"
    and "RequestTracker_wf (router_requests (request_iteration t source i r))"
  using assms
  by (auto simp: request_iteration_def request_action_def requests.look_enter requests.wf_enter
      split: option.splits)

lemma request_lookups:
  assumes "RequestTracker_wf (router_requests r)"
  shows "RequestTracker_lookup k (router_requests (fst (route_request_loop now source mt ids r))) =
    (if k \<in> set ids \<and> request_action (router_inv_table r) source mt k \<noteq> None then Some source
     else RequestTracker_lookup k (router_requests r))"
  using assms
proof (induction ids arbitrary: now r)
  case (Cons i ids)
  from Cons.IH [OF request_iteration_lookup(2) [OF Cons.prems]] show ?case
    by (auto simp: route_request_Cons case_prod_unfold Let_def
        request_iteration_lookup(1) [OF Cons.prems, where mt = mt])
qed simp

subsection \<open>Properties\<close>

lemma route_inv_lookup:
  "InvTable_wf (router_inv_table r) \<Longrightarrow>
    InvTable_lookup i (router_inv_table (fst (route_inv source d mt ids r))) =
    (if i \<in> set ids then Some source else InvTable_lookup i (router_inv_table r))"
  by (simp add: route_inv_def Let_def inv_table.look_enter_all)

lemma reachable_wf: "router_reachable dbg r \<Longrightarrow> router_wf r"
  using reachable_ok by (auto simp: router_ok_def)

text \<open>(C20) Announcements and unknown messages are forwarded unchanged to exactly the peers of the
  opposite direction, once each, and an announcement makes its sender the source of every
  announced modifier and of no other.\<close>

theorem broadcast_to_opposite:
  assumes "router_reachable dbg r" "hm_get source (router_peers r) = Some entry"
  shows "\<exists>r' acts acts'.
    Router_handle_event dbg now (Message source (Inv mt ids)) r = Inr (r', acts) \<and>
    Router_handle_event dbg now (Message source (Unknown c body)) r = Inr (r, acts') \<and>
    target ` set acts = peers_of (opposite (entry_direction entry)) r \<and>
    target ` set acts' = peers_of (opposite (entry_direction entry)) r \<and>
    distinct (map target acts) \<and> distinct (map target acts') \<and>
    sent_message ` set acts \<subseteq> {Inv mt ids} \<and> sent_message ` set acts' \<subseteq> {Unknown c body} \<and>
    (\<forall>i. InvTable_lookup i (router_inv_table r') =
      (if i \<in> set ids then Some source else InvTable_lookup i (router_inv_table r)))"
proof -
  have wf: "hm_wf (router_peers r)" "InvTable_wf (router_inv_table r)"
    using reachable_wf [OF assms(1)] by (simp_all add: router_wf_def)
  let ?d = "opposite (entry_direction entry)"
  let ?r = "fst (route_inv source (entry_direction entry) mt ids r)"
  have not: "source \<notin> peers_of ?d r" using assms(2) by (auto simp: peers_of_def)
  have acts: "snd (route_inv source (entry_direction entry) mt ids r) = forward_to ?d source (Inv mt ids) r"
    by (simp add: route_inv_def Let_def forward_to_def)
  have msgs: "sent_message ` set (forward_to ?d source m r) \<subseteq> {m}" for m
    by (auto simp: forward_to_def)
  show ?thesis
    using assms(2) acts forward_to_peers [OF wf(1) not] route_inv_lookup [OF wf(2)] msgs
    by (intro exI [of _ ?r] exI [of _ "forward_to ?d source (Inv mt ids) r"]
        exI [of _ "forward_to ?d source (Unknown c body) r"])
      (simp add: Router_route_message_def prod_eq_iff)
qed

theorem broadcast_to_opposite_witness:
  "\<exists>r r' acts. router_reachable True r \<and> PeerId 1 \<in> peers_of Inbound r \<and>
    Router_handle_event True (\<lambda>_. 0) (Message (PeerId 2) (Inv 1 [demo_id])) r = Inr (r', acts) \<and>
    target ` set acts = peers_of Inbound r"
proof -
  let ?r = "Router_register_peer (PeerId 2) Outbound Full
    (Router_register_peer (PeerId 1) Inbound Full Router_new)"
  have reach: "router_reachable True ?r"
    by (intro router_reachable.step [OF _ router_step.register] router_reachable.new)
  have entry: "hm_get (PeerId 2) (router_peers ?r) =
      Some \<lparr>entry_direction = Outbound, entry_mode = Full\<rparr>" and "PeerId 1 \<in> peers_of Inbound ?r"
    by (simp_all add: eval_router peers_of_def)
  moreover obtain r' acts where
    "Router_handle_event True (\<lambda>_. 0) (Message (PeerId 2) (Inv 1 [demo_id])) ?r = Inr (r', acts)"
    "target ` set acts = peers_of (opposite Outbound) ?r"
    using broadcast_to_opposite [OF reach entry, of "\<lambda>_. 0" 1 "[demo_id]" 99 "[]"]
    by (elim exE conjE) (rule that, assumption, simp)
  ultimately show ?thesis
    using reach by (intro exI [of _ ?r] exI [of _ r'] exI [of _ acts]) simp
qed

text \<open>(C21) A request is routed to the announcers, whatever the mode of the peer that asks.  For every
  requested modifier that another peer announced, in order, one request goes to the latest
  announcer and the asking peer is recorded as its requester; modifiers that nobody announced, or
  that the asking peer announced itself, are dropped.\<close>

theorem requests_to_announcers:
  assumes "router_reachable dbg r" "hm_get source (router_peers r) = Some entry"
  shows "\<exists>r'. Router_handle_event dbg now (Message source (ModifierRequest mt ids)) r =
      Inr (r', List.map_filter (request_action (router_inv_table r) source mt) ids) \<and>
    (\<forall>i. RequestTracker_lookup i (router_requests r') =
      (if i \<in> set ids \<and> InvTable_lookup i (router_inv_table r) \<notin> {None, Some source} then Some source
       else RequestTracker_lookup i (router_requests r)))"
proof -
  have wf: "RequestTracker_wf (router_requests r)"
    using reachable_wf [OF assms(1)] by (simp add: router_wf_def)
  have forwarded: "request_action (router_inv_table r) source mt i \<noteq> None \<longleftrightarrow>
      InvTable_lookup i (router_inv_table r) \<notin> {None, Some source}" for i
    by (auto simp: request_action_def split: option.splits)
  show ?thesis
    using assms(2) request_actions [of now source mt ids r]
      request_lookups [OF wf, where now = now and source = source and mt = mt and ids = ids]
    unfolding forwarded
    by (intro exI [of _ "fst (route_request_loop now source mt ids r)"])
      (simp add: Router_route_message_def prod_eq_iff)
qed

theorem requests_to_announcers_witness:
  "\<exists>r acts r' table. router_run True (\<lambda>_. 0) demo_announce Router_new = Inr (r, acts) \<and>
    Router_handle_event True (\<lambda>_. 0) (Message (PeerId 1) (ModifierRequest 1 [demo_id])) r =
      Inr (r', List.map_filter (request_action table (PeerId 1) 1) [demo_id]) \<and>
    RequestTracker_lookup demo_id (router_requests r') = Some (PeerId 1)"
proof -
  obtain r acts where run: "router_run True (\<lambda>_. 0) demo_announce Router_new = Inr (r, acts)"
    and look: "InvTable_lookup demo_id (router_inv_table r) = Some (PeerId 2)"
    and one: "hm_get (PeerId 1) (router_peers r) \<noteq> None"
    using demo_announce_run by blast
  obtain entry where "hm_get (PeerId 1) (router_peers r) = Some entry" using one by blast
  from requests_to_announcers [OF router_run_reachable [OF run router_reachable.new] this,
      of "\<lambda>_. 0" 1 "[demo_id]"] look
  obtain r' where "Router_handle_event True (\<lambda>_. 0) (Message (PeerId 1) (ModifierRequest 1 [demo_id])) r =
      Inr (r', List.map_filter (request_action (router_inv_table r) (PeerId 1) 1) [demo_id])"
    "RequestTracker_lookup demo_id (router_requests r') = Some (PeerId 1)"
    by (elim exE conjE) (rule that, assumption, simp)
  with run show ?thesis by blast
qed

text \<open>(C22) A response is delivered to the peers that asked.  For every modifier of a
  \<open>ModifierResponse\<close> that is its first occurrence in the message and has a pending request, one
  message with that modifier goes to the recorded requester; nothing else is sent, and afterwards
  no request for any of these modifiers is pending.\<close>

theorem responses_to_requesters:
  assumes "router_reachable dbg r" "source \<in> registered r"
  shows "\<exists>r'. Router_handle_event dbg now (Message source (ModifierResponse mt ms)) r =
      Inr (r', List.map_filter (response_action mt (router_requests r)) (first_of_each [] ms)) \<and>
    (\<forall>i. RequestTracker_lookup i (router_requests r') =
      (if i \<in> fst ` set ms then None else RequestTracker_lookup i (router_requests r)))"
proof -
  have wf: "RequestTracker_wf (router_requests r)"
    using reachable_wf [OF assms(1)] by (simp add: router_wf_def)
  obtain entry where entry: "hm_get source (router_peers r) = Some entry"
    using assms(2) by (auto simp: hm_dom_get)
  show ?thesis
    using entry response_actions [OF wf, where now = now and mt = mt and ms = ms]
    by (intro exI [of _ "fst (route_response_loop now mt ms r)"])
      (simp add: Router_route_message_def prod_eq_iff)
qed

theorem responses_to_requesters_witness:
  "\<exists>r r'. router_reachable True r \<and>
    Router_handle_event True (\<lambda>_. 0) (Message (PeerId 2) (ModifierResponse 1 [(demo_id, [5])])) r =
      Inr (r', [])"
proof -
  let ?r = "Router_register_peer (PeerId 2) Outbound Full Router_new"
  have reach: "router_reachable True ?r"
    by (intro router_reachable.step [OF _ router_step.register] router_reachable.new)
  have reg: "PeerId 2 \<in> registered ?r" by (simp add: eval_router hm_dom_def)
  have "List.map_filter (response_action 1 (router_requests ?r)) (first_of_each [] [(demo_id, [5])]) = []"
    by (simp add: eval_router response_action_def RequestTracker_lookup_def RequestTracker_new_def
        List.map_filter_simps)
  then show ?thesis
    using reach responses_to_requesters [OF reach reg, of "\<lambda>_. 0" 1 "[(demo_id, [5])]"] by auto
qed

text \<open>The three steps of a download on any router, as facts about single events.\<close>

lemma announce_step:
  assumes "router_wf r" "p \<in> registered r"
  shows "\<exists>r' acts. Router_handle_event dbg now (Message p (Inv mt [i])) r = Inr (r', acts) \<and>
    router_wf r' \<and> router_peers r' = router_peers r \<and> InvTable_lookup i (router_inv_table r') = Some p"
proof -
  obtain e where e: "hm_get p (router_peers r) = Some e" using assms(2) by (auto simp: hm_dom_get)
  show ?thesis
    using assms(1) e
    by (intro exI [of _ "fst (route_inv p (entry_direction e) mt [i] r)"]
        exI [of _ "snd (route_inv p (entry_direction e) mt [i] r)"])
      (simp add: Router_route_message_def router_wf_def route_inv_def Let_def inv_table.wf_enter
        inv_table.look_enter)
qed

lemma request_step:
  assumes "router_wf r" "q \<in> registered r" "InvTable_lookup i (router_inv_table r) = Some p" "p \<noteq> q"
  shows "\<exists>r'. Router_handle_event dbg now (Message q (ModifierRequest mt [i])) r =
      Inr (r', [Send p (ModifierRequest mt [i])]) \<and> router_wf r' \<and> router_peers r' = router_peers r \<and>
    InvTable_lookup i (router_inv_table r') = Some p \<and>
    RequestTracker_lookup i (router_requests r') = Some q"
  using assms
  by (auto simp: hm_dom_get Router_route_message_def router_wf_def request_iteration_def
      route_request_Cons request_action_def requests.wf_enter latency.wf_enter requests.look_enter)

lemma response_step:
  assumes "router_wf r" "s \<in> registered r"
  shows "\<exists>r'. Router_handle_event dbg now (Message s (ModifierResponse mt [(i, data)])) r =
      Inr (r', case RequestTracker_lookup i (router_requests r) of
        Some q \<Rightarrow> [Send q (ModifierResponse mt [(i, data)])] | None \<Rightarrow> []) \<and>
    router_wf r' \<and> router_peers r' = router_peers r \<and>
    RequestTracker_lookup i (router_requests r') = None"
  using assms
  by (auto simp: hm_dom_get Router_route_message_def router_wf_def response_iteration_def
      route_response_Cons requests.wf_forget latency.wf_forget requests.look_forget)

text \<open>(C9) A download works end to end.  When a registered peer \<open>p\<close> announces a modifier, another
  registered peer \<open>q\<close> asks for it, and the modifier arrives, then the request goes to \<open>p\<close>, the
  modifier goes to \<open>q\<close>, and a duplicate of the response goes to nobody.  The response may come
  from any registered peer.\<close>

theorem download_end_to_end:
  assumes "router_reachable dbg r" "{p, q, s} \<subseteq> registered r" "p \<noteq> q"
  shows "\<exists>r' acts. router_run dbg now
      [Handle (Message p (Inv mt [i])), Handle (Message q (ModifierRequest mt [i])),
       Handle (Message s (ModifierResponse mt [(i, data)])),
       Handle (Message s (ModifierResponse mt [(i, data)]))] r =
    Inr (r', [acts, [Send p (ModifierRequest mt [i])],
      [Send q (ModifierResponse mt [(i, data)])], []])"
proof -
  obtain r1 acts where 1: "Router_handle_event dbg now (Message p (Inv mt [i])) r = Inr (r1, acts)"
    "router_wf r1" "router_peers r1 = router_peers r" "InvTable_lookup i (router_inv_table r1) = Some p"
    using announce_step [OF reachable_wf [OF assms(1)]] assms(2) by blast
  obtain r2 where 2: "Router_handle_event dbg now (Message q (ModifierRequest mt [i])) r1 =
      Inr (r2, [Send p (ModifierRequest mt [i])])" "router_wf r2" "router_peers r2 = router_peers r"
    "RequestTracker_lookup i (router_requests r2) = Some q"
    using request_step [OF 1(2) _ 1(4) assms(3), of dbg now mt] assms(2) 1(3) by auto
  obtain r3 where 3: "Router_handle_event dbg now (Message s (ModifierResponse mt [(i, data)])) r2 =
      Inr (r3, [Send q (ModifierResponse mt [(i, data)])])" "router_wf r3"
    "router_peers r3 = router_peers r" "RequestTracker_lookup i (router_requests r3) = None"
    using response_step [OF 2(2), of s dbg now mt i data] assms(2) 2(3,4) by auto
  obtain r4 where 4: "Router_handle_event dbg now (Message s (ModifierResponse mt [(i, data)])) r3 =
      Inr (r4, [])"
    using response_step [OF 3(2), of s dbg now mt i data] assms(2) 3(3,4) by auto
  show ?thesis using 1(1) 2(1) 3(1) 4 by simp
qed

theorem download_end_to_end_witness:
  "\<exists>r r' acts. router_reachable False r \<and> router_run False (\<lambda>_. 0)
      [Handle (Message (PeerId 2) (Inv 1 [demo_id])),
       Handle (Message (PeerId 1) (ModifierRequest 1 [demo_id])),
       Handle (Message (PeerId 2) (ModifierResponse 1 [(demo_id, [5])])),
       Handle (Message (PeerId 2) (ModifierResponse 1 [(demo_id, [5])]))] r =
    Inr (r', [acts, [Send (PeerId 2) (ModifierRequest 1 [demo_id])],
      [Send (PeerId 1) (ModifierResponse 1 [(demo_id, [5])])], []])"
proof -
  let ?r = "Router_register_peer (PeerId 2) Outbound Full
    (Router_register_peer (PeerId 1) Inbound Full Router_new)"
  have reach: "router_reachable False ?r"
    by (intro router_reachable.step [OF _ router_step.register] router_reachable.new)
  have "{PeerId 2, PeerId 1, PeerId 2} \<subseteq> registered ?r" by (simp add: eval_router hm_dom_def)
  from download_end_to_end [OF reach this, of "\<lambda>_. 0" 1 demo_id "[5]"] reach show ?thesis by auto
qed

text \<open>(C31) Of two peers waiting for the same modifier only the later one is served.  If \<open>q1\<close> and then
  \<open>q2\<close> ask for a modifier announced by \<open>p\<close>, both requests go to \<open>p\<close>, but of its two answers the
  first goes to \<open>q2\<close> and the second to nobody: \<open>q1\<close> never gets the modifier.\<close>

theorem earlier_requester_starves:
  assumes "router_reachable dbg r" "{p, q1, q2} \<subseteq> registered r" "p \<noteq> q1" "p \<noteq> q2"
  shows "\<exists>r' acts. router_run dbg now
      [Handle (Message p (Inv mt [i])), Handle (Message q1 (ModifierRequest mt [i])),
       Handle (Message q2 (ModifierRequest mt [i])),
       Handle (Message p (ModifierResponse mt [(i, data)])),
       Handle (Message p (ModifierResponse mt [(i, data)]))] r =
    Inr (r', [acts, [Send p (ModifierRequest mt [i])], [Send p (ModifierRequest mt [i])],
      [Send q2 (ModifierResponse mt [(i, data)])], []])"
proof -
  obtain r1 acts where 1: "Router_handle_event dbg now (Message p (Inv mt [i])) r = Inr (r1, acts)"
    "router_wf r1" "router_peers r1 = router_peers r" "InvTable_lookup i (router_inv_table r1) = Some p"
    using announce_step [OF reachable_wf [OF assms(1)]] assms(2) by blast
  obtain r2 where 2: "Router_handle_event dbg now (Message q1 (ModifierRequest mt [i])) r1 =
      Inr (r2, [Send p (ModifierRequest mt [i])])" "router_wf r2" "router_peers r2 = router_peers r"
    "InvTable_lookup i (router_inv_table r2) = Some p"
    using request_step [OF 1(2) _ 1(4) assms(3), of dbg now mt] assms(2) 1(3) by auto
  obtain r3 where 3: "Router_handle_event dbg now (Message q2 (ModifierRequest mt [i])) r2 =
      Inr (r3, [Send p (ModifierRequest mt [i])])" "router_wf r3" "router_peers r3 = router_peers r"
    "RequestTracker_lookup i (router_requests r3) = Some q2"
    using request_step [OF 2(2) _ 2(4) assms(4), of dbg now mt] assms(2) 2(3) by auto
  obtain r4 where 4: "Router_handle_event dbg now (Message p (ModifierResponse mt [(i, data)])) r3 =
      Inr (r4, [Send q2 (ModifierResponse mt [(i, data)])])" "router_wf r4"
    "router_peers r4 = router_peers r" "RequestTracker_lookup i (router_requests r4) = None"
    using response_step [OF 3(2), of p dbg now mt i data] assms(2) 3(3,4) by auto
  obtain r5 where 5: "Router_handle_event dbg now (Message p (ModifierResponse mt [(i, data)])) r4 =
      Inr (r5, [])"
    using response_step [OF 4(2), of p dbg now mt i data] assms(2) 4(3,4) by auto
  show ?thesis using 1(1) 2(1) 3(1) 4(1) 5 by simp
qed

theorem earlier_requester_starves_witness:
  "\<exists>r r' acts. router_reachable True r \<and> router_run True (\<lambda>_. 0)
      [Handle (Message (PeerId 2) (Inv 1 [demo_id])),
       Handle (Message (PeerId 1) (ModifierRequest 1 [demo_id])),
       Handle (Message (PeerId 3) (ModifierRequest 1 [demo_id])),
       Handle (Message (PeerId 2) (ModifierResponse 1 [(demo_id, [5])])),
       Handle (Message (PeerId 2) (ModifierResponse 1 [(demo_id, [5])]))] r =
    Inr (r', [acts, [Send (PeerId 2) (ModifierRequest 1 [demo_id])],
      [Send (PeerId 2) (ModifierRequest 1 [demo_id])],
      [Send (PeerId 3) (ModifierResponse 1 [(demo_id, [5])])], []])"
proof -
  let ?r = "Router_register_peer (PeerId 3) Inbound Full (Router_register_peer (PeerId 2) Outbound Full
    (Router_register_peer (PeerId 1) Inbound Full Router_new))"
  have reach: "router_reachable True ?r"
    by (intro router_reachable.step [OF _ router_step.register] router_reachable.new)
  have "{PeerId 2, PeerId 1, PeerId 3} \<subseteq> registered ?r" by (simp add: eval_router hm_dom_def)
  from earlier_requester_starves [OF reach this, of "\<lambda>_. 0" 1 demo_id "[5]"] reach
  show ?thesis by auto
qed



end
