(* ===== verification/Relay.thy ===== *)
theory Relay
  imports Connection Router_Delivery Config
begin

text \<open>
  The path of a message through the node: from the bytes of a peer over \<open>read_frame\<close>,
  \<open>from_frame\<close>, the router and \<open>to_frame\<close> to the bytes for another peer.
\<close>

text \<open>Messages whose frame fits the size limit and parses back.\<close>

definition sendable :: "ProtocolMessage \<Rightarrow> bool" where
  "sendable m \<longleftrightarrow> msg_ok m \<and> frame_ok (to_frame m)"

lemma received_sendable:
  assumes "from_frame f = Inr m" "frame_ok f"
  shows "sendable m"
  using from_frame_ok [OF assms(1)] assms(2) by (simp add: sendable_def frame_ok_def)

lemma single_count: "write_vlq [] 1 = [1]"
  by (simp add: write_vlq.simps)

lemma sendable_single_request:
  assumes "is_modifier_id i"
  shows "sendable (ModifierRequest mt [i])"
  using assms by (simp add: sendable_def frame_ok_def encode_bodies single_count is_modifier_id_def)

lemma sendable_single_response:
  assumes "sendable (ModifierResponse mt ms)" "p \<in> set ms"
  shows "sendable (ModifierResponse mt [p])"
proof -
  have "length (encode_modifier p) \<le> length (concat (map encode_modifier ms))"
    using assms(2) by (induction ms) auto
  then have "1 + length (encode_modifier p) \<le>
      length (write_vlq [] (of_nat (length ms))) + length (concat (map encode_modifier ms))"
    by (intro add_mono) (simp_all add: Suc_le_eq)
  then have "length (encode_modifier_response_body mt [p]) \<le> length (encode_modifier_response_body mt ms)"
    by (simp add: encode_bodies single_count)
  moreover have "modifier_ok p" using assms by (auto simp: sendable_def list_all_iff)
  ultimately show ?thesis using assms(1) by (auto simp: sendable_def frame_ok_def)
qed

lemma routed_sendable:
  assumes "sendable msg" "RequestTracker_wf (router_requests r)"
    and "Router_route_message dbg now source msg r = Inr (r', acts)" "a \<in> set acts"
  shows "sendable (sent_message a)"
proof -
  obtain t m where a: "a = Send t m" by (cases a)
  obtain entry where entry: "hm_get source (router_peers r) = Some entry"
    using assms(3,4) by (auto simp: Router_route_message_def split: option.splits)
  show ?thesis
  proof (cases msg)
    case (ModifierRequest mt ids)
    with entry assms(3,4) a have "Send t m \<in> set (snd (route_request_loop now source mt ids r))"
      by (simp add: Router_route_message_def)
    from request_targets [OF this] obtain i where "i \<in> set ids" "m = ModifierRequest mt [i]" by blast
    moreover have "is_modifier_id i"
      using assms(1) ModifierRequest \<open>i \<in> set ids\<close> by (simp add: sendable_def list_all_iff)
    ultimately show ?thesis using sendable_single_request a by simp
  next
    case (ModifierResponse mt ms)
    with entry assms(3,4) a have "Send t m \<in> set (snd (route_response_loop now mt ms r))"
      by (simp add: Router_route_message_def)
    from response_targets [OF assms(2) this] obtain p where "p \<in> set ms" "m = ModifierResponse mt [p]"
      by auto
    then show ?thesis using sendable_single_response assms(1) ModifierResponse a by simp
  next
    case (SyncInfo body)
    with entry assms(3) have "route_sync_info dbg source entry body r = Inr (r', acts)"
      by (simp add: Router_route_message_def)
    then have "m = SyncInfo body" using sync_targets assms(4) a by blast
    with assms(1) SyncInfo a show ?thesis by simp
  next
    case GetPeers
    with entry assms(3) have "acts = [Send source (Peers [])]" by (simp add: Router_route_message_def)
    with assms(4) show ?thesis by (simp add: sendable_def frame_ok_def)
  next
    case (Inv mt ids)
    with entry assms(3) have "acts = snd (route_inv source (entry_direction entry) mt ids r)"
      by (simp add: Router_route_message_def)
    then have "m = Inv mt ids" using assms(4) a by (auto simp: route_inv_def Let_def forward_to_def)
    with assms(1) Inv a show ?thesis by simp
  next
    case (Unknown c body)
    with entry assms(3)
    have "acts = forward_to (opposite (entry_direction entry)) source (Unknown c body) r"
      by (auto simp: Router_route_message_def)
    then have "m = Unknown c body" using assms(4) a forward_targets(2) by blast
    with assms(1) Unknown a show ?thesis by simp
  next
    case (Peers body)
    with entry assms(3,4) show ?thesis by (simp add: Router_route_message_def)
  qed
qed

text \<open>(C7) Whatever the node relays can be read by the receiver.  Take any frame that a peer sent and
  \<open>read_frame\<close> accepted, and parse it; for every action with which a reachable router answers, the
  frame of its message is within the size limit, and when its encoding is written to a stream of
  the same network, \<open>read_frame\<close> returns it, leaves the rest of the stream, and \<open>from_frame\<close> gives
  the message the router sent.\<close>

theorem relayed_frames_readable:
  assumes "digest32 digest" "read_frame digest (Network_magic n) s = (Inr f, rest)"
    and "from_frame f = Inr msg" "router_reachable dbg r"
    and "Router_handle_event dbg now (Message source msg) r = Inr (r', acts)" "a \<in> set acts"
  shows "let out = to_frame (sent_message a) in
    length (frame_body out) \<le> 262144 \<and> from_frame out = Inr (sent_message a) \<and>
    read_frame digest (Network_magic n) (encode digest (Network_magic n) out @ tail_bytes) = (Inr out, tail_bytes)"
proof -
  have "frame_ok f"
    using assms(1,2) read_frame_Inr_iff by (metis length_magic)
  with assms(3) have "sendable msg" by (rule received_sendable)
  moreover have "RequestTracker_wf (router_requests r)"
    using reachable_wf [OF assms(4)] by (simp add: router_wf_def)
  ultimately have "sendable (sent_message a)"
    using assms(5,6) routed_sendable by simp
  then show ?thesis
    using assms(1) by (simp add: Let_def sendable_def from_frame_to_frame read_frame_Inr_iff frame_ok_def)
qed

theorem relayed_frames_readable_witness:
  "\<exists>r r'. router_reachable True r \<and>
    Router_handle_event True (\<lambda>_. 0) (Message (PeerId 1) GetPeers) r =
      Inr (r', [Send (PeerId 1) (Peers [])]) \<and>
    from_frame (to_frame (Peers [])) = Inr (Peers [])"
proof -
  let ?d = "\<lambda>b :: bytes. replicate 32 (0 :: u8)" and ?f = "\<lparr>frame_code = 1, frame_body = []\<rparr>"
  let ?r = "Router_register_peer (PeerId 1) Inbound Full Router_new"
  have d: "digest32 ?d" by (simp add: digest32_def)
  then have read: "read_frame ?d (Network_magic Mainnet) (encode ?d (Network_magic Mainnet) ?f @ []) = (Inr ?f, [])"
    by (simp only: read_frame_Inr_iff [OF d length_magic]) (simp add: frame_ok_def)
  have parse: "from_frame ?f = Inr GetPeers" by (simp add: from_frame_def message_codes)
  have reach: "router_reachable True ?r"
    by (intro router_reachable.step [OF _ router_step.register] router_reachable.new)
  have route: "Router_handle_event True (\<lambda>_. 0) (Message (PeerId 1) GetPeers) ?r =
      Inr (?r, [Send (PeerId 1) (Peers [])])"
    by (simp add: eval_router)
  show ?thesis
    using reach route relayed_frames_readable [OF d read parse reach route, of "Send (PeerId 1) (Peers [])"]
    by (auto simp: Let_def)
qed

end
