(* ===== verification/Startup.thy ===== *)
theory Startup
  imports Connection Config
begin

text \<open>
  The start of the node: the part of \<open>main\<close> in \<open>src/main.rs\<close> before its tasks run.

  It reads the configuration, binds the configured listeners, IPv6 before IPv4, and passes to every
  listener and to the outbound manager what it needs.  The file system, the TOML parser and \<open>bind\<close>
  are arguments; the command line is a list whose first element is the program.
\<close>

definition make_handshake_config ::
    "IdentityConfig \<Rightarrow> Version \<Rightarrow> Network \<Rightarrow> ProxyMode \<Rightarrow> HandshakeConfig" where
  "make_handshake_config identity version network mode =
    \<lparr>cfg_agent_name = agent_name identity, cfg_peer_name = peer_name identity, cfg_version = version,
     cfg_network = network, cfg_mode = mode, cfg_declared_address = None\<rparr>"

text \<open>The arguments of \<open>accept_loop\<close>, and those of all tasks.\<close>

record Listener =
  lst_hs_config :: HandshakeConfig
  lst_mode :: ProxyMode
  lst_max_inbound :: nat

record Startup =
  su_listeners :: "Listener list"
  su_seeds :: "SocketAddr list"
  su_min_peers :: nat
  su_hs_config :: HandshakeConfig

datatype 'e main_error = ConfigError "'e config_error" | BindError io_error

definition start_listener :: "(SocketAddr \<Rightarrow> unit io_result) \<Rightarrow> IdentityConfig \<Rightarrow> Version \<Rightarrow> Network \<Rightarrow>
    ListenerConfig option \<Rightarrow> 'e main_error + Listener list" where
  "start_listener bind identity version network cfg =
    (case cfg of
      None \<Rightarrow> Inr []
    | Some listener_cfg \<Rightarrow>
        (case bind (listener_address listener_cfg) of
          Inl e \<Rightarrow> Inl (BindError e)
        | Inr _ \<Rightarrow>
            Inr [\<lparr>lst_hs_config =
                make_handshake_config identity version network (listener_mode listener_cfg),
              lst_mode = listener_mode listener_cfg,
              lst_max_inbound = listener_max_inbound listener_cfg\<rparr>]))"

definition config_path :: "bytes list \<Rightarrow> bytes" where
  "config_path args = (case args of _ # path # _ \<Rightarrow> path | _ \<Rightarrow> ascii ''ergo-proxy.toml'')"

definition main_startup :: "(bytes \<Rightarrow> bytes io_result) \<Rightarrow> (bytes \<Rightarrow> 'e + Config) \<Rightarrow>
    (SocketAddr \<Rightarrow> unit io_result) \<Rightarrow> bytes list \<Rightarrow> 'e main_error + Startup" where
  "main_startup read_to_string from_str bind args =
    (case Config_load read_to_string from_str (config_path args) of
      Inl e \<Rightarrow> Inl (ConfigError e)
    | Inr config \<Rightarrow>
    (case Config_version_bytes config of
      Inl e \<Rightarrow> Inl (ConfigError e)
    | Inr (ver_major, ver_minor, ver_patch) \<Rightarrow>
        let version = Version ver_major ver_minor ver_patch;
            network = proxy_network (config_proxy config);
            identity = config_identity config
        in case start_listener bind identity version network (listen_ipv6 (config_listen config)) of
          Inl e \<Rightarrow> Inl e
        | Inr ipv6 \<Rightarrow>
        (case start_listener bind identity version network (listen_ipv4 (config_listen config)) of
          Inl e \<Rightarrow> Inl e
        | Inr ipv4 \<Rightarrow>
            Inr \<lparr>su_listeners = ipv6 @ ipv4, su_seeds = seed_peers (config_outbound config),
              su_min_peers = min_peers (config_outbound config),
              su_hs_config = make_handshake_config identity version network Full\<rparr>)))"

lemma start_listener_Inr:
  "start_listener bind identity version network cfg = Inr ls \<longleftrightarrow>
    (case cfg of
      None \<Rightarrow> ls = []
    | Some c \<Rightarrow> bind (listener_address c) = Inr () \<and>
        ls = [\<lparr>lst_hs_config = make_handshake_config identity version network (listener_mode c),
          lst_mode = listener_mode c, lst_max_inbound = listener_max_inbound c\<rparr>])"
  by (auto simp: start_listener_def split: option.splits sum.splits)

lemma load_Inr:
  "Config_load read_to_string from_str path = Inr config \<Longrightarrow>
    (listen_ipv4 (config_listen config) \<noteq> None \<or> listen_ipv6 (config_listen config) \<noteq> None) \<and>
    seed_peers (config_outbound config) \<noteq> []"
  by (auto simp: Config_load_def split: sum.splits if_splits)

lemma main_startup_cases [consumes 1, case_names started]:
  fixes from_str :: "bytes \<Rightarrow> 'e + Config"
  assumes "main_startup read_to_string from_str bind args = Inr s"
  obtains config a b c ls6 ls4 where
    "Config_load read_to_string from_str (config_path args) = Inr config"
    "Config_version_bytes config = (Inr (a, b, c) :: 'e config_error + _)"
    "start_listener bind (config_identity config) (Version a b c) (proxy_network (config_proxy config))
      (listen_ipv6 (config_listen config)) = (Inr ls6 :: 'e main_error + _)"
    "start_listener bind (config_identity config) (Version a b c) (proxy_network (config_proxy config))
      (listen_ipv4 (config_listen config)) = (Inr ls4 :: 'e main_error + _)"
    "s = \<lparr>su_listeners = ls6 @ ls4, su_seeds = seed_peers (config_outbound config),
      su_min_peers = min_peers (config_outbound config),
      su_hs_config = make_handshake_config (config_identity config) (Version a b c)
        (proxy_network (config_proxy config)) Full\<rparr>"
  using assms
  by (simp add: main_startup_def Let_def split: sum.splits prod.splits)

subsection \<open>Properties\<close>


text \<open>A configuration used to exhibit the properties: one listener, one seed.\<close>

definition demo_config :: Config where
  "demo_config = \<lparr>config_proxy = \<lparr>proxy_network = Testnet\<rparr>,
    config_listen = \<lparr>listen_ipv6 = Some \<lparr>listener_address = SocketAddrV6 (replicate 16 0) 9030 0 0,
      listener_mode = Full, listener_max_inbound = 1\<rparr>, listen_ipv4 = None\<rparr>,
    config_outbound = \<lparr>min_peers = 3, max_peers = 10, seed_peers = [SocketAddrV4 [10, 0, 0, 1] 9023]\<rparr>,
    config_identity = \<lparr>agent_name = [97], peer_name = [98], protocol_version = ascii ''6.0.3''\<rparr>\<rparr>"

definition demo_handshake :: HandshakeConfig where
  "demo_handshake = \<lparr>cfg_agent_name = [97], cfg_peer_name = [98], cfg_version = Version 6 0 3,
    cfg_network = Testnet, cfg_mode = Full, cfg_declared_address = None\<rparr>"

definition demo_startup :: Startup where
  "demo_startup = \<lparr>su_listeners =
      [\<lparr>lst_hs_config = demo_handshake, lst_mode = Full, lst_max_inbound = 1\<rparr>],
    su_seeds = [SocketAddrV4 [10, 0, 0, 1] 9023], su_min_peers = 3, su_hs_config = demo_handshake\<rparr>"

lemma demo_starts:
  "main_startup (\<lambda>_. Inr []) (\<lambda>_. Inr demo_config) (\<lambda>_. Inr ()) [] = Inr demo_startup"
  by (simp add: main_startup_def Config_load_def demo_config_def Config_version_bytes_def ascii_def
      u8_from_str_def is_digit_def start_listener_def make_handshake_config_def demo_startup_def
      demo_handshake_def Let_def)


end
