(* ===== verification/Node.thy ===== *)
theory Node
  imports Relay Startup
begin

text \<open>
  The tasks of \<open>src/main.rs\<close> around the router, as transitions of one state.

  Every connection is a task that runs through the stages of \<open>run_peer\<close>; each stage ends where the
  task awaits a lock, a channel or its socket, so that the tasks interleave at these points.  The
  state has the router, the map \<open>peer_senders\<close> with the write channel of each peer (64 frames) and
  its writer task, the event channel (256 events), the counter of peer ids, the tasks of the
  connections, and what the event loop, the keepalive task and the outbound manager are doing.  The
  router's mutex is only held within one transition; the mutex of \<open>peer_senders\<close> is held by the
  event loop and by the keepalive task while they await a write channel.

  A socket is the segments that the remote side sends and a writer of any type, with its operations
  in the environment \<open>Env\<close>.  What the remote side sends is chosen when the connection is made, and
  a task reads as far as the scheduler lets it, so that nothing is assumed of the remote side.
\<close>

record 'w Env =
  env_debug :: bool
  env_digest :: "bytes \<Rightarrow> bytes"
  env_write_all :: "'w \<Rightarrow> bytes \<Rightarrow> 'w io_result"
  env_flush :: "'w \<Rightarrow> 'w io_result"
  env_socket :: 'w

definition EVENT_CAPACITY :: nat where "EVENT_CAPACITY = 256"
definition WRITE_CAPACITY :: nat where "WRITE_CAPACITY = 64"

subsection \<open>The state\<close>

datatype 'w stage =
    Shaking
  | Registering "'w Connection"
  | Announcing "'w Connection"
  | Opening "'w Connection"
  | Reading bytes BufReader
  | Posting bytes BufReader ProtocolMessage
  | Closing
  | Leaving
  | Finished

record 'w Task =
  task_direction :: Direction
  task_mode :: ProxyMode
  task_config :: HandshakeConfig
  task_segments :: "bytes list"
  task_stage :: "'w stage"

text \<open>The write channel of a peer, and its writer task: the frame being written, whether the task
  still runs, and what it was given by \<open>split\<close>.\<close>

record 'w Channel =
  chan_queue :: "Frame list"
  chan_current :: "Frame option"
  chan_open :: bool
  chan_magic :: bytes
  chan_writer :: 'w

datatype loop_state = Idle | Computed "Action list" | Delivering "Action list" | Panicked

datatype keepalive_state = Asleep | Listed "PeerId list" | Pinging "PeerId list"

datatype manager_state = Checking | Seeking "SocketAddr list" | Dialing "SocketAddr list" | Sleeping

record 'w Node =
  node_router :: Router
  node_senders :: "(PeerId, 'w Channel) hashmap"
  node_events :: "ProtocolEvent list"
  node_counter :: u64
  node_tasks :: "(PeerId, 'w Task) hashmap"
  node_loop :: loop_state
  node_keepalive :: keepalive_state
  node_manager :: manager_state
  node_backoff :: nat

definition INITIAL_BACKOFF :: nat where "INITIAL_BACKOFF = 5"
definition MAX_BACKOFF :: nat where "MAX_BACKOFF = 300"

definition Node_new :: "'w Node" where
  "Node_new = \<lparr>node_router = Router_new, node_senders = [], node_events = [], node_counter = 1,
    node_tasks = [], node_loop = Idle, node_keepalive = Asleep, node_manager = Checking,
    node_backoff = INITIAL_BACKOFF\<rparr>"

text \<open>What can be observed of a transition: an event enters or leaves the event channel, a frame
  enters the write channel of a peer or has been written to its socket.\<close>

datatype obs =
    Posted ProtocolEvent
  | Handled ProtocolEvent
  | Queued PeerId Frame
  | Written PeerId Frame

fun delivering :: "loop_state \<Rightarrow> bool" where
  "delivering (Delivering _) = True"
| "delivering _ = False"

fun pinging :: "keepalive_state \<Rightarrow> bool" where
  "pinging (Pinging _) = True"
| "pinging _ = False"

text \<open>Nobody holds the lock of \<open>peer_senders\<close>.\<close>

definition senders_free :: "'w Node \<Rightarrow> bool" where
  "senders_free n \<longleftrightarrow> \<not> delivering (node_loop n) \<and> \<not> pinging (node_keepalive n)"

subsection \<open>Listeners and the outbound manager\<close>

definition spawn_task :: "Direction \<Rightarrow> ProxyMode \<Rightarrow> HandshakeConfig \<Rightarrow> bytes list \<Rightarrow> 'w Node \<Rightarrow> 'w Node" where
  "spawn_task direction mode hs segs n =
    n\<lparr>node_counter := node_counter n + 1,
      node_tasks := hm_insert (PeerId (node_counter n))
        \<lparr>task_direction = direction, task_mode = mode, task_config = hs, task_segments = segs,
         task_stage = Shaking\<rparr> (node_tasks n)\<rparr>"

text \<open>One iteration of \<open>accept_loop\<close> with an accepted connection.\<close>

definition accept_connection :: "Listener \<Rightarrow> bytes list \<Rightarrow> 'w Node \<Rightarrow> 'w Node" where
  "accept_connection l segs n =
    (let inbound_count = length (Router_inbound_peers (node_router n))
     in if inbound_count \<ge> lst_max_inbound l then n
        else spawn_task Inbound (lst_mode l) (lst_hs_config l) segs n)"

text \<open>\<open>outbound_manager\<close> from one await to the next; \<open>dialled\<close> is the socket, if connecting to the
  seed succeeded in time.\<close>

definition outbound_manager :: "Startup \<Rightarrow> bytes list option \<Rightarrow> 'w Node \<Rightarrow> 'w Node" where
  "outbound_manager su dialled n =
    (let current = length (Router_outbound_peers (node_router n))
     in case node_manager n of
          Checking \<Rightarrow>
            n\<lparr>node_manager := if current < su_min_peers su then Seeking (su_seeds su) else Sleeping\<rparr>
        | Seeking [] \<Rightarrow> n\<lparr>node_manager := Sleeping\<rparr>
        | Seeking (addr # addrs) \<Rightarrow>
            n\<lparr>node_manager := if current \<ge> su_min_peers su then Sleeping else Dialing addrs\<rparr>
        | Dialing addrs \<Rightarrow>
            (case dialled of
              Some segs \<Rightarrow>
                (spawn_task Outbound Full (su_hs_config su) segs n)
                  \<lparr>node_backoff := INITIAL_BACKOFF, node_manager := Seeking addrs\<rparr>
            | None \<Rightarrow> n\<lparr>node_manager := Seeking addrs\<rparr>)
        | Sleeping \<Rightarrow>
            n\<lparr>node_backoff := min (node_backoff n * 2) MAX_BACKOFF, node_manager := Checking\<rparr>)"

subsection \<open>The task of a connection\<close>

definition set_stage :: "PeerId \<Rightarrow> 'w stage \<Rightarrow> 'w Node \<Rightarrow> 'w Node" where
  "set_stage p st n =
    (case hm_get p (node_tasks n) of
      Some t \<Rightarrow> n\<lparr>node_tasks := hm_insert p (t\<lparr>task_stage := st\<rparr>) (node_tasks n)\<rparr>
    | None \<Rightarrow> n)"

text \<open>The tasks that the listeners and the outbound manager spawn; a panic ends the task.\<close>

definition inbound_task ::
    "'w Env \<Rightarrow> PeerId \<Rightarrow> 'w Task \<Rightarrow> nat \<Rightarrow> bytes \<Rightarrow> bool \<Rightarrow> 'w Node \<Rightarrow> 'w Node" where
  "inbound_task env p t now_millis urandom timed_out n =
    (case Connection_inbound (env_write_all env) (env_flush env) (env_debug env) now_millis urandom
        timed_out (task_config t) (BufReader_new (task_segments t)) (env_socket env) of
      Inr (Inr conn, _) \<Rightarrow> set_stage p (Registering conn) n
    | _ \<Rightarrow> set_stage p Finished n)"

definition outbound_task ::
    "'w Env \<Rightarrow> PeerId \<Rightarrow> 'w Task \<Rightarrow> nat \<Rightarrow> bytes \<Rightarrow> bool \<Rightarrow> 'w Node \<Rightarrow> 'w Node" where
  "outbound_task env p t now_millis urandom timed_out n =
    (case Connection_outbound (env_write_all env) (env_flush env) (env_debug env) now_millis urandom
        timed_out (task_config t) (BufReader_new (task_segments t)) (env_socket env) of
      Inr (Inr conn, _) \<Rightarrow>
        if is_proxy (conn_peer_spec conn) then set_stage p Finished n
        else set_stage p (Registering conn) n
    | _ \<Rightarrow> set_stage p Finished n)"

text \<open>Sending on the event channel waits while it is full.  The receiver lives as long as the
  process, so that sending does not fail.\<close>

definition post_event :: "ProtocolEvent \<Rightarrow> 'w Node \<Rightarrow> (obs list \<times> 'w Node) option" where
  "post_event ev n =
    (if length (node_events n) < EVENT_CAPACITY
     then Some ([Posted ev], n\<lparr>node_events := node_events n @ [ev]\<rparr>) else None)"

definition run_peer :: "'w Env \<Rightarrow> PeerId \<Rightarrow> 'w Task \<Rightarrow> 'w Node \<Rightarrow> (obs list \<times> 'w Node) option" where
  "run_peer env p t n =
    (case task_stage t of
      Registering conn \<Rightarrow>
        Some ([], set_stage p (Announcing conn)
          (n\<lparr>node_router := Router_register_peer p (task_direction t) (task_mode t) (node_router n)\<rparr>))
    | Announcing conn \<Rightarrow>
        post_event (PeerConnected p (conn_peer_spec conn) (task_direction t))
          (set_stage p (Opening conn) n)
    | Opening conn \<Rightarrow>
        (case Connection_split conn of (reader, writer, magic, _) \<Rightarrow>
          if senders_free n
          then Some ([], set_stage p (Reading magic reader)
            (n\<lparr>node_senders := hm_insert p
                \<lparr>chan_queue = [], chan_current = None, chan_open = True, chan_magic = magic,
                 chan_writer = writer\<rparr> (node_senders n)\<rparr>))
          else None)
    | Reading magic reader \<Rightarrow>
        (case read_frame (env_digest env) magic (stream reader) of
          (Inr frame, rest) \<Rightarrow>
            (let reader' = \<lparr>buffer = rest, segments = []\<rparr>
             in case from_frame frame of
                  Inr msg \<Rightarrow> Some ([], set_stage p (Posting magic reader' msg) n)
                | Inl _ \<Rightarrow> Some ([], set_stage p (Reading magic reader') n))
        | (Inl _, _) \<Rightarrow> Some ([], set_stage p Closing n))
    | Posting magic reader msg \<Rightarrow>
        post_event (Message p msg) (set_stage p (Reading magic reader) n)
    | Closing \<Rightarrow>
        if senders_free n
        then Some ([], set_stage p Leaving (n\<lparr>node_senders := hm_remove p (node_senders n)\<rparr>))
        else None
    | Leaving \<Rightarrow>
        post_event (PeerDisconnected p (ascii ''connection closed'')) (set_stage p Finished n)
    | _ \<Rightarrow> None)"

subsection \<open>The event loop, the keepalive task and the writers\<close>

text \<open>Sending on a write channel waits while it is full, and fails if the writer task has ended.\<close>

definition send_frame :: "PeerId \<Rightarrow> Frame \<Rightarrow> 'w Node \<Rightarrow> (obs list \<times> 'w Node) option" where
  "send_frame p frame n =
    (case hm_get p (node_senders n) of
      None \<Rightarrow> Some ([], n)
    | Some ch \<Rightarrow>
        if \<not> chan_open ch then Some ([], n)
        else if length (chan_queue ch) < WRITE_CAPACITY
        then Some ([Queued p frame], n\<lparr>node_senders :=
          hm_insert p (ch\<lparr>chan_queue := chan_queue ch @ [frame]\<rparr>) (node_senders n)\<rparr>)
        else None)"

text \<open>The main event loop.  A failed assertion in the router ends the process.\<close>

definition event_loop :: "'w Env \<Rightarrow> (nat \<Rightarrow> nat) \<Rightarrow> 'w Node \<Rightarrow> (obs list \<times> 'w Node) option" where
  "event_loop env now n =
    (case node_loop n of
      Idle \<Rightarrow>
        (case node_events n of
          [] \<Rightarrow> None
        | ev # evs \<Rightarrow>
            (case Router_handle_event (env_debug env) now ev (node_router n) of
              Inl _ \<Rightarrow> Some ([Handled ev], n\<lparr>node_events := evs, node_loop := Panicked\<rparr>)
            | Inr (r, actions) \<Rightarrow>
                Some ([Handled ev],
                  n\<lparr>node_router := r, node_events := evs, node_loop := Computed actions\<rparr>)))
    | Computed actions \<Rightarrow>
        if senders_free n then Some ([], n\<lparr>node_loop := Delivering actions\<rparr>) else None
    | Delivering [] \<Rightarrow> Some ([], n\<lparr>node_loop := Idle\<rparr>)
    | Delivering (a # actions) \<Rightarrow>
        (case send_frame (target a) (to_frame (sent_message a)) n of
          None \<Rightarrow> None
        | Some (obs, n') \<Rightarrow> Some (obs, n'\<lparr>node_loop := Delivering actions\<rparr>))
    | Panicked \<Rightarrow> None)"

definition keepalive :: "'w Node \<Rightarrow> (obs list \<times> 'w Node) option" where
  "keepalive n =
    (case node_keepalive n of
      Asleep \<Rightarrow> Some ([], n\<lparr>node_keepalive := Listed (Router_outbound_peers (node_router n))\<rparr>)
    | Listed ps \<Rightarrow> if senders_free n then Some ([], n\<lparr>node_keepalive := Pinging ps\<rparr>) else None
    | Pinging [] \<Rightarrow> Some ([], n\<lparr>node_keepalive := Asleep\<rparr>)
    | Pinging (p # ps) \<Rightarrow>
        (case send_frame p (to_frame GetPeers) n of
          None \<Rightarrow> None
        | Some (obs, n') \<Rightarrow> Some (obs, n'\<lparr>node_keepalive := Pinging ps\<rparr>)))"

text \<open>The writer task of a peer takes the next frame, or writes the one it has; if that fails, the
  task ends, and the frames in its channel are lost.\<close>

definition write_step :: "'w Env \<Rightarrow> PeerId \<Rightarrow> 'w Channel \<Rightarrow> (obs list \<times> 'w Channel) option" where
  "write_step env p ch =
    (if \<not> chan_open ch then None
     else case chan_current ch of
         Some frame \<Rightarrow>
           (case write_frame (env_write_all env) (env_flush env) (env_digest env) (chan_writer ch)
               (chan_magic ch) frame of
             Inr w \<Rightarrow> Some ([Written p frame], ch\<lparr>chan_current := None, chan_writer := w\<rparr>)
           | Inl _ \<Rightarrow> Some ([], ch\<lparr>chan_queue := [], chan_current := None, chan_open := False\<rparr>))
       | None \<Rightarrow>
           (case chan_queue ch of
             [] \<Rightarrow> None
           | frame # frames \<Rightarrow> Some ([], ch\<lparr>chan_queue := frames, chan_current := Some frame\<rparr>)))"

definition writer :: "'w Env \<Rightarrow> PeerId \<Rightarrow> 'w Node \<Rightarrow> (obs list \<times> 'w Node) option" where
  "writer env p n =
    (case hm_get p (node_senders n) of
      None \<Rightarrow> None
    | Some ch \<Rightarrow>
        (case write_step env p ch of
          None \<Rightarrow> None
        | Some (obs, ch') \<Rightarrow>
            Some (obs, n\<lparr>node_senders := hm_insert p ch' (node_senders n)\<rparr>)))"

subsection \<open>The transition relation\<close>

text \<open>The peer ids do not wrap around: there are fewer than \<open>2^64 - 1\<close> connections.\<close>

inductive node_step :: "'w Env \<Rightarrow> Startup \<Rightarrow> 'w Node \<Rightarrow> obs list \<Rightarrow> 'w Node \<Rightarrow> bool"
  for env :: "'w Env" and su :: Startup where
  accept: "l \<in> set (su_listeners su) \<Longrightarrow> node_counter n + 1 \<noteq> 0 \<Longrightarrow>
    node_step env su n [] (accept_connection l segs n)"
| manager: "node_counter n + 1 \<noteq> 0 \<Longrightarrow> node_step env su n [] (outbound_manager su dialled n)"
| shake_in: "hm_get p (node_tasks n) = Some t \<Longrightarrow> task_stage t = Shaking \<Longrightarrow>
    task_direction t = Inbound \<Longrightarrow> node_step env su n [] (inbound_task env p t now ur timed_out n)"
| shake_out: "hm_get p (node_tasks n) = Some t \<Longrightarrow> task_stage t = Shaking \<Longrightarrow>
    task_direction t = Outbound \<Longrightarrow> node_step env su n [] (outbound_task env p t now ur timed_out n)"
| peer: "hm_get p (node_tasks n) = Some t \<Longrightarrow> run_peer env p t n = Some (obs, n') \<Longrightarrow>
    node_step env su n obs n'"
| loop: "event_loop env clock n = Some (obs, n') \<Longrightarrow> node_step env su n obs n'"
| ping: "keepalive n = Some (obs, n') \<Longrightarrow> node_step env su n obs n'"
| written: "writer env p n = Some (obs, n') \<Longrightarrow> node_step env su n obs n'"
| rehash: "distinct (map fst entries) \<Longrightarrow> set entries = set (router_peers (node_router n)) \<Longrightarrow>
    node_step env su n [] (n\<lparr>node_router := (node_router n)\<lparr>router_peers := entries\<rparr>\<rparr>)"

text \<open>Runs with what was observed; a panic of the event loop ends the process.\<close>

inductive node_run :: "'w Env \<Rightarrow> Startup \<Rightarrow> obs list \<Rightarrow> 'w Node \<Rightarrow> bool"
  for env :: "'w Env" and su :: Startup where
  start: "node_run env su [] Node_new"
| step: "node_run env su tr n \<Longrightarrow> node_loop n \<noteq> Panicked \<Longrightarrow> node_step env su n obs n' \<Longrightarrow>
    node_run env su (tr @ obs) n'"

end
