(* ===== verification/Node_Steps.thy ===== *)
theory Node_Steps
  imports Node
begin

text \<open>
  The transitions of \<open>Node\<close> in the form that the invariants use.  A step of a connection's task is a
  step of the task alone (\<open>stage_step\<close>) and an effect on what the tasks share (\<open>task_effect\<close>); the
  other transitions are described by what they leave unchanged.
\<close>

subsection \<open>Projections of the observations\<close>

definition posted :: "obs list \<Rightarrow> ProtocolEvent list" where
  "posted = List.map_filter (\<lambda>ob. case ob of Posted ev \<Rightarrow> Some ev | _ \<Rightarrow> None)"

definition handled :: "obs list \<Rightarrow> ProtocolEvent list" where
  "handled = List.map_filter (\<lambda>ob. case ob of Handled ev \<Rightarrow> Some ev | _ \<Rightarrow> None)"

definition queued :: "PeerId \<Rightarrow> obs list \<Rightarrow> Frame list" where
  "queued p = List.map_filter (\<lambda>ob. case ob of Queued q f \<Rightarrow> if q = p then Some f else None | _ \<Rightarrow> None)"

definition written :: "PeerId \<Rightarrow> obs list \<Rightarrow> Frame list" where
  "written p = List.map_filter (\<lambda>ob. case ob of Written q f \<Rightarrow> if q = p then Some f else None | _ \<Rightarrow> None)"

fun event_peer :: "ProtocolEvent \<Rightarrow> PeerId" where
  "event_peer (PeerConnected p _ _) = p"
| "event_peer (Message p _) = p"
| "event_peer (PeerDisconnected p _) = p"

abbreviation posted_by :: "PeerId \<Rightarrow> obs list \<Rightarrow> ProtocolEvent list" where
  "posted_by p tr \<equiv> filter (\<lambda>ev. event_peer ev = p) (posted tr)"

lemma map_filter_append: "List.map_filter f (xs @ ys) = List.map_filter f xs @ List.map_filter f ys"
  by (simp add: List.map_filter_def)

lemma obs_append [simp]:
  "posted (xs @ ys) = posted xs @ posted ys" "handled (xs @ ys) = handled xs @ handled ys"
  "queued p (xs @ ys) = queued p xs @ queued p ys" "written p (xs @ ys) = written p xs @ written p ys"
  by (simp_all add: posted_def handled_def queued_def written_def map_filter_append)

lemma obs_Nil [simp]: "posted [] = []" "handled [] = []" "queued p [] = []" "written p [] = []"
  by (simp_all add: posted_def handled_def queued_def written_def List.map_filter_simps)

lemma obs_single [simp]:
  "posted [Posted ev] = [ev]" "posted [Handled ev] = []" "posted [Queued q f] = []" "posted [Written q f] = []"
  "handled [Posted ev] = []" "handled [Handled ev] = [ev]" "handled [Queued q f] = []" "handled [Written q f] = []"
  "queued p [Posted ev] = []" "queued p [Handled ev] = []" "queued p [Queued q f] = (if q = p then [f] else [])"
  "queued p [Written q f] = []"
  "written p [Posted ev] = []" "written p [Handled ev] = []" "written p [Queued q f] = []"
  "written p [Written q f] = (if q = p then [f] else [])"
  by (simp_all add: posted_def handled_def queued_def written_def List.map_filter_simps)

subsection \<open>Stages\<close>

definition stage_of :: "PeerId \<Rightarrow> 'w Node \<Rightarrow> 'w stage option" where
  "stage_of p n = map_option task_stage (hm_get p (node_tasks n))"

lemma set_stage_keeps [simp]:
  "node_router (set_stage p st n) = node_router n" "node_senders (set_stage p st n) = node_senders n"
  "node_events (set_stage p st n) = node_events n" "node_counter (set_stage p st n) = node_counter n"
  "node_loop (set_stage p st n) = node_loop n" "node_keepalive (set_stage p st n) = node_keepalive n"
  "node_manager (set_stage p st n) = node_manager n" "node_backoff (set_stage p st n) = node_backoff n"
  by (simp_all add: set_stage_def split: option.splits)

lemma set_stage_task:
  "hm_get q (node_tasks (set_stage p st n)) =
    (if q = p then map_option (\<lambda>t. t\<lparr>task_stage := st\<rparr>) (hm_get p (node_tasks n))
     else hm_get q (node_tasks n))"
  by (auto simp: set_stage_def hm_simps split: option.splits)

lemma stage_of_set_stage [simp]:
  "stage_of q (set_stage p st n) =
    (if q = p \<and> stage_of p n \<noteq> None then Some st else stage_of q n)"
  by (auto simp: stage_of_def set_stage_task map_option_case split: option.splits)

lemma stage_of_tasks: "node_tasks n' = node_tasks n \<Longrightarrow> stage_of p n' = stage_of p n"
  by (simp add: stage_of_def)

lemma stage_of_task: "hm_get p (node_tasks n) = Some t \<Longrightarrow> stage_of p n = Some (task_stage t)"
  by (simp add: stage_of_def)

lemma spawn_task_keeps [simp]:
  "node_router (spawn_task d mo hs segs n) = node_router n"
  "node_senders (spawn_task d mo hs segs n) = node_senders n"
  "node_events (spawn_task d mo hs segs n) = node_events n"
  "node_loop (spawn_task d mo hs segs n) = node_loop n"
  "node_keepalive (spawn_task d mo hs segs n) = node_keepalive n"
  "node_counter (spawn_task d mo hs segs n) = node_counter n + 1"
  "hm_get q (node_tasks (spawn_task d mo hs segs n)) = (if q = PeerId (node_counter n)
    then Some \<lparr>task_direction = d, task_mode = mo, task_config = hs, task_segments = segs,
      task_stage = Shaking\<rparr> else hm_get q (node_tasks n))"
  by (simp_all add: spawn_task_def hm_simps)

lemma set_stage_update [simp]:
  "set_stage p st n\<lparr>node_events := es\<rparr> = set_stage p st (n\<lparr>node_events := es\<rparr>)"
  by (simp add: set_stage_def split: option.splits)

subsection \<open>A task on its own\<close>

text \<open>The connection that a task gets from its socket.\<close>

definition shaken :: "'w Env \<Rightarrow> 'w Task \<Rightarrow> 'w Connection \<Rightarrow> bool" where
  "shaken env t conn \<longleftrightarrow> (\<exists>now ur timed_out w.
    (if task_direction t = Inbound then Connection_inbound else Connection_outbound)
      (env_write_all env) (env_flush env) (env_debug env) now ur timed_out (task_config t)
      (BufReader_new (task_segments t)) (env_socket env) = Inr (Inr conn, w)) \<and>
    (task_direction t = Outbound \<longrightarrow> \<not> is_proxy (conn_peer_spec conn))"

inductive stage_step :: "'w Env \<Rightarrow> PeerId \<Rightarrow> 'w Task \<Rightarrow> obs list \<Rightarrow> 'w stage \<Rightarrow> bool"
  for env :: "'w Env" and p :: PeerId and t :: "'w Task" where
  refuse: "task_stage t = Shaking \<Longrightarrow> stage_step env p t [] Finished"
| admit: "task_stage t = Shaking \<Longrightarrow> shaken env t conn \<Longrightarrow> stage_step env p t [] (Registering conn)"
| register: "task_stage t = Registering conn \<Longrightarrow> stage_step env p t [] (Announcing conn)"
| announce: "task_stage t = Announcing conn \<Longrightarrow>
    stage_step env p t [Posted (PeerConnected p (conn_peer_spec conn) (task_direction t))] (Opening conn)"
| opened: "task_stage t = Opening conn \<Longrightarrow>
    stage_step env p t [] (Reading (conn_magic conn) (conn_reader conn))"
| skip: "task_stage t = Reading magic r \<Longrightarrow>
    read_frame (env_digest env) magic (stream r) = (Inr frame, rest) \<Longrightarrow> from_frame frame = Inl e \<Longrightarrow>
    stage_step env p t [] (Reading magic \<lparr>buffer = rest, segments = []\<rparr>)"
| receive: "task_stage t = Reading magic r \<Longrightarrow>
    read_frame (env_digest env) magic (stream r) = (Inr frame, rest) \<Longrightarrow> from_frame frame = Inr msg \<Longrightarrow>
    stage_step env p t [] (Posting magic \<lparr>buffer = rest, segments = []\<rparr> msg)"
| lose: "task_stage t = Reading magic r \<Longrightarrow>
    read_frame (env_digest env) magic (stream r) = (Inl e, rest) \<Longrightarrow> stage_step env p t [] Closing"
| post: "task_stage t = Posting magic r msg \<Longrightarrow>
    stage_step env p t [Posted (Message p msg)] (Reading magic r)"
| close: "task_stage t = Closing \<Longrightarrow> stage_step env p t [] Leaving"
| leave: "task_stage t = Leaving \<Longrightarrow>
    stage_step env p t [Posted (PeerDisconnected p (ascii ''connection closed''))] Finished"

text \<open>What such a step does to the rest of the node.\<close>

definition task_effect :: "PeerId \<Rightarrow> 'w Task \<Rightarrow> obs list \<Rightarrow> 'w Node \<Rightarrow> 'w Node" where
  "task_effect p t obs n =
    (case task_stage t of
      Registering _ \<Rightarrow>
        n\<lparr>node_router := Router_register_peer p (task_direction t) (task_mode t) (node_router n)\<rparr>
    | Opening conn \<Rightarrow>
        n\<lparr>node_senders := hm_insert p \<lparr>chan_queue = [], chan_current = None, chan_open = True,
          chan_magic = conn_magic conn, chan_writer = conn_writer conn\<rparr> (node_senders n)\<rparr>
    | Closing \<Rightarrow> n\<lparr>node_senders := hm_remove p (node_senders n)\<rparr>
    | _ \<Rightarrow> n)\<lparr>node_events := node_events n @ posted obs\<rparr>"

fun needs_lock :: "'w stage \<Rightarrow> bool" where
  "needs_lock (Opening _) = True"
| "needs_lock Closing = True"
| "needs_lock _ = False"

lemma task_effect_keeps [simp]:
  "node_counter (task_effect p t obs n) = node_counter n"
  "node_tasks (task_effect p t obs n) = node_tasks n" "node_loop (task_effect p t obs n) = node_loop n"
  "node_keepalive (task_effect p t obs n) = node_keepalive n"
  "node_manager (task_effect p t obs n) = node_manager n"
  "node_backoff (task_effect p t obs n) = node_backoff n"
  "node_events (task_effect p t obs n) = node_events n @ posted obs"
  by (simp_all add: task_effect_def split: stage.splits)

lemma task_effect_none: "task_effect p t [] n = n" if "task_stage t \<in> {Shaking, Leaving, Finished}"
  using that by (auto simp: task_effect_def)

lemma run_peer_step:
  assumes "run_peer env p t n = Some (obs, n')"
  obtains st where "stage_step env p t obs st" "n' = set_stage p st (task_effect p t obs n)"
    "needs_lock (task_stage t) \<Longrightarrow> senders_free n"
    "posted obs \<noteq> [] \<Longrightarrow> length (node_events n) < EVENT_CAPACITY"
proof (cases "task_stage t")
  case (Reading magic r)
  with assms show ?thesis
    by (auto simp: run_peer_def task_effect_def Let_def split: prod.splits sum.splits
        intro: that stage_step.intros)
qed (use assms in \<open>auto simp: run_peer_def post_event_def task_effect_def Connection_split_def
    split: if_splits intro: that stage_step.intros\<close>)

lemma inbound_task_cases:
  assumes "task_direction t = Inbound"
  shows "inbound_task env p t now ur timed_out n = set_stage p Finished n \<or>
    (\<exists>conn. shaken env t conn \<and> inbound_task env p t now ur timed_out n = set_stage p (Registering conn) n)"
  unfolding inbound_task_def shaken_def using assms by (simp split: sum.splits prod.splits) blast

lemma outbound_task_cases:
  assumes "task_direction t = Outbound"
  shows "outbound_task env p t now ur timed_out n = set_stage p Finished n \<or>
    (\<exists>conn. shaken env t conn \<and> outbound_task env p t now ur timed_out n = set_stage p (Registering conn) n)"
  unfolding outbound_task_def shaken_def using assms by (simp split: sum.splits prod.splits) blast

lemma shake_step:
  assumes "task_stage t = Shaking"
    and "n' = set_stage p Finished n \<or> (\<exists>conn. shaken env t conn \<and> n' = set_stage p (Registering conn) n)"
  obtains st where "stage_step env p t [] st" "n' = set_stage p st (task_effect p t [] n)"
  using assms task_effect_none [of t p n] stage_step.refuse stage_step.admit by fastforce

subsection \<open>The other transitions\<close>

lemma send_frame_cases [consumes 1, case_names dropped enqueued]:
  assumes "send_frame p f n = Some (obs, n')"
  obtains "obs = []" "n' = n" "\<And>ch. hm_get p (node_senders n) = Some ch \<Longrightarrow> \<not> chan_open ch"
  | ch where "hm_get p (node_senders n) = Some ch" "chan_open ch"
    "length (chan_queue ch) < WRITE_CAPACITY" "obs = [Queued p f]"
    "n' = n\<lparr>node_senders := hm_insert p (ch\<lparr>chan_queue := chan_queue ch @ [f]\<rparr>) (node_senders n)\<rparr>"
  using assms by (auto simp: send_frame_def split: option.splits if_splits)

text \<open>Transitions that only move frames: they neither post nor handle an event, and change neither
  the tasks nor the set of channels.\<close>

definition frames_only :: "obs list \<Rightarrow> 'w Node \<Rightarrow> 'w Node \<Rightarrow> bool" where
  "frames_only obs n n' \<longleftrightarrow> posted obs = [] \<and> handled obs = [] \<and> node_router n' = node_router n \<and>
    node_events n' = node_events n \<and> node_counter n' = node_counter n \<and>
    node_tasks n' = node_tasks n \<and> hm_dom (node_senders n') = hm_dom (node_senders n)"

lemma send_frame_keeps:
  assumes "send_frame p f n = Some (obs, n')"
  shows "frames_only obs n n'" "node_loop n' = node_loop n" "node_keepalive n' = node_keepalive n"
    "node_manager n' = node_manager n" "node_backoff n' = node_backoff n"
  using assms
  by (cases rule: send_frame_cases; auto simp: frames_only_def hm_dom_get)+

lemma frames_only_loop [simp]:
  "frames_only obs n (n'\<lparr>node_loop := l\<rparr>) = frames_only obs n n'"
  "frames_only obs n (n'\<lparr>node_keepalive := k\<rparr>) = frames_only obs n n'"
  by (simp_all add: frames_only_def)

lemma frames_only_refl [simp]: "frames_only [] n n"
  by (simp add: frames_only_def)

lemma event_loop_cases [consumes 1, case_names handle panic lock finish deliver]:
  assumes "event_loop env now n = Some (obs, n')"
  obtains ev evs r actions where "node_loop n = Idle" "node_events n = ev # evs" "obs = [Handled ev]"
      "Router_handle_event (env_debug env) now ev (node_router n) = Inr (r, actions)"
      "n' = n\<lparr>node_router := r, node_events := evs, node_loop := Computed actions\<rparr>"
  | ev evs where "node_loop n = Idle" "node_events n = ev # evs" "obs = [Handled ev]"
      "Router_handle_event (env_debug env) now ev (node_router n) = Inl DebugAssert"
      "n' = n\<lparr>node_events := evs, node_loop := Panicked\<rparr>"
  | actions where "node_loop n = Computed actions" "obs = []" "senders_free n"
      "n' = n\<lparr>node_loop := Delivering actions\<rparr>"
  | "node_loop n = Delivering []" "obs = []" "n' = n\<lparr>node_loop := Idle\<rparr>"
  | a actions n1 where "node_loop n = Delivering (a # actions)"
      "send_frame (target a) (to_frame (sent_message a)) n = Some (obs, n1)"
      "n' = n1\<lparr>node_loop := Delivering actions\<rparr>"
  using assms that
  by (cases "node_loop n")
    (auto simp: event_loop_def split: list.splits sum.splits if_splits option.splits intro: panic.exhaust)

lemma keepalive_cases [consumes 1, case_names list lock finish deliver]:
  assumes "keepalive n = Some (obs, n')"
  obtains "node_keepalive n = Asleep" "obs = []"
      "n' = n\<lparr>node_keepalive := Listed (Router_outbound_peers (node_router n))\<rparr>"
  | ps where "node_keepalive n = Listed ps" "obs = []" "senders_free n"
      "n' = n\<lparr>node_keepalive := Pinging ps\<rparr>"
  | "node_keepalive n = Pinging []" "obs = []" "n' = n\<lparr>node_keepalive := Asleep\<rparr>"
  | p ps n1 where "node_keepalive n = Pinging (p # ps)"
      "send_frame p (to_frame GetPeers) n = Some (obs, n1)" "n' = n1\<lparr>node_keepalive := Pinging ps\<rparr>"
  using assms that
  by (cases "node_keepalive n") (auto simp: keepalive_def split: list.splits if_splits option.splits)

lemma writer_cases [consumes 1, case_names written]:
  assumes "writer env p n = Some (obs, n')"
  obtains ch ch' where "hm_get p (node_senders n) = Some ch" "write_step env p ch = Some (obs, ch')"
    "n' = n\<lparr>node_senders := hm_insert p ch' (node_senders n)\<rparr>"
  using assms by (auto simp: writer_def split: option.splits)

lemma write_step_obs:
  "write_step env p ch = Some (obs, ch') \<Longrightarrow> posted obs = [] \<and> handled obs = [] \<and> queued q obs = []"
  by (auto simp: write_step_def split: if_splits option.splits list.splits sum.splits)

lemma frames_only_loop_step:
  assumes "event_loop env now n = Some (obs, n')" "node_loop n \<noteq> Idle"
  shows "frames_only obs n n'"
  using assms(1)
proof (cases rule: event_loop_cases)
  case (deliver a actions n1)
  then show ?thesis using send_frame_keeps [OF deliver(2)] by simp
qed (use assms(2) in simp_all)

lemma frames_only_ping: "keepalive n = Some (obs, n') \<Longrightarrow> frames_only obs n n'"
  by (cases rule: keepalive_cases) (use send_frame_keeps in fastforce)+

lemma frames_only_written: "writer env p n = Some (obs, n') \<Longrightarrow> frames_only obs n n'"
  by (cases rule: writer_cases) (use write_step_obs in \<open>fastforce simp: frames_only_def hm_dom_get\<close>)+

subsection \<open>All transitions\<close>

text \<open>A transition is one of a task, of the event loop, of the keepalive task or of a writer, starts a
  task, changes only the outbound manager, or reorders the registry.\<close>

lemma node_step_elim [consumes 1, case_names idle spawn peer loop ping written rehash]:
  assumes "node_step env su n obs n'"
  obtains b m where "obs = []" "n' = n\<lparr>node_backoff := b, node_manager := m\<rparr>"
  | d mo hs segs b m where "obs = []" "node_counter n + 1 \<noteq> 0"
      "n' = (spawn_task d mo hs segs n)\<lparr>node_backoff := b, node_manager := m\<rparr>"
  | p t st where "hm_get p (node_tasks n) = Some t" "stage_step env p t obs st"
      "n' = set_stage p st (task_effect p t obs n)" "needs_lock (task_stage t) \<Longrightarrow> senders_free n"
      "posted obs \<noteq> [] \<Longrightarrow> length (node_events n) < EVENT_CAPACITY"
  | now where "event_loop env now n = Some (obs, n')"
  | "keepalive n = Some (obs, n')"
  | p where "writer env p n = Some (obs, n')"
  | entries where "obs = []" "distinct (map fst entries)"
      "set entries = set (router_peers (node_router n))"
      "n' = n\<lparr>node_router := (node_router n)\<lparr>router_peers := entries\<rparr>\<rparr>"
  using assms
proof (cases rule: node_step.cases)
  case (accept l segs)
  let ?s = "spawn_task Inbound (lst_mode l) (lst_hs_config l) segs n"
  have "?s = ?s\<lparr>node_backoff := node_backoff n, node_manager := node_manager n\<rparr>"
    by (simp add: spawn_task_def)
  with accept show ?thesis
    using that(1) [OF accept(1), where b = "node_backoff n" and m = "node_manager n"] that(2) [OF accept(1,4)]
    by (cases "lst_max_inbound l \<le> length (Router_inbound_peers (node_router n))")
      (auto simp: accept_connection_def)
next
  case (manager dialled)
  note only_manager = that(1) [OF manager(1)]
  have idle: thesis if "n' = n\<lparr>node_manager := m\<rparr>" for m
  proof (rule only_manager)
    show "n' = n\<lparr>node_backoff := node_backoff n, node_manager := m\<rparr>" using that by simp
  qed
  show ?thesis
  proof (cases "\<exists>addrs segs. node_manager n = Dialing addrs \<and> dialled = Some segs")
    case True
    then show ?thesis using manager that(2) by (auto simp: outbound_manager_def)
  next
    case False
    then show ?thesis
      using manager idle that(1)
      by (auto simp: outbound_manager_def Let_def split: manager_state.splits list.splits option.splits)
  qed
next
  case (shake_in p t now ur timed_out)
  obtain st where "stage_step env p t [] st" "n' = set_stage p st (task_effect p t [] n)"
    using shake_step [OF shake_in(4)] inbound_task_cases [OF shake_in(5)] shake_in(2) by metis
  then show ?thesis using that(3) [OF shake_in(3)] shake_in(1,4) by simp
next
  case (shake_out p t now ur timed_out)
  obtain st where "stage_step env p t [] st" "n' = set_stage p st (task_effect p t [] n)"
    using shake_step [OF shake_out(4)] outbound_task_cases [OF shake_out(5)] shake_out(2) by metis
  then show ?thesis using that(3) [OF shake_out(3)] shake_out(1,4) by simp
next
  case (peer p t)
  from peer(2) show ?thesis by (rule run_peer_step) (rule that(3) [OF peer(1)])
qed (use that(4-7) in blast)+

text \<open>The transitions by what they do to the router, the events, the tasks and the set of channels.\<close>

lemma node_step_cases [consumes 1, case_names quiet spawn peer handle panic rehash]:
  assumes "node_step env su n obs n'"
  obtains "frames_only obs n n'"
  | d mo hs segs b m where "obs = []" "node_counter n + 1 \<noteq> 0"
      "n' = (spawn_task d mo hs segs n)\<lparr>node_backoff := b, node_manager := m\<rparr>"
  | p t st where "hm_get p (node_tasks n) = Some t" "stage_step env p t obs st"
      "n' = set_stage p st (task_effect p t obs n)" "needs_lock (task_stage t) \<Longrightarrow> senders_free n"
      "posted obs \<noteq> [] \<Longrightarrow> length (node_events n) < EVENT_CAPACITY"
  | now ev es r actions where "obs = [Handled ev]" "node_loop n = Idle" "node_events n = ev # es"
      "Router_handle_event (env_debug env) now ev (node_router n) = Inr (r, actions)"
      "n' = n\<lparr>node_router := r, node_events := es, node_loop := Computed actions\<rparr>"
  | now ev es where "obs = [Handled ev]" "node_events n = ev # es" "node_loop n = Idle"
      "Router_handle_event (env_debug env) now ev (node_router n) = Inl DebugAssert"
      "n' = n\<lparr>node_events := es, node_loop := Panicked\<rparr>"
  | entries where "obs = []" "distinct (map fst entries)"
      "set entries = set (router_peers (node_router n))"
      "n' = n\<lparr>node_router := (node_router n)\<lparr>router_peers := entries\<rparr>\<rparr>"
  using assms
proof (cases rule: node_step_elim)
  case (idle b m)
  then show ?thesis using that(1) by (simp add: frames_only_def)
next
  case (loop now)
  show ?thesis
  proof (cases "node_loop n = Idle")
    case False
    then show ?thesis using that(1) frames_only_loop_step [OF loop] by blast
  next
    case True
    from loop show ?thesis by (cases rule: event_loop_cases) (use True that(4,5) in auto)
  qed
next
  case ping
  then show ?thesis using that(1) frames_only_ping by blast
next
  case (written p)
  then show ?thesis using that(1) frames_only_written by blast
qed (use that(2,3,6) in blast)+

end
