(* ===== verification/Node_Invariants.thy ===== *)
theory Node_Invariants
  imports Node_Steps
begin

text \<open>
  Invariants of the node: peer ids are unique, the registry of the router and the write channels
  follow the stages of the tasks, and the lock of the channels has at most one holder.
\<close>

subsection \<open>The router of a node\<close>

lemma node_router_reachable: "node_run env su tr n \<Longrightarrow> router_reachable (env_debug env) (node_router n)"
proof (induction rule: node_run.induct)
  case start
  show ?case by (simp add: Node_new_def router_reachable.new)
next
  case (step tr n obs n')
  note reach = router_reachable.step [OF step.IH]
  from step(3) show ?case
  proof (cases rule: node_step_cases)
    case (peer p t st)
    then show ?thesis
      using step.IH reach [OF router_step.register] by (simp add: task_effect_def split: stage.splits)
  next
    case (handle now ev es r actions)
    then show ?thesis using reach [OF router_step.event] by simp
  next
    case (rehash entries)
    then show ?thesis using reach [OF router_step.rehash] by simp
  qed (use step.IH in \<open>simp_all add: frames_only_def\<close>)
qed

lemma node_router_ok: "node_run env su tr n \<Longrightarrow> router_ok (node_router n)"
  using reachable_ok node_router_reachable by blast

subsection \<open>Peer ids\<close>

definition ids_inv :: "'w Node \<Rightarrow> bool" where
  "ids_inv n \<longleftrightarrow> (\<forall>k. stage_of (PeerId k) n \<noteq> None \<longrightarrow> k < node_counter n)"

lemma ids_fresh: "ids_inv n \<Longrightarrow> hm_get (PeerId (node_counter n)) (node_tasks n) = None"
  unfolding ids_inv_def stage_of_def by (metis less_irrefl option.map_disc_iff)

lemma counter_less: "c + 1 \<noteq> 0 \<Longrightarrow> c < c + 1" for c :: u64
  using unatSuc [of c] by (simp add: word_less_nat_alt add.commute)

lemma ids_inv_step:
  assumes "ids_inv n" "node_step env su n obs n'"
  shows "ids_inv n'"
  using assms(2)
proof (cases rule: node_step_cases)
  case (spawn d mo hs segs b m)
  have "k < node_counter n + 1" if "k < node_counter n \<or> k = node_counter n" for k
    using that counter_less [OF spawn(2)] by auto
  with assms(1) spawn(3) show ?thesis by (auto simp: ids_inv_def stage_of_def split: if_splits)
next
  case (peer p t st)
  then show ?thesis using assms(1) by (auto simp: ids_inv_def stage_of_def set_stage_task split: if_splits)
qed (use assms(1) in \<open>simp_all add: ids_inv_def stage_of_def frames_only_def\<close>)

lemma node_run_ids: "node_run env su tr n \<Longrightarrow> ids_inv n"
proof (induction rule: node_run.induct)
  case start
  show ?case by (simp add: ids_inv_def Node_new_def stage_of_def hm_simps)
qed (rule ids_inv_step)

subsection \<open>The registry and the channels follow the tasks\<close>

fun registered_stage :: "'w stage \<Rightarrow> bool" where
  "registered_stage Shaking = False"
| "registered_stage (Registering _) = False"
| "registered_stage Finished = False"
| "registered_stage _ = True"

fun open_stage :: "'w stage \<Rightarrow> bool" where
  "open_stage (Reading _ _) = True"
| "open_stage (Posting _ _ _) = True"
| "open_stage Closing = True"
| "open_stage _ = False"

abbreviation in_stage :: "('w stage \<Rightarrow> bool) \<Rightarrow> PeerId \<Rightarrow> 'w Node \<Rightarrow> bool" where
  "in_stage P p n \<equiv> (\<exists>st. stage_of p n = Some st \<and> P st)"

text \<open>The peers whose \<open>PeerDisconnected\<close> event is in the channel.\<close>

definition leavers :: "ProtocolEvent list \<Rightarrow> PeerId list" where
  "leavers = List.map_filter (\<lambda>ev. case ev of PeerDisconnected p _ \<Rightarrow> Some p | _ \<Rightarrow> None)"

lemma leavers_simps [simp]:
  "leavers [] = []" "leavers (PeerDisconnected p reason # es) = p # leavers es"
  "leavers (PeerConnected p spec d # es) = leavers es" "leavers (Message p m # es) = leavers es"
  "leavers (xs @ ys) = leavers xs @ leavers ys"
  by (simp_all add: leavers_def List.map_filter_simps map_filter_append)

definition registry_inv :: "'w Node \<Rightarrow> bool" where
  "registry_inv n \<longleftrightarrow> distinct (leavers (node_events n)) \<and>
    (\<forall>p \<in> set (leavers (node_events n)). stage_of p n = Some Finished) \<and>
    registered (node_router n) = {p. in_stage registered_stage p n} \<union> set (leavers (node_events n)) \<and>
    hm_dom (node_senders n) = {p. in_stage open_stage p n}"

lemma registry_inv_spawn:
  assumes "ids_inv n" "registry_inv n" "n' = (spawn_task d mo hs segs n)\<lparr>node_backoff := b, node_manager := m\<rparr>"
  shows "registry_inv n'"
proof -
  let ?p = "PeerId (node_counter n)"
  have stages: "stage_of q n' = (if q = ?p then Some Shaking else stage_of q n)" for q
    by (simp add: assms(3) stage_of_def)
  have fresh: "stage_of ?p n = None" using ids_fresh [OF assms(1)] by (simp add: stage_of_def)
  then have "in_stage P q n' \<longleftrightarrow> in_stage P q n" if "\<not> P Shaking" for P q
    using that stages by auto
  moreover have "stage_of q n' = Some Finished" if "stage_of q n = Some Finished" for q
    using that stages fresh by auto
  ultimately show ?thesis
    using assms(2) by (simp add: registry_inv_def assms(3))
qed

lemma registry_inv_handle:
  assumes inv: "registry_inv n" and events: "node_events n = ev # es"
    and handle: "Router_handle_event dbg now ev (node_router n) = Inr (r, actions)"
    and ok: "router_ok (node_router n)"
  shows "registry_inv (n\<lparr>node_router := r, node_events := es, node_loop := l\<rparr>)"
proof (cases ev)
  case (PeerDisconnected p reason)
  then have "registered r = registered (node_router n) - {p}"
    using handle router_ok_disconnect(3) [OF ok] by simp
  moreover have "stage_of p n = Some Finished" "p \<notin> set (leavers es)"
    using inv events PeerDisconnected by (auto simp: registry_inv_def)
  ultimately show ?thesis
    using inv events PeerDisconnected by (auto simp: registry_inv_def stage_of_def)
next
  case (Message p m)
  then have "router_peers r = router_peers (node_router n)"
    using handle router_ok_message(3) [OF ok] by simp
  then show ?thesis
    using inv events Message by (simp add: registry_inv_def stage_of_def)
next
  case (PeerConnected p spec d)
  then show ?thesis
    using inv events handle by (simp add: registry_inv_def stage_of_def)
qed

lemma registry_inv_move:
  assumes "registry_inv n" "stage_of p n = Some s0" "s0 \<noteq> Finished"
    and "\<And>q. stage_of q n' = (if q = p then Some s1 else stage_of q n)"
    and "registered (node_router n') = (if registered_stage s1 then insert p (registered (node_router n))
      else registered (node_router n))"
    and "hm_dom (node_senders n') = (if open_stage s1 then insert p (hm_dom (node_senders n))
      else hm_dom (node_senders n) - {p})"
    and "leavers (node_events n') = leavers (node_events n) @ new"
    and "registered_stage s0 \<and> \<not> registered_stage s1 \<and> s1 = Finished \<and> new = [p] \<or>
      (registered_stage s0 \<longrightarrow> registered_stage s1) \<and> new = []"
  shows "registry_inv n'"
proof -
  have "p \<notin> set (leavers (node_events n))" using assms(1-3) by (auto simp: registry_inv_def)
  with assms show ?thesis by (auto simp: registry_inv_def)
qed

lemma registry_inv_peer:
  assumes inv: "registry_inv n" and task: "hm_get p (node_tasks n) = Some t"
    and step: "stage_step env p t obs st" and n': "n' = set_stage p st (task_effect p t obs n)"
  shows "registry_inv n'"
proof (rule registry_inv_move [OF inv stage_of_task [OF task], where ?s1.0 = st])
  show live: "task_stage t \<noteq> Finished" using step by (auto elim: stage_step.cases)
  show "stage_of q n' = (if q = p then Some st else stage_of q n)" for q
    using task by (auto simp: n' stage_of_def set_stage_task)
  have mem: "p \<in> registered (node_router n) \<longleftrightarrow> registered_stage (task_stage t)"
      "p \<in> hm_dom (node_senders n) \<longleftrightarrow> open_stage (task_stage t)"
    using inv live stage_of_task [OF task] by (auto simp: registry_inv_def)
  show "registered (node_router n') = (if registered_stage st then insert p (registered (node_router n))
      else registered (node_router n))"
    using step mem by cases (auto simp: n' task_effect_def Router_register_peer_def)
  show "hm_dom (node_senders n') = (if open_stage st then insert p (hm_dom (node_senders n))
      else hm_dom (node_senders n) - {p})"
    using step mem by cases (auto simp: n' task_effect_def)
  show "leavers (node_events n') = leavers (node_events n) @ leavers (posted obs)"
    by (simp add: n')
  show "registered_stage (task_stage t) \<and> \<not> registered_stage st \<and> st = Finished \<and>
        leavers (posted obs) = [p] \<or>
      (registered_stage (task_stage t) \<longrightarrow> registered_stage st) \<and> leavers (posted obs) = []"
    using step by cases auto
qed

lemma registry_inv_same:
  assumes "registry_inv n" "node_tasks n' = node_tasks n" "node_events n' = node_events n"
    "registered (node_router n') = registered (node_router n)"
    "hm_dom (node_senders n') = hm_dom (node_senders n)"
  shows "registry_inv n'"
  using assms by (simp add: registry_inv_def stage_of_def)

lemma registry_inv_step:
  assumes "registry_inv n" "ids_inv n" "router_ok (node_router n)" "node_step env su n obs n'"
    "node_loop n' \<noteq> Panicked"
  shows "registry_inv n'"
  using assms(4)
proof (cases rule: node_step_cases)
  case quiet
  then show ?thesis using assms(1) registry_inv_same [of n n'] by (simp add: frames_only_def)
next
  case (spawn d mo hs segs b m)
  then show ?thesis using assms(1,2) registry_inv_spawn by blast
next
  case (peer p t st)
  then show ?thesis using assms(1) registry_inv_peer by blast
next
  case (handle now ev es r actions)
  then show ?thesis using assms(1) registry_inv_handle [OF _ _ _ assms(3)] by blast
next
  case (rehash entries)
  then show ?thesis
    using assms(1) hm_dom_perm [OF rehash(3)] registry_inv_same [of n n'] by simp
qed (use assms(5) in simp)

lemma node_run_registry:
  assumes "node_run env su tr n" "node_loop n \<noteq> Panicked"
  shows "registry_inv n"
  using assms
proof (induction rule: node_run.induct)
  case start
  show ?case
    by (simp add: registry_inv_def Node_new_def stage_of_def hm_simps Router_new_def)
next
  case (step tr n obs n')
  then show ?case
    using registry_inv_step node_run_ids [OF step(1)] node_router_ok [OF step(1)] by blast
qed

subsection \<open>The lock of the channels\<close>

definition lock_inv :: "'w Node \<Rightarrow> bool" where
  "lock_inv n \<longleftrightarrow> \<not> (delivering (node_loop n) \<and> pinging (node_keepalive n))"

lemma lock_inv_step:
  assumes "lock_inv n" "node_step env su n obs n'"
  shows "lock_inv n'"
  using assms(2)
proof (cases rule: node_step_elim)
  case (loop now)
  then show ?thesis
  proof (cases rule: event_loop_cases)
    case (deliver a actions n1)
    then show ?thesis using assms(1) send_frame_keeps [OF deliver(2)] by (simp add: lock_inv_def)
  qed (use assms(1) in \<open>auto simp: lock_inv_def senders_free_def\<close>)
next
  case ping
  then show ?thesis
  proof (cases rule: keepalive_cases)
    case (deliver p ps n1)
    then show ?thesis using assms(1) send_frame_keeps [OF deliver(2)] by (simp add: lock_inv_def)
  qed (use assms(1) in \<open>auto simp: lock_inv_def senders_free_def\<close>)
next
  case (written p)
  then show ?thesis by (rule writer_cases) (use assms(1) in \<open>simp add: lock_inv_def\<close>)
qed (use assms(1) in \<open>simp_all add: lock_inv_def\<close>)

lemma node_run_lock: "node_run env su tr n \<Longrightarrow> lock_inv n"
proof (induction rule: node_run.induct)
  case start
  show ?case by (simp add: lock_inv_def Node_new_def)
qed (rule lock_inv_step)

end
