(* ===== verification/Node_Runs.thy ===== *)
theory Node_Runs
  imports Node_Invariants
begin

text \<open>
  Constructing runs of the node: reachability step by step, and the states of a node with a single
  inbound connection, from its acceptance to the reader loop.
\<close>

definition node_reachable :: "'w Env \<Rightarrow> Startup \<Rightarrow> 'w Node \<Rightarrow> bool" where
  "node_reachable env su n \<longleftrightarrow> (\<exists>tr. node_run env su tr n)"

lemma reach_new: "node_reachable env su Node_new"
  unfolding node_reachable_def by (blast intro: node_run.start)

lemma reach_step:
  "node_reachable env su n \<Longrightarrow> node_loop n \<noteq> Panicked \<Longrightarrow> node_step env su n obs n' \<Longrightarrow>
    node_reachable env su n'"
  unfolding node_reachable_def by (blast intro: node_run.step)

lemma reach_accept:
  assumes "node_reachable env su n" "node_loop n \<noteq> Panicked" "l \<in> set (su_listeners su)"
    "node_counter n + 1 \<noteq> 0" "length (Router_inbound_peers (node_router n)) < lst_max_inbound l"
  shows "node_reachable env su (spawn_task Inbound (lst_mode l) (lst_hs_config l) segs n)"
  using reach_step [OF assms(1,2) node_step.accept [OF assms(3,4), of env segs]] assms(5)
  by (simp add: accept_connection_def)

lemma reach_admit:
  assumes "node_reachable env su n" "node_loop n \<noteq> Panicked" "hm_get p (node_tasks n) = Some t"
    "task_stage t = Shaking" "task_direction t = Inbound"
    "Connection_inbound (env_write_all env) (env_flush env) (env_debug env) now ur timed_out
      (task_config t) (BufReader_new (task_segments t)) (env_socket env) = Inr (Inr conn, w)"
  shows "node_reachable env su (set_stage p (Registering conn) n)"
  using reach_step [OF assms(1,2) node_step.shake_in [OF assms(3-5), of env su now ur timed_out]]
    assms(6) by (simp add: inbound_task_def)

lemma reach_peer:
  assumes "node_reachable env su n" "node_loop n \<noteq> Panicked" "hm_get p (node_tasks n) = Some t"
    "run_peer env p t n = Some (obs, n')"
  shows "node_reachable env su n'"
  using reach_step [OF assms(1,2) node_step.peer [OF assms(3,4)]] .

lemma reach_loop:
  assumes "node_reachable env su n" "event_loop env now n = Some (obs, n')"
  shows "node_reachable env su n'"
  using reach_step [OF assms(1) _ node_step.loop [OF assms(2)]] assms(2)
  by (cases "node_loop n = Panicked") (simp_all add: event_loop_def)

subsection \<open>A node with one connection\<close>

abbreviation inbound_peer :: "Listener \<Rightarrow> bytes list \<Rightarrow> 'w stage \<Rightarrow> 'w Task" where
  "inbound_peer l segs st \<equiv> \<lparr>task_direction = Inbound, task_mode = lst_mode l,
    task_config = lst_hs_config l, task_segments = segs, task_stage = st\<rparr>"

definition solo :: "Listener \<Rightarrow> bytes list \<Rightarrow> 'w stage \<Rightarrow> Router \<Rightarrow> (PeerId, 'w Channel) hashmap \<Rightarrow>
    ProtocolEvent list \<Rightarrow> loop_state \<Rightarrow> 'w Node" where
  "solo l segs st r chs evs loop =
    \<lparr>node_router = r, node_senders = chs, node_events = evs, node_counter = 2,
     node_tasks = [(PeerId 1, inbound_peer l segs st)],
     node_loop = loop, node_keepalive = Asleep, node_manager = Checking,
     node_backoff = INITIAL_BACKOFF\<rparr>"

definition solo_router :: "Listener \<Rightarrow> Router" where
  "solo_router l = Router_register_peer (PeerId 1) Inbound (lst_mode l) Router_new"

definition handshake_ok :: "'w Env \<Rightarrow> Listener \<Rightarrow> bytes list \<Rightarrow> 'w Connection \<Rightarrow> bool" where
  "handshake_ok env l segs conn \<longleftrightarrow> (\<exists>now ur timed_out w.
    Connection_inbound (env_write_all env) (env_flush env) (env_debug env) now ur timed_out
      (lst_hs_config l) (BufReader_new segs) (env_socket env) = Inr (Inr conn, w))"

definition new_channel :: "'w Connection \<Rightarrow> 'w Channel" where
  "new_channel conn = \<lparr>chan_queue = [], chan_current = None, chan_open = True,
    chan_magic = conn_magic conn, chan_writer = conn_writer conn\<rparr>"

lemmas solo_simps = solo_def set_stage_def hm_get_def hm_insert_def hm_remove_def

lemma solo_peer:
  assumes "node_reachable env su (solo l segs st r chs evs loop)" "loop \<noteq> Panicked"
    and "run_peer env (PeerId 1) (inbound_peer l segs st)
       (solo l segs st r chs evs loop) = Some (obs, n')"
  shows "node_reachable env su n'"
  using reach_peer [OF assms(1) _ _ assms(3)] assms(2) by (simp add: solo_simps)

lemma solo_registered:
  assumes "l \<in> set (su_listeners su)" "0 < lst_max_inbound l" "handshake_ok env l segs conn"
  shows "node_reachable env su (solo l segs (Announcing conn) (solo_router l) [] [] Idle)"
proof -
  have "node_reachable env su (spawn_task Inbound (lst_mode l) (lst_hs_config l) segs Node_new)"
    using assms(2) by (intro reach_accept [OF reach_new _ assms(1)])
      (simp_all add: Node_new_def Router_new_def Router_inbound_peers_def)
  then have shaking: "node_reachable env su (solo l segs Shaking Router_new [] [] Idle)"
    by (simp add: spawn_task_def Node_new_def solo_simps)
  obtain now ur timed_out w where "Connection_inbound (env_write_all env) (env_flush env)
      (env_debug env) now ur timed_out (lst_hs_config l) (BufReader_new segs) (env_socket env) =
      Inr (Inr conn, w)"
    using assms(3) by (auto simp: handshake_ok_def)
  then have "node_reachable env su (set_stage (PeerId 1) (Registering conn)
      (solo l segs Shaking Router_new [] [] Idle))"
    using reach_admit [OF shaking, of "PeerId 1" "inbound_peer l segs Shaking" now ur timed_out conn w] by (simp add: solo_simps)
  then have "node_reachable env su (solo l segs (Registering conn) Router_new [] [] Idle)"
    by (simp add: solo_simps)
  from solo_peer [OF this] show ?thesis by (simp add: run_peer_def solo_simps solo_router_def)
qed

lemma solo_reading:
  assumes "l \<in> set (su_listeners su)" "0 < lst_max_inbound l" "handshake_ok env l segs conn"
  shows "node_reachable env su (solo l segs (Reading (conn_magic conn) (conn_reader conn)) (solo_router l)
    [(PeerId 1, new_channel conn)] [] Idle)"
proof -
  let ?st = "Opening conn" and ?r = "solo_router l"
  have "node_reachable env su (solo l segs ?st ?r []
      [PeerConnected (PeerId 1) (conn_peer_spec conn) Inbound] Idle)"
    using solo_peer [OF solo_registered [OF assms]]
    by (simp add: run_peer_def solo_simps post_event_def EVENT_CAPACITY_def)
  from reach_loop [OF this] have "node_reachable env su (solo l segs ?st ?r [] [] (Computed []))"
    by (simp add: event_loop_def solo_simps)
  from reach_loop [OF this] have "node_reachable env su (solo l segs ?st ?r [] [] (Delivering []))"
    by (simp add: event_loop_def solo_simps senders_free_def)
  from reach_loop [OF this] have "node_reachable env su (solo l segs ?st ?r [] [] Idle)"
    by (simp add: event_loop_def solo_simps)
  from solo_peer [OF this] show ?thesis
    by (simp add: run_peer_def solo_simps senders_free_def new_channel_def Connection_split_def)
qed

text \<open>The remote side closes the connection after its handshake.\<close>

lemma solo_left:
  assumes "l \<in> set (su_listeners su)" "0 < lst_max_inbound l" "handshake_ok env l segs conn"
    and "stream (conn_reader conn) = []"
  shows "\<exists>r. node_reachable env su (solo l segs Finished r [] [] Idle)"
proof -
  let ?r = "solo_router l" and ?ev = "PeerDisconnected (PeerId 1) (ascii ''connection closed'')"
  have "node_reachable env su (solo l segs Closing ?r [(PeerId 1, new_channel conn)] [] Idle)"
    using solo_peer [OF solo_reading [OF assms(1-3)]] assms(4)
    by (simp add: run_peer_def solo_simps short_input)
  from solo_peer [OF this] have "node_reachable env su (solo l segs Leaving ?r [] [] Idle)"
    by (simp add: run_peer_def solo_simps senders_free_def)
  from solo_peer [OF this] have ev: "node_reachable env su (solo l segs Finished ?r [] [?ev] Idle)"
    by (simp add: run_peer_def solo_simps post_event_def EVENT_CAPACITY_def)
  obtain r where "Router_disconnect (env_debug env) (PeerId 1) ?r = Inr (r, [])"
    by (simp add: solo_router_def eval_router)
  with reach_loop [OF ev] have "node_reachable env su (solo l segs Finished r [] [] (Computed []))"
    by (simp add: event_loop_def solo_simps)
  from reach_loop [OF this] have "node_reachable env su (solo l segs Finished r [] [] (Delivering []))"
    by (simp add: event_loop_def solo_simps senders_free_def)
  from reach_loop [OF this] have "node_reachable env su (solo l segs Finished r [] [] Idle)"
    by (simp add: event_loop_def solo_simps)
  then show ?thesis by blast
qed

subsection \<open>An example\<close>

text \<open>A node with the configuration of \<open>demo_startup\<close>, whose sockets keep what is written, and a
  connection whose remote side sends the handshake of a node of the same kind.\<close>

definition demo_env :: "bytes Env" where
  "demo_env = \<lparr>env_debug = False, env_digest = (\<lambda>_. replicate 32 0),
    env_write_all = (\<lambda>w b. Inr (w @ b)), env_flush = Inr, env_socket = []\<rparr>"

lemma demo_handshake_ok: "config_ok demo_handshake" "EIP37_MIN \<le> cfg_version demo_handshake"
  by (simp_all add: config_ok_def demo_handshake_def short_string_def from_utf8_def EIP37_MIN_def
      less_eq_Version_def)

definition demo_hello :: bytes where
  "demo_hello = (case build False 0 [] demo_handshake of Inr h \<Rightarrow> h | Inl _ \<Rightarrow> [])"

lemma demo_hello: "build False 0 [] demo_handshake = Inr demo_hello"
  using built_handshake [OF demo_handshake_ok(1), of False 0 "[]"] by (metis demo_hello_def sum.case(2))

lemma demo_stream: "stream (reader_after demo_hello x []) = x"
  by (simp add: stream_reader_after [OF built_fits [OF demo_handshake_ok(1) demo_hello]])

definition demo_listener :: Listener where
  "demo_listener = \<lparr>lst_hs_config = demo_handshake, lst_mode = Full, lst_max_inbound = 1\<rparr>"

definition demo_connection :: "bytes \<Rightarrow> bytes Connection" where
  "demo_connection x = \<lparr>conn_reader = reader_after demo_hello x [], conn_writer = demo_hello,
    conn_magic = Network_magic Testnet, conn_peer_spec = config_spec [] demo_handshake\<rparr>"

lemma demo_listening: "demo_listener \<in> set (su_listeners demo_startup)" "0 < lst_max_inbound demo_listener"
  by (simp_all add: demo_startup_def demo_listener_def)

lemma demo_established: "handshake_ok demo_env demo_listener [demo_hello @ x] (demo_connection x)"
  using established(2) [OF demo_handshake_ok(1) demo_hello demo_hello refl demo_handshake_ok(2), of x "[]"]
  unfolding handshake_ok_def
  by (intro exI [of _ 0] exI [of _ "[]"] exI [of _ False] exI [of _ demo_hello])
    (simp add: demo_env_def demo_connection_def demo_handshake_def demo_listener_def)

definition demo_task :: "bytes \<Rightarrow> bytes Task" where
  "demo_task x = inbound_peer demo_listener [demo_hello @ x]
    (Reading (Network_magic Testnet) (reader_after demo_hello x []))"

definition demo_node :: "bytes \<Rightarrow> bytes Node" where
  "demo_node x = solo demo_listener (task_segments (demo_task x)) (task_stage (demo_task x))
    (solo_router demo_listener) [(PeerId 1, new_channel (demo_connection x))] [] Idle"

lemma demo_node_run: obtains tr where "node_run demo_env demo_startup tr (demo_node x)"
  using solo_reading [OF demo_listening demo_established [of x]]
  by (auto simp: node_reachable_def demo_node_def demo_task_def demo_connection_def)

lemma demo_node_task: "hm_get (PeerId 1) (node_tasks (demo_node x)) = Some (demo_task x)"
  by (simp add: demo_node_def solo_simps demo_task_def)

lemma demo_left_run:
  obtains tr n where "node_run demo_env demo_startup tr n" "node_loop n = Idle" "node_events n = []"
    "\<And>p. stage_of p n = (if p = PeerId 1 then Some Finished else None)"
proof -
  obtain r tr where "node_run demo_env demo_startup tr
      (solo demo_listener [demo_hello @ []] Finished r [] [] Idle)"
    using solo_left [OF demo_listening demo_established [of "[]"]]
    by (auto simp: demo_connection_def demo_stream node_reachable_def)
  then show ?thesis using that by (simp add: solo_simps stage_of_def)
qed

end
