(* ===== verification/Node_Safety.thy ===== *)
theory Node_Safety
  imports Node_Runs
begin

text \<open>
  Properties of the node as a whole: its registry and its channels follow the connections, a peer
  that left leaves nothing behind, connections to other proxies are dropped; and the check of the
  connection limit, which does not limit the connections.
\<close>

subsection \<open>The registry\<close>

text \<open>(C13) The registry and the write channels follow the connections.  In every state of a running
  node, the registered peers are exactly those whose task is past its registration and has not
  ended, and those whose \<open>PeerDisconnected\<close> event is still in the channel; the peers with a write
  channel are exactly those whose task reads or is about to close, and are registered; and a
  registered peer has an id that was given to a connection.\<close>

theorem registry_follows_tasks:
  assumes "node_run env su tr n" "node_loop n \<noteq> Panicked"
  shows "registered (node_router n) =
      {p. in_stage registered_stage p n} \<union> set (leavers (node_events n)) \<and>
    hm_dom (node_senders n) = {p. in_stage open_stage p n} \<and>
    hm_dom (node_senders n) \<subseteq> registered (node_router n) \<and>
    (\<forall>k. PeerId k \<in> registered (node_router n) \<longrightarrow> k < node_counter n)"
proof -
  have inv: "registry_inv n" and ids: "ids_inv n"
    using node_run_registry [OF assms] node_run_ids [OF assms(1)] by auto
  have "stage_of p n \<noteq> None" if "p \<in> registered (node_router n)" for p
    using that inv by (auto simp: registry_inv_def)
  with ids have "\<forall>k. PeerId k \<in> registered (node_router n) \<longrightarrow> k < node_counter n"
    by (auto simp: ids_inv_def)
  moreover have "registered_stage st" if "open_stage st" for st :: "'a stage"
    using that by (cases st) auto
  ultimately show ?thesis using inv by (auto simp: registry_inv_def)
qed

theorem registry_follows_tasks_witness:
  "\<exists>tr n. node_run demo_env demo_startup tr n \<and> registered (node_router n) = {PeerId 1} \<and>
    hm_dom (node_senders n) = {PeerId 1}"
proof -
  obtain tr where run: "node_run demo_env demo_startup tr (demo_node [])" by (rule demo_node_run)
  have stages: "stage_of p (demo_node []) = (if p = PeerId 1 then Some (task_stage (demo_task [])) else None)"
    for p by (simp add: stage_of_def solo_simps demo_node_def demo_task_def)
  have "node_loop (demo_node []) \<noteq> Panicked" "node_events (demo_node []) = []"
    by (simp_all add: demo_node_def solo_def)
  with registry_follows_tasks [OF run] stages have "registered (node_router (demo_node [])) = {PeerId 1} \<and>
      hm_dom (node_senders (demo_node [])) = {PeerId 1}"
    by (auto simp: demo_task_def)
  with run show ?thesis by blast
qed

text \<open>(C4) Peers that left leave nothing behind.  When all connections of a running node have ended and
  their events are handled, the registry and the map of write channels are empty, and so are the
  inventory table, the request tracker, the latency tracker and the pairings of the sync tracker.\<close>

theorem no_peer_leaks:
  assumes "node_run env su tr n" "node_loop n \<noteq> Panicked"
    and "\<forall>p st. stage_of p n = Some st \<longrightarrow> st = Finished" "node_events n = []"
  shows "router_peers (node_router n) = [] \<and> node_senders n = [] \<and>
    InvTable_lookup i (router_inv_table (node_router n)) = None \<and>
    RequestTracker_lookup i (router_requests (node_router n)) = None \<and>
    LatencyTracker_target i (router_latency (node_router n)) = None \<and>
    LatencyTracker_peer_latency p (router_latency (node_router n)) = None \<and>
    SyncTracker_outbound_for p (router_sync (node_router n)) = None \<and>
    SyncTracker_inbound_for p (router_sync (node_router n)) = None"
proof -
  have "registry_inv n" using node_run_registry [OF assms(1,2)] .
  then have empty: "registered (node_router n) = {}" "hm_dom (node_senders n) = {}"
    using assms(3,4) by (fastforce simp: registry_inv_def)+
  have "router_ok (node_router n)" using node_router_ok [OF assms(1)] .
  with empty(1) have "refs InvTable_lookup (router_inv_table (node_router n)) = {}"
    "refs RequestTracker_lookup (router_requests (node_router n)) = {}"
    "latency_refs (router_latency (node_router n)) = {}"
    "sync_registered {} (router_sync (node_router n))"
    by (auto simp: router_ok_def)
  then have "InvTable_lookup i (router_inv_table (node_router n)) \<noteq> Some q"
    "RequestTracker_lookup i (router_requests (node_router n)) \<noteq> Some q"
    "LatencyTracker_target i (router_latency (node_router n)) \<noteq> Some q"
    "LatencyTracker_peer_latency p (router_latency (node_router n)) \<noteq> Some l"
    "SyncTracker_outbound_for p (router_sync (node_router n)) \<noteq> Some q"
    "SyncTracker_inbound_for p (router_sync (node_router n)) \<noteq> Some q" for q l
    by (auto simp: refs_def sync_registered_def dest: target_refs peer_latency_refs)
  with empty show ?thesis by (simp add: hm_dom_def option.discI) (meson not_None_eq)
qed

theorem no_peer_leaks_witness:
  "\<exists>tr n. node_run demo_env demo_startup tr n \<and> stage_of (PeerId 1) n = Some Finished \<and>
    router_peers (node_router n) = [] \<and> node_senders n = []"
proof -
  obtain tr n where n: "node_run demo_env demo_startup tr n" "node_loop n = Idle" "node_events n = []"
    "\<And>p. stage_of p n = (if p = PeerId 1 then Some Finished else None)"
    by (rule demo_left_run) blast
  then have "router_peers (node_router n) = [] \<and> node_senders n = []"
    using no_peer_leaks [OF n(1)] by simp
  with n show ?thesis by (intro exI [of _ tr] exI [of _ n]) simp
qed

subsection \<open>Other proxies\<close>

text \<open>Proxies do not chain.  If the remote side of an outbound connection is another node of this
  program, whatever its network and version, its handshake in one segment and anything behind it,
  then the task of the connection ends without registering the peer.\<close>

theorem outbound_proxy_dropped:
  assumes "config_ok c" "build dbg now' ur' c = Inr h" "task_segments t = (h @ x) # segs"
  shows "outbound_task env p t now ur timed_out n = set_stage p Finished n"
proof -
  have "is_proxy (config_spec ur' c)" by (simp add: is_proxy_def config_spec_def)
  moreover have "conn_peer_spec conn = config_spec ur' c"
    if "Connection_outbound (env_write_all env) (env_flush env) (env_debug env) now ur timed_out
      (task_config t) (BufReader_new (task_segments t)) (env_socket env) = Inr (Inr conn, w)" for conn w
    using that assms(3)
    by (auto simp: Connection_outbound_def receive_handshake_def read_handshake_built [OF assms(1,2)]
        Let_def split: sum.splits prod.splits if_splits)
  ultimately show ?thesis by (auto simp: outbound_task_def split: sum.splits prod.splits)
qed

theorem outbound_proxy_dropped_witness:
  "outbound_task demo_env (PeerId 1) \<lparr>task_direction = Outbound, task_mode = Full,
      task_config = demo_handshake, task_segments = [demo_hello @ []], task_stage = Shaking\<rparr> 5 [1] False
    Node_new = set_stage (PeerId 1) Finished Node_new"
  by (rule outbound_proxy_dropped [OF demo_handshake_ok(1) demo_hello]) simp

subsection \<open>The connection limit\<close>

lemma hm_insert_fresh: "k \<notin> hm_dom m \<Longrightarrow> hm_insert k v m = m @ [(k, v)]"
  by (induction m) (auto simp: hm_insert_def hm_dom_def)

lemma unat_of_nat_u64: "i < 2 ^ 64 \<Longrightarrow> unat (of_nat i :: u64) = i"
  by (simp add: unat_of_nat)

lemma of_nat_u64_inject: "i < 2 ^ 64 \<Longrightarrow> j < 2 ^ 64 \<Longrightarrow> (of_nat i :: u64) = of_nat j \<longleftrightarrow> i = j"
  by (metis unat_of_nat_u64)

text \<open>A node that accepted \<open>k\<close> connections, of which the first \<open>j\<close> are registered.\<close>

definition crowd :: "'w Env \<Rightarrow> Startup \<Rightarrow> Listener \<Rightarrow> bytes list \<Rightarrow> 'w Connection \<Rightarrow> nat \<Rightarrow> nat \<Rightarrow> 'w Node \<Rightarrow> bool" where
  "crowd env su l segs conn k j n \<longleftrightarrow> node_reachable env su n \<and> node_loop n = Idle \<and>
    node_counter n = of_nat (Suc k) \<and>
    (\<forall>i. 1 \<le> i \<and> i \<le> k \<longrightarrow> hm_get (PeerId (of_nat i)) (node_tasks n) =
      Some (inbound_peer l segs (if i \<le> j then Announcing conn else Shaking))) \<and>
    router_peers (node_router n) =
      map (\<lambda>i. (PeerId (of_nat i), \<lparr>entry_direction = Inbound, entry_mode = lst_mode l\<rparr>)) [1..<Suc j]"

lemma crowd_accept:
  assumes crowd: "crowd env su l segs conn k 0 n" and l: "l \<in> set (su_listeners su)" "0 < lst_max_inbound l"
    and k: "Suc k < 2 ^ 64 - 1"
  shows "crowd env su l segs conn (Suc k) 0 (spawn_task Inbound (lst_mode l) (lst_hs_config l) segs n)"
proof -
  have "(of_nat (Suc (Suc k)) :: u64) \<noteq> of_nat 0"
    using k by (subst of_nat_u64_inject) simp_all
  then have no_wrap: "node_counter n + 1 \<noteq> 0"
    using crowd by (simp add: crowd_def add.commute)
  have "node_reachable env su (spawn_task Inbound (lst_mode l) (lst_hs_config l) segs n)"
    using crowd l no_wrap by (intro reach_accept) (simp_all add: crowd_def Router_inbound_peers_def)
  moreover have "hm_get (PeerId (of_nat i)) (node_tasks (spawn_task Inbound (lst_mode l) (lst_hs_config l) segs n)) =
      Some (inbound_peer l segs Shaking)" if "1 \<le> i" "i \<le> Suc k" for i
    using that crowd k of_nat_u64_inject [of i "Suc k"] by (cases "i = Suc k") (auto simp: crowd_def)
  ultimately show ?thesis using crowd by (simp add: crowd_def)
qed

lemma crowd_admit:
  assumes crowd: "crowd env su l segs conn k j n" and hs: "handshake_ok env l segs conn"
    and j: "j < k" and k: "k < 2 ^ 64 - 1"
  shows "\<exists>n'. crowd env su l segs conn k (Suc j) n'"
proof -
  note of_nat_Suc [simp del]
  let ?p = "PeerId (of_nat (Suc j))"
  let ?n1 = "set_stage ?p (Registering conn) n"
  let ?n2 = "set_stage ?p (Announcing conn)
    (?n1\<lparr>node_router := Router_register_peer ?p Inbound (lst_mode l) (node_router n)\<rparr>)"
  have tasks: "hm_get (PeerId (of_nat i)) (node_tasks n) =
      Some (inbound_peer l segs (if i \<le> j then Announcing conn else Shaking))"
    if "1 \<le> i" "i \<le> k" for i
    using crowd that by (simp add: crowd_def)
  have task: "hm_get ?p (node_tasks n) = Some (inbound_peer l segs Shaking)"
    using tasks [of "Suc j"] j by simp
  obtain now ur timed_out w where conn: "Connection_inbound (env_write_all env) (env_flush env)
      (env_debug env) now ur timed_out (lst_hs_config l) (BufReader_new segs) (env_socket env) =
      Inr (Inr conn, w)"
    using hs by (auto simp: handshake_ok_def)
  have one: "node_reachable env su ?n1"
    using reach_admit [OF _ _ task, of env su now ur timed_out conn w] crowd conn by (simp add: crowd_def)
  have "hm_get ?p (node_tasks ?n1) = Some (inbound_peer l segs (Registering conn))"
    by (simp add: set_stage_task task)
  from reach_peer [OF one _ this] have two: "node_reachable env su ?n2"
    using crowd by (simp add: run_peer_def crowd_def)
  have fresh: "?p \<notin> hm_dom (router_peers (node_router n))"
    using crowd j k of_nat_u64_inject [of "Suc j"] by (auto simp: crowd_def hm_dom_def)
  have "hm_get (PeerId (of_nat i)) (node_tasks ?n2) =
      Some (inbound_peer l segs (if i \<le> Suc j then Announcing conn else Shaking))"
    if "1 \<le> i" "i \<le> k" for i
    using that tasks [OF that] j k task of_nat_u64_inject [of i "Suc j"]
    by (cases "i = Suc j") (auto simp: set_stage_task)
  with two fresh crowd show ?thesis
    by (intro exI [of _ ?n2]) (simp add: crowd_def Router_register_peer_def hm_insert_fresh)
qed

lemma crowd_exists:
  assumes "l \<in> set (su_listeners su)" "0 < lst_max_inbound l" "handshake_ok env l segs conn"
    "k < 2 ^ 64 - 1" "j \<le> k"
  shows "\<exists>n. crowd env su l segs conn k j n"
  using assms(5)
proof (induction j)
  case 0
  show ?case using assms(4)
  proof (induction k)
    case 0
    show ?case using reach_new
      by (intro exI [of _ Node_new]) (simp add: crowd_def Node_new_def Router_new_def)
  next
    case (Suc k)
    then obtain n where "crowd env su l segs conn k 0 n" by auto
    then show ?case using crowd_accept assms(1,2) Suc.prems by blast
  qed
next
  case (Suc j)
  then obtain n where "crowd env su l segs conn k j n" by auto
  then show ?case using crowd_admit assms(3,4) Suc.prems by (metis Suc_le_eq)
qed

text \<open>(C24) The connection limit does not limit the connections.  \<open>accept_loop\<close> compares the limit with the
  number of registered inbound peers, but a peer is registered only after its handshake: with
  connections that are accepted before the first of them completes its handshake, any number \<open>k\<close> of
  inbound peers becomes registered, whatever the positive limit of the listener is.\<close>

theorem inbound_limit_not_enforced:
  assumes "l \<in> set (su_listeners su)" "0 < lst_max_inbound l" "k < 2 ^ 64 - 1"
    and "Connection_inbound (env_write_all env) (env_flush env) (env_debug env) now ur timed_out
      (lst_hs_config l) (BufReader_new segs) (env_socket env) = Inr (Inr conn, w)"
  shows "\<exists>tr n. node_run env su tr n \<and> length (Router_inbound_peers (node_router n)) = k"
proof -
  have "handshake_ok env l segs conn" using assms(4) by (auto simp: handshake_ok_def)
  from crowd_exists [OF assms(1,2) this assms(3) order_refl]
  obtain n where n: "crowd env su l segs conn k k n" by blast
  then have "length (Router_inbound_peers (node_router n)) = k"
    by (simp add: crowd_def Router_inbound_peers_def filter_map comp_def)
  with n show ?thesis by (auto simp: crowd_def node_reachable_def)
qed

theorem inbound_limit_not_enforced_witness:
  "\<exists>tr n. lst_max_inbound demo_listener = 1 \<and> node_run demo_env demo_startup tr n \<and>
    length (Router_inbound_peers (node_router n)) = 7"
proof -
  obtain now ur timed_out w where "Connection_inbound (env_write_all demo_env) (env_flush demo_env)
      (env_debug demo_env) now ur timed_out (lst_hs_config demo_listener)
      (BufReader_new [demo_hello @ []]) (env_socket demo_env) = Inr (Inr (demo_connection []), w)"
    using demo_established [of "[]"] by (auto simp: handshake_ok_def)
  from inbound_limit_not_enforced [OF demo_listening _ this, of 7] show ?thesis
    by (auto simp: demo_listener_def)
qed

end
