(* ===== verification/Node_Stall.thy ===== *)
theory Node_Stall
  imports Node_Runs
begin

text \<open>
  The event loop holds the lock of the write channels while it waits for room in one of them: one
  peer that does not read can stop the node.
\<close>

text \<open>The event loop waits for the full channel of a peer.\<close>

definition stalled_on :: "PeerId \<Rightarrow> 'w Node \<Rightarrow> bool" where
  "stalled_on p n \<longleftrightarrow> (\<exists>m actions ch. node_loop n = Delivering (Send p m # actions) \<and>
    hm_get p (node_senders n) = Some ch \<and> chan_open ch \<and> length (chan_queue ch) = WRITE_CAPACITY)"

text \<open>Everything may happen but a step of the writer task of a peer.\<close>

inductive without_writer :: "'w Env \<Rightarrow> Startup \<Rightarrow> PeerId \<Rightarrow> 'w Node \<Rightarrow> 'w Node \<Rightarrow> bool"
  for env :: "'w Env" and su :: Startup and p :: PeerId and n :: "'w Node" where
  refl: "without_writer env su p n n"
| step: "without_writer env su p n n1 \<Longrightarrow> node_step env su n1 obs n2 \<Longrightarrow>
    writer env p n1 \<noteq> Some (obs, n2) \<Longrightarrow> without_writer env su p n n2"

subsection \<open>A stalled node stays stalled\<close>

definition no_progress :: "PeerId \<Rightarrow> 'w Node \<Rightarrow> 'w Node \<Rightarrow> bool" where
  "no_progress p n n' \<longleftrightarrow> node_loop n' = node_loop n \<and>
    hm_get p (node_senders n') = hm_get p (node_senders n) \<and>
    hm_dom (node_senders n') = hm_dom (node_senders n) \<and> (\<exists>es. node_events n' = node_events n @ es)"

lemma no_progress_trans: "no_progress p n n1 \<Longrightarrow> no_progress p n1 n2 \<Longrightarrow> no_progress p n n2"
  by (auto simp: no_progress_def)

lemma no_progress_stalled: "no_progress p n n' \<Longrightarrow> stalled_on p n \<Longrightarrow> stalled_on p n'"
  by (simp add: no_progress_def stalled_on_def)

lemma stalled_peer:
  assumes "stalled_on p n" "stage_step env q t obs st" "needs_lock (task_stage t) \<Longrightarrow> senders_free n"
  shows "no_progress p n (set_stage q st (task_effect q t obs n))"
proof -
  have "\<not> needs_lock (task_stage t)" using assms(1,3) by (auto simp: stalled_on_def senders_free_def)
  then have "node_senders (task_effect q t obs n) = node_senders n"
    by (cases "task_stage t") (simp_all add: task_effect_def)
  then show ?thesis by (simp add: no_progress_def)
qed

lemma stalled_step:
  assumes stalled: "stalled_on p n" and lock: "lock_inv n" and step: "node_step env su n obs n'"
    and other: "writer env p n \<noteq> Some (obs, n')"
  shows "no_progress p n n'"
  using step
proof (cases rule: node_step_elim)
  case (peer q t st)
  then show ?thesis using stalled stalled_peer by blast
next
  case (loop now)
  then show ?thesis using stalled by (auto simp: event_loop_def stalled_on_def send_frame_def)
next
  case ping
  have "\<not> pinging (node_keepalive n)" "\<not> senders_free n"
    using stalled lock by (auto simp: stalled_on_def lock_inv_def senders_free_def)
  with ping show ?thesis by (cases rule: keepalive_cases) (auto simp: no_progress_def)
next
  case (written q)
  then have "q \<noteq> p" using other by auto
  with written show ?thesis
    by (auto simp: no_progress_def hm_simps hm_dom_get elim!: writer_cases)
qed (simp_all add: no_progress_def)

lemma stalled_forever:
  assumes "without_writer env su p n n'" "stalled_on p n" "lock_inv n"
  shows "no_progress p n n'"
proof -
  have "no_progress p n n' \<and> lock_inv n'"
    using assms(1)
  proof (induction rule: without_writer.induct)
    case refl
    show ?case using assms(3) by (simp add: no_progress_def)
  next
    case (step n1 obs n2)
    then have "stalled_on p n1" using assms(2) no_progress_stalled by blast
    with step show ?case using stalled_step lock_inv_step no_progress_trans by blast
  qed
  then show ?thesis by blast
qed

subsection \<open>How one peer stalls the node\<close>

lemma flood_message:
  assumes reach: "node_reachable env su (solo l segs (Reading magic r) (solo_router l) chs [] Idle)"
    and d: "digest32 (env_digest env)" and m: "length magic = 4"
    and s: "stream r = encode (env_digest env) magic (to_frame GetPeers) @ rest"
  shows "node_reachable env su (solo l segs (Reading magic \<lparr>buffer = rest, segments = []\<rparr>)
    (solo_router l) chs [] (Delivering [Send (PeerId 1) (Peers [])]))"
proof -
  let ?r = "\<lparr>buffer = rest, segments = []\<rparr>"
  have "read_frame (env_digest env) magic (stream r) = (Inr (to_frame GetPeers), rest)"
    using read_frame_Inr_iff [OF d m] s by (simp add: frame_ok_def)
  moreover have "from_frame (to_frame GetPeers) = Inr GetPeers"
    by (simp add: from_frame_def message_codes)
  ultimately have "node_reachable env su (solo l segs (Posting magic ?r GetPeers) (solo_router l) chs [] Idle)"
    using solo_peer [OF reach] by (simp add: run_peer_def solo_simps)
  from solo_peer [OF this]
  have ev: "node_reachable env su (solo l segs (Reading magic ?r) (solo_router l) chs
      [Message (PeerId 1) GetPeers] Idle)"
    by (simp add: run_peer_def solo_simps post_event_def EVENT_CAPACITY_def)
  have "Router_handle_event dbg now (Message (PeerId 1) GetPeers) (solo_router l) =
      Inr (solo_router l, [Send (PeerId 1) (Peers [])])" for dbg now
    by (simp add: solo_router_def eval_router)
  with reach_loop [OF ev] have "node_reachable env su (solo l segs (Reading magic ?r) (solo_router l) chs
      [] (Computed [Send (PeerId 1) (Peers [])]))"
    by (simp add: event_loop_def solo_simps)
  from reach_loop [OF this] show ?thesis by (simp add: event_loop_def solo_simps senders_free_def)
qed

lemma flood:
  assumes "node_reachable env su (solo l segs (Reading magic r) (solo_router l) [(PeerId 1, ch)] [] Idle)"
    and d: "digest32 (env_digest env)" and m: "length magic = 4" and "chan_open ch"
    and "stream r = concat (replicate k (encode (env_digest env) magic (to_frame GetPeers))) @ rest"
    and "length (chan_queue ch) + k \<le> WRITE_CAPACITY"
  shows "\<exists>r' ch'. node_reachable env su (solo l segs (Reading magic r') (solo_router l) [(PeerId 1, ch')] [] Idle) \<and>
    stream r' = rest \<and> chan_open ch' \<and> length (chan_queue ch') = length (chan_queue ch) + k"
  using assms(1,4-6)
proof (induction k arbitrary: r ch)
  case 0
  then show ?case by auto
next
  case (Suc k)
  let ?rest = "concat (replicate k (encode (env_digest env) magic (to_frame GetPeers))) @ rest"
  let ?r = "\<lparr>buffer = ?rest, segments = []\<rparr>"
  let ?ch = "ch\<lparr>chan_queue := chan_queue ch @ [to_frame (Peers [])]\<rparr>"
  have "node_reachable env su (solo l segs (Reading magic ?r) (solo_router l) [(PeerId 1, ch)] []
      (Delivering [Send (PeerId 1) (Peers [])]))"
    using Suc.prems(3) by (intro flood_message [OF Suc.prems(1) d m]) simp
  from reach_loop [OF this]
  have "node_reachable env su (solo l segs (Reading magic ?r) (solo_router l) [(PeerId 1, ?ch)] [] (Delivering []))"
    using Suc.prems(2,4) by (simp add: event_loop_def send_frame_def solo_simps)
  from reach_loop [OF this]
  have "node_reachable env su (solo l segs (Reading magic ?r) (solo_router l) [(PeerId 1, ?ch)] [] Idle)"
    by (simp add: event_loop_def solo_simps)
  from Suc.IH [OF this] Suc.prems(2,4) show ?case by (simp add: stream_def)
qed

lemma handshake_magic:
  "handshake_ok env l segs conn \<Longrightarrow> conn_magic conn = Network_magic (cfg_network (lst_hs_config l))"
  unfolding handshake_ok_def by (elim exE) (rule connection_established(3), erule disjI2)

lemma flood_stalls:
  assumes "l \<in> set (su_listeners su)" "0 < lst_max_inbound l" "handshake_ok env l segs conn"
    and d: "digest32 (env_digest env)"
    and s: "stream (conn_reader conn) = concat (replicate (Suc WRITE_CAPACITY)
      (encode (env_digest env) (conn_magic conn) (to_frame GetPeers)))"
  shows "\<exists>n. node_reachable env su n \<and> stalled_on (PeerId 1) n"
proof -
  let ?e = "encode (env_digest env) (conn_magic conn) (to_frame GetPeers)"
  have m: "length (conn_magic conn) = 4" using handshake_magic [OF assms(3)] by simp
  have split: "stream (conn_reader conn) = concat (replicate WRITE_CAPACITY ?e) @ ?e"
    using s by (simp add: replicate_append_same [symmetric])
  obtain r ch where reach: "node_reachable env su (solo l segs (Reading (conn_magic conn) r) (solo_router l)
      [(PeerId 1, ch)] [] Idle)" and ch: "stream r = ?e" "chan_open ch" "length (chan_queue ch) = WRITE_CAPACITY"
    using flood [OF solo_reading [OF assms(1-3)] d m _ split] by (auto simp: new_channel_def)
  have "node_reachable env su (solo l segs (Reading (conn_magic conn) \<lparr>buffer = [], segments = []\<rparr>)
      (solo_router l) [(PeerId 1, ch)] [] (Delivering [Send (PeerId 1) (Peers [])]))"
    using ch(1) by (intro flood_message [OF reach d m]) simp
  moreover have "stalled_on (PeerId 1) (solo l segs st rt [(PeerId 1, ch)] [] (Delivering [Send (PeerId 1) (Peers [])]))"
    for st rt using ch by (simp add: stalled_on_def solo_simps)
  ultimately show ?thesis by blast
qed

subsection \<open>Properties\<close>

text \<open>(C19) One peer can stop the whole node.  A peer that completes its handshake with a listener and
  sends 65 \<open>GetPeers\<close> messages without reading the answers brings the node into a state from which,
  until the writer task of that peer makes a step, nothing else can help: whatever the other tasks,
  the network and the scheduler do, the event loop stays where it is, no event is taken from the
  channel, and no connection gets or gives up its write channel.  The reason is that the event loop
  holds the lock of \<open>peer_senders\<close> while it awaits the full channel of 64 frames.\<close>

theorem slow_peer_stalls_node:
  assumes "l \<in> set (su_listeners su)" "0 < lst_max_inbound l" "digest32 (env_digest env)"
    and "Connection_inbound (env_write_all env) (env_flush env) (env_debug env) now ur timed_out
      (lst_hs_config l) (BufReader_new segs) (env_socket env) = Inr (Inr conn, w)"
    and "stream (conn_reader conn) = concat (replicate 65
      (encode (env_digest env) (conn_magic conn) (to_frame GetPeers)))"
  shows "\<exists>tr n m actions. node_run env su tr n \<and> node_loop n = Delivering (Send (PeerId 1) m # actions) \<and>
    (\<forall>n'. without_writer env su (PeerId 1) n n' \<longrightarrow> node_loop n' = node_loop n \<and>
      hm_dom (node_senders n') = hm_dom (node_senders n) \<and> (\<exists>es. node_events n' = node_events n @ es))"
proof -
  have "handshake_ok env l segs conn" using assms(4) by (auto simp: handshake_ok_def)
  then obtain n where n: "node_reachable env su n" "stalled_on (PeerId 1) n"
    using flood_stalls [OF assms(1,2) _ assms(3)] assms(5) by (auto simp: WRITE_CAPACITY_def)
  then obtain tr where run: "node_run env su tr n" by (auto simp: node_reachable_def)
  have "no_progress (PeerId 1) n n'" if "without_writer env su (PeerId 1) n n'" for n'
    using stalled_forever [OF that n(2) node_run_lock [OF run]] .
  moreover obtain m actions where "node_loop n = Delivering (Send (PeerId 1) m # actions)"
    using n(2) by (auto simp: stalled_on_def)
  ultimately show ?thesis using run unfolding no_progress_def by blast
qed

theorem slow_peer_stalls_node_witness:
  "\<exists>tr n m actions. node_run demo_env demo_startup tr n \<and>
    node_loop n = Delivering (Send (PeerId 1) m # actions) \<and>
    (\<forall>n'. without_writer demo_env demo_startup (PeerId 1) n n' \<longrightarrow> node_loop n' = node_loop n \<and>
      hm_dom (node_senders n') = hm_dom (node_senders n) \<and> (\<exists>es. node_events n' = node_events n @ es))"
proof -
  let ?x = "concat (replicate 65 (encode (env_digest demo_env) (Network_magic Testnet) (to_frame GetPeers)))"
  obtain now ur timed_out w where hs: "Connection_inbound (env_write_all demo_env) (env_flush demo_env)
      (env_debug demo_env) now ur timed_out (lst_hs_config demo_listener)
      (BufReader_new [demo_hello @ ?x]) (env_socket demo_env) = Inr (Inr (demo_connection ?x), w)"
    using demo_established [of ?x] by (auto simp: handshake_ok_def)
  show ?thesis
    by (rule slow_peer_stalls_node [OF demo_listening _ hs])
      (simp_all add: demo_env_def digest32_def demo_connection_def demo_stream)
qed

end
