(* ===== verification/Node_Session.thy ===== *)
theory Node_Session
  imports Node_Runs
begin

text \<open>
  What the tasks of the connections tell the router.  The specification of a connection is the
  session that its bytes describe: the handshake, the messages of the frames behind it up to the
  first error, and the end.  The tasks post exactly these events, in this order, and the event loop
  handles the events of all connections in the order in which they were posted.
\<close>

subsection \<open>The session that a byte stream describes\<close>

definition session_messages :: "(bytes \<Rightarrow> bytes) \<Rightarrow> bytes \<Rightarrow> bytes \<Rightarrow> ProtocolMessage list" where
  "session_messages digest magic s =
    List.map_filter (\<lambda>f. case from_frame f of Inr m \<Rightarrow> Some m | Inl _ \<Rightarrow> None)
      (fst (read_frames (length s) digest magic s))"

definition session_events :: "(bytes \<Rightarrow> bytes) \<Rightarrow> PeerId \<Rightarrow> Direction \<Rightarrow> PeerSpec \<Rightarrow> bytes \<Rightarrow> bytes \<Rightarrow> ProtocolEvent list" where
  "session_events digest p d spec magic s =
    PeerConnected p spec d # map (Message p) (session_messages digest magic s) @
      [PeerDisconnected p (ascii ''connection closed'')]"

lemma read_frame_shorter: "read_frame d m s = (Inr f, t) \<Longrightarrow> length t < length s"
  using read_frame_decode [of d m s f t] short_input [of s d m] by (cases s) auto

lemma read_frames_fuel:
  "length s \<le> n \<Longrightarrow> length s \<le> k \<Longrightarrow> fst (read_frames n d m s) = fst (read_frames k d m s)"
proof (induction n arbitrary: s k)
  case 0
  then show ?case by (cases k) (simp_all add: short_input)
next
  case (Suc n)
  show ?case
  proof (cases k)
    case 0
    with Suc.prems show ?thesis by (simp add: short_input)
  next
    case (Suc k')
    show ?thesis
    proof (cases "read_frame d m s")
      case (Pair res t)
      show ?thesis
      proof (cases res)
        case (Inr f)
        then have "length t < length s" using Pair read_frame_shorter by blast
        then show ?thesis
          using Suc Suc.prems Pair Inr Suc.IH [of t k'] by (simp add: case_prod_unfold Let_def)
      qed (use Suc Pair in simp)
    qed
  qed
qed

lemma session_messages_Inl:
  "read_frame d m s = (Inl e, t) \<Longrightarrow> session_messages d m s = []"
  by (cases s) (simp_all add: session_messages_def List.map_filter_simps)

lemma session_messages_Inr:
  assumes "read_frame d m s = (Inr f, t)"
  shows "session_messages d m s =
    (case from_frame f of Inr msg \<Rightarrow> [msg] | Inl _ \<Rightarrow> []) @ session_messages d m t"
proof -
  have less: "length t < length s" using assms by (rule read_frame_shorter)
  then obtain k where k: "length s = Suc k" by (cases s) auto
  have "fst (read_frames (length s) d m s) = f # fst (read_frames k d m t)"
    using assms by (simp add: k case_prod_unfold Let_def)
  also have "fst (read_frames k d m t) = fst (read_frames (length t) d m t)"
    using less k by (intro read_frames_fuel) auto
  finally show ?thesis
    by (simp add: session_messages_def List.map_filter_simps split: sum.splits)
qed

subsection \<open>The events of a task\<close>

definition conn_session :: "'w Env \<Rightarrow> PeerId \<Rightarrow> 'w Task \<Rightarrow> 'w Connection \<Rightarrow> ProtocolEvent list" where
  "conn_session env p t conn = session_events (env_digest env) p (task_direction t) (conn_peer_spec conn)
    (conn_magic conn) (stream (conn_reader conn))"

definition rest_of_session :: "'w Env \<Rightarrow> PeerId \<Rightarrow> bytes \<Rightarrow> BufReader \<Rightarrow> ProtocolEvent list" where
  "rest_of_session env p magic r = map (Message p) (session_messages (env_digest env) magic (stream r)) @
    [PeerDisconnected p (ascii ''connection closed'')]"

lemma conn_session_eq: "conn_session env p t conn =
    PeerConnected p (conn_peer_spec conn) (task_direction t) #
      rest_of_session env p (conn_magic conn) (conn_reader conn)"
  by (simp add: conn_session_def session_events_def rest_of_session_def)

lemma rest_of_session_nonempty [simp]: "rest_of_session env p magic r \<noteq> []"
  by (simp add: rest_of_session_def)

text \<open>The events that a task in a given stage has posted.\<close>

fun history :: "'w Env \<Rightarrow> PeerId \<Rightarrow> 'w Task \<Rightarrow> 'w stage \<Rightarrow> ProtocolEvent list \<Rightarrow> bool" where
  "history env p t Shaking evs = (evs = [])"
| "history env p t (Registering conn) evs = (shaken env t conn \<and> evs = [])"
| "history env p t (Announcing conn) evs = (shaken env t conn \<and> evs = [])"
| "history env p t (Opening conn) evs =
    (shaken env t conn \<and> evs = [PeerConnected p (conn_peer_spec conn) (task_direction t)])"
| "history env p t (Reading magic r) evs =
    (\<exists>conn. shaken env t conn \<and> magic = conn_magic conn \<and> evs \<noteq> [] \<and>
      evs @ rest_of_session env p magic r = conn_session env p t conn)"
| "history env p t (Posting magic r msg) evs =
    (\<exists>conn. shaken env t conn \<and> magic = conn_magic conn \<and> evs \<noteq> [] \<and>
      evs @ Message p msg # rest_of_session env p magic r = conn_session env p t conn)"
| "history env p t Finished evs = (evs = [] \<or>
    (\<exists>conn. shaken env t conn \<and> evs = conn_session env p t conn))"
| "history env p t _ evs = (\<exists>conn. shaken env t conn \<and> evs \<noteq> [] \<and>
    evs @ [PeerDisconnected p (ascii ''connection closed'')] = conn_session env p t conn)"

lemma history_step:
  assumes "history env p t (task_stage t) evs" "stage_step env p t obs st"
  shows "history env p t st (evs @ posted obs)"
  using assms(2)
proof (cases rule: stage_step.cases)
  case (opened conn)
  then show ?thesis
    using assms(1)
    by (auto simp: rest_of_session_def conn_session_def session_events_def)
next
  case (skip magic r frame rest e)
  then show ?thesis
    using assms(1) session_messages_Inr [OF skip(4)]
    by (auto simp: rest_of_session_def stream_def)
next
  case (receive magic r frame rest msg)
  then show ?thesis
    using assms(1) session_messages_Inr [OF receive(4)]
    by (auto simp: rest_of_session_def stream_def)
next
  case (lose magic r e rest)
  then show ?thesis
    using assms(1) session_messages_Inl [OF lose(4)] by (auto simp: rest_of_session_def)
qed (use assms(1) in auto)

lemma history_cong:
  assumes "task_direction t' = task_direction t" "task_config t' = task_config t"
    "task_segments t' = task_segments t"
  shows "history env p t' st evs = history env p t st evs"
proof -
  have "shaken env t' = shaken env t" by (simp add: shaken_def assms fun_eq_iff)
  moreover have "conn_session env p t' = conn_session env p t"
    by (simp add: conn_session_def assms fun_eq_iff)
  ultimately show ?thesis using assms(1) by (cases st) simp_all
qed

definition session_inv :: "'w Env \<Rightarrow> obs list \<Rightarrow> 'w Node \<Rightarrow> bool" where
  "session_inv env tr n \<longleftrightarrow> (\<forall>p. hm_get p (node_tasks n) = None \<longrightarrow> posted_by p tr = []) \<and>
    (\<forall>p t. hm_get p (node_tasks n) = Some t \<longrightarrow> history env p t (task_stage t) (posted_by p tr))"

lemma session_inv_same:
  "session_inv env tr n \<Longrightarrow> posted obs = [] \<Longrightarrow> node_tasks n' = node_tasks n \<Longrightarrow> session_inv env (tr @ obs) n'"
  by (simp add: session_inv_def)

lemma stage_step_posted: "stage_step env p t obs st \<Longrightarrow> ev \<in> set (posted obs) \<Longrightarrow> event_peer ev = p"
  by (auto elim!: stage_step.cases)

lemma session_inv_peer:
  assumes inv: "session_inv env tr n" and task: "hm_get p (node_tasks n) = Some t"
    and step: "stage_step env p t obs st"
  shows "session_inv env (tr @ obs) (set_stage p st (task_effect p t obs n))"
proof -
  have "posted_by p obs = posted obs" "q \<noteq> p \<Longrightarrow> posted_by q obs = []" for q
    using stage_step_posted [OF step] by (auto simp: filter_id_conv filter_empty_conv)
  moreover have "history env p t (task_stage t) (posted_by p tr)"
    using inv task by (simp add: session_inv_def)
  then have "history env p t st (posted_by p tr @ posted obs)" using history_step step by blast
  ultimately show ?thesis
    using inv task history_cong [of "t\<lparr>task_stage := st\<rparr>" t env p st]
    by (auto simp: session_inv_def set_stage_task)
qed

lemma node_run_session: "node_run env su tr n \<Longrightarrow> session_inv env tr n"
proof (induction rule: node_run.induct)
  case start
  show ?case by (simp add: session_inv_def Node_new_def hm_simps)
next
  case (step tr n obs n')
  from step(3) show ?case
  proof (cases rule: node_step_cases)
    case quiet
    then show ?thesis using session_inv_same [OF step.IH] by (simp add: frames_only_def)
  next
    case (spawn d mo hs segs b m)
    have "posted_by (PeerId (node_counter n)) tr = []"
      using step.IH ids_fresh [OF node_run_ids [OF step(1)]] by (simp add: session_inv_def)
    with step.IH spawn show ?thesis by (auto simp: session_inv_def)
  next
    case (peer p t st)
    then show ?thesis using session_inv_peer [OF step.IH] by blast
  qed (use session_inv_same [OF step.IH, of obs n'] in simp_all)
qed

subsection \<open>The event channel\<close>

lemma node_run_events:
  "node_run env su tr n \<Longrightarrow> posted tr = handled tr @ node_events n \<and> length (node_events n) \<le> EVENT_CAPACITY"
proof (induction rule: node_run.induct)
  case start
  show ?case by (simp add: Node_new_def)
next
  case (step tr n obs n')
  from step(3) show ?case
  proof (cases rule: node_step_cases)
    case (peer p t st)
    have "handled obs = []" "length (posted obs) \<le> 1" using peer(2) by (auto elim!: stage_step.cases)
    then show ?thesis using step.IH peer(3,5) by (cases "posted obs") auto
  qed (use step.IH in \<open>auto simp: frames_only_def\<close>)
qed

subsection \<open>Properties\<close>

lemma shaken_stream:
  assumes "shaken env t conn"
  obtains h where "concat (task_segments t) = h @ stream (conn_reader conn)"
    "parse h = Inr (conn_peer_spec conn)"
    "validate_peer (conn_peer_spec conn) (cfg_network (task_config t)) = Inr ()"
    "conn_magic conn = Network_magic (cfg_network (task_config t))"
    "task_direction t = Outbound \<longrightarrow> \<not> is_proxy (conn_peer_spec conn)"
proof -
  obtain now ur timed_out w where "Connection_outbound (env_write_all env) (env_flush env) (env_debug env)
      now ur timed_out (task_config t) (BufReader_new (task_segments t)) (env_socket env) = Inr (Inr conn, w) \<or>
    Connection_inbound (env_write_all env) (env_flush env) (env_debug env)
      now ur timed_out (task_config t) (BufReader_new (task_segments t)) (env_socket env) = Inr (Inr conn, w)"
    using assms by (auto simp: shaken_def split: if_splits)
  note est = connection_established [OF this]
  obtain h where h: "stream (BufReader_new (task_segments t)) = h @ stream (conn_reader conn)"
    "\<And>rest. parse (h @ rest) = Inr (conn_peer_spec conn)"
    using read_handshake_Inr [OF est(1)] by blast
  show ?thesis
    using that [of h] h(1) h(2) [of "[]"] est(2,3) assms
    by (simp add: stream_def BufReader_new_def shaken_def)
qed

lemma history_session:
  assumes "history env p t st evs"
  shows "evs = [] \<and> \<not> open_stage st \<or> (\<exists>conn later. shaken env t conn \<and>
    evs @ later = conn_session env p t conn \<and> evs \<noteq> [] \<and> (later = [] \<longleftrightarrow> st = Finished))"
  using assms by (cases st) (fastforce simp: conn_session_eq)+

text \<open>(C2) A connection is reported to the router as the session that its bytes describe.  For every
  connection of every reachable node: unless nothing was posted for it yet, the bytes that the
  remote side sends are a handshake and a rest; the handshake parses to a specification that passed
  the validation, and is not that of a proxy if the connection is outbound; the events posted for
  the peer are a prefix of \<open>PeerConnected\<close> with this specification, one \<open>Message\<close> for each frame of
  the rest that parses, up to the first error, and \<open>PeerDisconnected\<close>; and all of them are posted
  exactly when the task has ended.\<close>

theorem session_refinement:
  assumes "node_run env su tr n" "hm_get p (node_tasks n) = Some t"
  shows "posted_by p tr = [] \<and> \<not> open_stage (task_stage t) \<or>
    (\<exists>spec h rest later. concat (task_segments t) = h @ rest \<and> parse h = Inr spec \<and>
      validate_peer spec (cfg_network (task_config t)) = Inr () \<and>
      (task_direction t = Outbound \<longrightarrow> \<not> is_proxy spec) \<and>
      posted_by p tr \<noteq> [] \<and>
      posted_by p tr @ later = session_events (env_digest env) p (task_direction t) spec
        (Network_magic (cfg_network (task_config t))) rest \<and>
      (later = [] \<longleftrightarrow> task_stage t = Finished))"
proof -
  have "history env p t (task_stage t) (posted_by p tr)"
    using node_run_session [OF assms(1)] assms(2) by (simp add: session_inv_def)
  from history_session [OF this] show ?thesis
  proof (elim disjE exE conjE)
    fix conn later
    assume conn: "shaken env t conn" and evs: "posted_by p tr @ later = conn_session env p t conn"
      and later: "posted_by p tr \<noteq> []" "later = [] \<longleftrightarrow> task_stage t = Finished"
    from conn obtain h where h: "concat (task_segments t) = h @ stream (conn_reader conn)"
      "parse h = Inr (conn_peer_spec conn)"
      "validate_peer (conn_peer_spec conn) (cfg_network (task_config t)) = Inr ()"
      "conn_magic conn = Network_magic (cfg_network (task_config t))"
      "task_direction t = Outbound \<longrightarrow> \<not> is_proxy (conn_peer_spec conn)"
      by (rule shaken_stream)
    show ?thesis
      by (rule disjI2, rule exI [of _ "conn_peer_spec conn"], rule exI [of _ h],
          rule exI [of _ "stream (conn_reader conn)"], rule exI [of _ later])
        (use h evs later in \<open>simp add: conn_session_def\<close>)
  qed simp
qed

theorem session_refinement_witness:
  "\<exists>tr n spec evs. node_run demo_env demo_startup tr n \<and>
    posted_by (PeerId 1) tr = PeerConnected (PeerId 1) spec Inbound # evs \<and>
    validate_peer spec Testnet = Inr ()"
proof -
  obtain tr where run: "node_run demo_env demo_startup tr (demo_node [])" by (rule demo_node_run)
  obtain spec rest later where
    "validate_peer spec Testnet = Inr ()" "posted_by (PeerId 1) tr \<noteq> []"
    "posted_by (PeerId 1) tr @ later = session_events (env_digest demo_env) (PeerId 1) Inbound spec
      (Network_magic Testnet) rest"
    using session_refinement [OF run demo_node_task]
    by (auto simp: demo_task_def demo_listener_def demo_handshake_def)
  with run show ?thesis by (cases "posted_by (PeerId 1) tr") (auto simp: session_events_def)
qed

lemma history_registered:
  "history env p t st evs \<Longrightarrow> evs \<noteq> [] \<Longrightarrow> registered_stage st \<or>
    st = Finished \<and> last evs = PeerDisconnected p (ascii ''connection closed'')"
  by (cases st) (auto simp: conn_session_eq rest_of_session_def)

lemma leavers_member: "PeerDisconnected p reason \<in> set es \<Longrightarrow> p \<in> set (leavers es)"
proof (induction es)
  case (Cons ev es)
  then show ?case by (cases ev) auto
qed simp

lemma events_registered:
  assumes run: "node_run env su tr n" "node_loop n \<noteq> Panicked" and ev: "ev \<in> set (node_events n)"
  shows "event_peer ev \<in> registered (node_router n)"
proof -
  let ?p = "event_peer ev"
  have inv: "registry_inv n" using node_run_registry [OF run] .
  have events: "posted_by ?p tr = filter (\<lambda>e. event_peer e = ?p) (handled tr) @
      filter (\<lambda>e. event_peer e = ?p) (node_events n)"
    using node_run_events [OF run(1)] by simp
  have some: "filter (\<lambda>e. event_peer e = ?p) (node_events n) \<noteq> []"
    using ev by (auto simp: filter_empty_conv)
  then have posted: "posted_by ?p tr \<noteq> []" using events by simp
  then obtain t where t: "hm_get ?p (node_tasks n) = Some t"
    using node_run_session [OF run(1)] by (cases "hm_get ?p (node_tasks n)") (auto simp: session_inv_def)
  have "history env ?p t (task_stage t) (posted_by ?p tr)"
    using node_run_session [OF run(1)] t by (simp add: session_inv_def)
  from history_registered [OF this posted] show ?thesis
  proof
    assume "registered_stage (task_stage t)"
    then show ?thesis using inv stage_of_task [OF t] by (auto simp: registry_inv_def)
  next
    assume "task_stage t = Finished \<and> last (posted_by ?p tr) = PeerDisconnected ?p (ascii ''connection closed'')"
    then have "last (filter (\<lambda>e. event_peer e = ?p) (node_events n)) =
        PeerDisconnected ?p (ascii ''connection closed'')"
      using events some by simp
    then have "PeerDisconnected ?p (ascii ''connection closed'') \<in> set (node_events n)"
      using some last_in_set by (metis filter_is_subset subsetD)
    then show ?thesis using inv leavers_member by (auto simp: registry_inv_def)
  qed
qed

text \<open>The event channel is a bounded queue, and the router only hears of peers it knows.  The events
  that the loop has handled, followed by those in the channel, are the events that were posted, in
  this order; the channel never holds more than 256; and when the loop takes the next event, its
  peer is registered.\<close>

theorem handled_events_in_order:
  assumes "node_run env su tr n" "node_loop n \<noteq> Panicked"
  shows "posted tr = handled tr @ node_events n \<and> length (node_events n) \<le> 256 \<and>
    (\<forall>ev \<in> set (node_events n). event_peer ev \<in> registered (node_router n))"
  using node_run_events [OF assms(1)] events_registered [OF assms] by (simp add: EVENT_CAPACITY_def)

theorem handled_events_in_order_witness:
  "\<exists>tr n. node_run demo_env demo_startup tr n \<and> stage_of (PeerId 1) n = Some Finished \<and>
    posted tr = handled tr"
proof -
  obtain tr n where n: "node_run demo_env demo_startup tr n" "node_loop n = Idle" "node_events n = []"
    "\<And>p. stage_of p n = (if p = PeerId 1 then Some Finished else None)"
    by (rule demo_left_run) blast
  then have "posted tr = handled tr" using handled_events_in_order [OF n(1)] by simp
  with n show ?thesis by (intro exI [of _ tr] exI [of _ n]) simp
qed

end
