(* ===== verification/Node_Channels.thy ===== *)
theory Node_Channels
  imports Node_Session "HOL-Library.Sublist"
begin

text \<open>
  What the node sends: every write channel is a bounded queue whose frames reach the socket in the
  order in which they were queued, only frames that the receiver accepts and parses are queued, and
  the bytes written to a peer are this node's handshake and these frames.
\<close>

subsection \<open>Frames that can be sent\<close>

definition wire_ok :: "Frame \<Rightarrow> bool" where
  "wire_ok f \<longleftrightarrow> frame_ok f \<and> (\<exists>m. from_frame f = Inr m \<and> to_frame m = f)"

lemma sendable_wire: "sendable m \<Longrightarrow> wire_ok (to_frame m)"
  using from_frame_to_frame by (auto simp: sendable_def wire_ok_def)

lemma getpeers_wire: "wire_ok (to_frame GetPeers)"
  by (rule sendable_wire) (simp add: sendable_def frame_ok_def)

fun pending_actions :: "loop_state \<Rightarrow> Action list" where
  "pending_actions (Computed actions) = actions"
| "pending_actions (Delivering actions) = actions"
| "pending_actions _ = []"

definition sendable_inv :: "obs list \<Rightarrow> 'w Node \<Rightarrow> bool" where
  "sendable_inv tr n \<longleftrightarrow>
    (\<forall>p m. Message p m \<in> set (node_events n) \<longrightarrow> sendable m) \<and>
    (\<forall>p magic r m. stage_of p n = Some (Posting magic r m) \<longrightarrow> sendable m) \<and>
    (\<forall>a \<in> set (pending_actions (node_loop n)). sendable (sent_message a)) \<and>
    (\<forall>p. list_all wire_ok (queued p tr))"

lemma send_frame_queued:
  "send_frame p f n = Some (obs, n') \<Longrightarrow> wire_ok f \<Longrightarrow> list_all wire_ok (queued q obs)"
  by (auto elim!: send_frame_cases)

lemma event_actions_sendable:
  assumes "\<And>p m. ev = Message p m \<Longrightarrow> sendable m" "RequestTracker_wf (router_requests r)"
    and "Router_handle_event dbg now ev r = Inr (r', actions)" "a \<in> set actions"
  shows "sendable (sent_message a)"
proof (cases ev)
  case (Message p m)
  with assms show ?thesis using routed_sendable by simp
next
  case (PeerDisconnected p reason)
  with assms(3,4) show ?thesis
    by (auto simp: Router_disconnect_def Let_def split: sum.splits)
qed (use assms(3,4) in auto)

lemma sendable_inv_loop:
  assumes inv: "sendable_inv tr n" and wf: "RequestTracker_wf (router_requests (node_router n))"
    and step: "event_loop env now n = Some (obs, n')"
  shows "sendable_inv (tr @ obs) n'"
  using step
proof (cases rule: event_loop_cases)
  case (handle ev evs r actions)
  have "sendable (sent_message a)" if "a \<in> set actions" for a
    using event_actions_sendable [OF _ wf handle(4) that] inv handle(2) by (auto simp: sendable_inv_def)
  with inv handle show ?thesis by (auto simp: sendable_inv_def stage_of_def)
next
  case (deliver a actions n1)
  have "wire_ok (to_frame (sent_message a))" using inv deliver(1) sendable_wire by (simp add: sendable_inv_def)
  with send_frame_queued [OF deliver(2)] have "list_all wire_ok (queued q obs)" for q by blast
  with inv deliver send_frame_keeps [OF deliver(2)] show ?thesis
    by (simp add: sendable_inv_def frames_only_def stage_of_def)
qed (use inv in \<open>auto simp: sendable_inv_def stage_of_def\<close>)

lemma sendable_inv_ping:
  assumes inv: "sendable_inv tr n" and step: "keepalive n = Some (obs, n')"
  shows "sendable_inv (tr @ obs) n'"
  using step
proof (cases rule: keepalive_cases)
  case (deliver p ps n1)
  with inv send_frame_keeps [OF deliver(2)] send_frame_queued [OF deliver(2) getpeers_wire] show ?thesis
    by (simp add: sendable_inv_def frames_only_def stage_of_def)
qed (use inv in \<open>simp_all add: sendable_inv_def stage_of_def\<close>)

lemma sendable_inv_peer:
  assumes inv: "sendable_inv tr n" and task: "hm_get p (node_tasks n) = Some t"
    and step: "stage_step env p t obs st"
  shows "sendable_inv (tr @ obs) (set_stage p st (task_effect p t obs n))"
proof -
  have old: "sendable m" if "task_stage t = Posting magic r m" for magic r m
    using inv that stage_of_task [OF task] by (auto simp: sendable_inv_def)
  have new: "sendable m" if "st = Posting magic r m" for magic r m
    using step that by cases (auto intro: received_sendable read_frame_ok)
  have posts: "sendable m" if "Message q m \<in> set (posted obs)" for q m
    using step that old by cases auto
  have quiet: "queued q obs = []" for q
    using step by cases auto
  have "stage_of q (task_effect p t obs n) = stage_of q n" for q by (simp add: stage_of_def)
  with inv new posts quiet show ?thesis by (auto simp: sendable_inv_def)
qed

lemma sendable_inv_same:
  assumes "sendable_inv tr n" "\<And>q. queued q obs = []" "node_tasks n' = node_tasks n"
    "node_events n' = node_events n" "node_loop n' = node_loop n"
  shows "sendable_inv (tr @ obs) n'"
  using assms by (simp add: sendable_inv_def stage_of_def)

lemma node_run_sendable: "node_run env su tr n \<Longrightarrow> sendable_inv tr n"
proof (induction rule: node_run.induct)
  case start
  show ?case by (simp add: sendable_inv_def Node_new_def stage_of_def hm_simps)
next
  case (step tr n obs n')
  have wf: "RequestTracker_wf (router_requests (node_router n))"
    using reachable_wf [OF node_router_reachable [OF step(1)]] by (simp add: router_wf_def)
  from step(3) show ?case
  proof (cases rule: node_step_elim)
    case (spawn d mo hs segs b m)
    then show ?thesis using step.IH by (simp add: sendable_inv_def stage_of_def)
  next
    case (peer p t st)
    then show ?thesis using step.IH sendable_inv_peer by blast
  next
    case (loop now)
    then show ?thesis using step.IH sendable_inv_loop wf by blast
  next
    case ping
    then show ?thesis using step.IH sendable_inv_ping by blast
  next
    case (written p)
    then obtain ch ch' where ch: "write_step env p ch = Some (obs, ch')"
      "n' = n\<lparr>node_senders := hm_insert p ch' (node_senders n)\<rparr>" by (rule writer_cases)
    then show ?thesis using write_step_obs [OF ch(1)] by (intro sendable_inv_same [OF step.IH]) simp_all
  qed (use sendable_inv_same [OF step.IH, of obs n'] in simp_all)
qed

subsection \<open>The channels as queues\<close>

definition in_flight :: "'w Channel \<Rightarrow> Frame list" where
  "in_flight ch = (case chan_current ch of None \<Rightarrow> [] | Some f \<Rightarrow> [f]) @ chan_queue ch"

fun before_opening :: "'w stage \<Rightarrow> bool" where
  "before_opening Shaking = True"
| "before_opening (Registering _) = True"
| "before_opening (Announcing _) = True"
| "before_opening (Opening _) = True"
| "before_opening _ = False"

definition queue_inv :: "obs list \<Rightarrow> 'w Node \<Rightarrow> bool" where
  "queue_inv tr n \<longleftrightarrow>
    (\<forall>p ch. hm_get p (node_senders n) = Some ch \<longrightarrow> length (chan_queue ch) \<le> WRITE_CAPACITY \<and>
      (chan_open ch \<longrightarrow> queued p tr = written p tr @ in_flight ch)) \<and>
    (\<forall>p. prefix (written p tr) (queued p tr)) \<and>
    (\<forall>p. stage_of p n = None \<or> in_stage before_opening p n \<longrightarrow> queued p tr = [])"

lemma queue_inv_same:
  assumes "queue_inv tr n" "\<And>q. queued q obs = [] \<and> written q obs = []" "node_tasks n' = node_tasks n"
    "node_senders n' = node_senders n"
  shows "queue_inv (tr @ obs) n'"
  using assms by (simp add: queue_inv_def stage_of_def)

lemma queue_inv_send:
  assumes inv: "queue_inv tr n" and reg: "registry_inv n" and step: "send_frame p f n = Some (obs, n')"
  shows "queue_inv (tr @ obs) n'"
  using step
proof (cases rule: send_frame_cases)
  case dropped
  with inv show ?thesis by simp
next
  case (enqueued ch)
  have "p \<in> hm_dom (node_senders n)" using enqueued(1) by (simp add: hm_dom_get)
  then obtain st where st: "stage_of p n = Some st" "open_stage st" using reg by (auto simp: registry_inv_def)
  then have "\<not> before_opening st" by (cases st) auto
  moreover have "stage_of q n' = stage_of q n" for q by (simp add: enqueued(5) stage_of_def)
  ultimately show ?thesis
    using inv enqueued st
    by (auto simp: queue_inv_def hm_simps in_flight_def split: if_splits)
qed

lemma queue_inv_loops:
  "queue_inv tr (n\<lparr>node_loop := l\<rparr>) = queue_inv tr n"
  "queue_inv tr (n\<lparr>node_keepalive := k\<rparr>) = queue_inv tr n"
  by (simp_all add: queue_inv_def stage_of_def)

lemma queue_inv_written:
  assumes inv: "queue_inv tr n" and step: "writer env p n = Some (obs, n')"
  shows "queue_inv (tr @ obs) n'"
proof -
  obtain ch ch' where ch: "hm_get p (node_senders n) = Some ch" "write_step env p ch = Some (obs, ch')"
    "n' = n\<lparr>node_senders := hm_insert p ch' (node_senders n)\<rparr>" using step by (rule writer_cases)
  have old: "length (chan_queue ch) \<le> WRITE_CAPACITY"
      "chan_open ch \<Longrightarrow> queued p tr = written p tr @ in_flight ch"
    using inv ch(1) by (auto simp: queue_inv_def)
  have quiet: "queued q obs = []" "q \<noteq> p \<Longrightarrow> written q obs = []" for q
    using ch(2) by (auto simp: write_step_def split: if_splits option.splits list.splits sum.splits)
  have new: "length (chan_queue ch') \<le> WRITE_CAPACITY"
      "chan_open ch' \<Longrightarrow> queued p tr = (written p tr @ written p obs) @ in_flight ch'"
      "prefix (written p tr @ written p obs) (queued p tr)"
    using ch(2) old
    by (auto simp: write_step_def in_flight_def split: if_splits option.splits list.splits sum.splits)
  have "prefix (written q tr @ written q obs) (queued q tr)" for q
    using new(3) quiet(2) [of q] inv by (cases "q = p") (auto simp: queue_inv_def)
  moreover have "stage_of q n' = stage_of q n" for q by (simp add: ch(3) stage_of_def)
  ultimately show ?thesis
    using inv new(1,2) quiet unfolding queue_inv_def ch(3) by (simp add: hm_simps)
qed

lemma queue_inv_peer:
  assumes inv: "queue_inv tr n" and task: "hm_get p (node_tasks n) = Some t"
    and step: "stage_step env p t obs st"
  shows "queue_inv (tr @ obs) (set_stage p st (task_effect p t obs n))"
proof -
  let ?n = "set_stage p st (task_effect p t obs n)"
  have quiet: "queued q obs = []" "written q obs = []" for q using step by (cases; auto)+
  have early: "before_opening (task_stage t)" if "before_opening st" using step that by cases auto
  have stages: "stage_of q ?n = (if q = p then Some st else stage_of q n)" for q
    using task by (auto simp: stage_of_def set_stage_task)
  have start: "queued p tr = []" "written p tr = []" if "before_opening (task_stage t)"
    using inv that stage_of_task [OF task] by (auto simp: queue_inv_def) (metis prefix_Nil)
  have "queued q tr = []" if "stage_of q ?n = None \<or> in_stage before_opening q ?n" for q
    using that inv stages early start(1) by (auto simp: queue_inv_def split: if_splits)
  moreover have "length (chan_queue ch) \<le> WRITE_CAPACITY \<and>
      (chan_open ch \<longrightarrow> queued q tr = written q tr @ in_flight ch)"
    if "hm_get q (node_senders ?n) = Some ch" for q ch
    using that inv start
    by (cases "task_stage t")
      (auto simp: queue_inv_def task_effect_def hm_simps in_flight_def split: if_splits)
  ultimately show ?thesis using inv quiet unfolding queue_inv_def by simp
qed

lemma node_run_queue: "node_run env su tr n \<Longrightarrow> queue_inv tr n"
proof (induction rule: node_run.induct)
  case start
  show ?case by (simp add: queue_inv_def Node_new_def hm_simps)
next
  case (step tr n obs n')
  have reg: "registry_inv n" using node_run_registry [OF step(1,2)] .
  from step(3) show ?case
  proof (cases rule: node_step_elim)
    case (spawn d mo hs segs b m)
    have "stage_of (PeerId (node_counter n)) n = None"
      using ids_fresh [OF node_run_ids [OF step(1)]] by (simp add: stage_of_def)
    with step.IH spawn show ?thesis
      by (auto simp: queue_inv_def stage_of_def split: if_splits)
  next
    case (peer p t st)
    then show ?thesis using step.IH queue_inv_peer by blast
  next
    case (loop now)
    then show ?thesis
      by (cases rule: event_loop_cases)
        (use step.IH reg queue_inv_send queue_inv_same [OF step.IH, of obs n'] in \<open>auto simp: queue_inv_loops\<close>)
  next
    case ping
    then show ?thesis
      by (cases rule: keepalive_cases)
        (use step.IH reg queue_inv_send queue_inv_same [OF step.IH, of obs n'] in \<open>auto simp: queue_inv_loops\<close>)
  next
    case (written p)
    then show ?thesis using step.IH queue_inv_written by blast
  qed (use queue_inv_same [OF step.IH, of obs n'] in simp_all)
qed

subsection \<open>The bytes on the wire\<close>

text \<open>A socket that takes all bytes and keeps them.\<close>

definition keeps_bytes :: "bytes Env \<Rightarrow> bool" where
  "keeps_bytes env \<longleftrightarrow> env_write_all env = (\<lambda>w b. Inr (w @ b)) \<and> env_flush env = Inr \<and> env_socket env = []"

text \<open>What a writer has written: the handshake of this node and the frames.\<close>

definition has_written :: "bytes Env \<Rightarrow> HandshakeConfig \<Rightarrow> Frame list \<Rightarrow> bytes Channel \<Rightarrow> bool" where
  "has_written env hs frames ch \<longleftrightarrow> chan_magic ch = Network_magic (cfg_network hs) \<and>
    (\<exists>h now ur. build (env_debug env) now ur hs = Inr h \<and>
      chan_writer ch = h @ concat (map (encode (env_digest env) (chan_magic ch)) frames))"

definition wire_inv :: "bytes Env \<Rightarrow> obs list \<Rightarrow> bytes Node \<Rightarrow> bool" where
  "wire_inv env tr n \<longleftrightarrow> (\<forall>p ch. hm_get p (node_senders n) = Some ch \<longrightarrow>
    (\<exists>t. hm_get p (node_tasks n) = Some t \<and> has_written env (task_config t) (written p tr) ch))"

lemma shaken_writer:
  assumes "keeps_bytes env" "shaken env t conn"
  shows "\<exists>now ur. build (env_debug env) now ur (task_config t) = Inr (conn_writer conn)"
    and "conn_magic conn = Network_magic (cfg_network (task_config t))"
proof -
  obtain now ur timed_out w where "Connection_outbound (env_write_all env) (env_flush env) (env_debug env)
      now ur timed_out (task_config t) (BufReader_new (task_segments t)) (env_socket env) = Inr (Inr conn, w) \<or>
    Connection_inbound (env_write_all env) (env_flush env) (env_debug env)
      now ur timed_out (task_config t) (BufReader_new (task_segments t)) (env_socket env) = Inr (Inr conn, w)"
    using assms(2) by (auto simp: shaken_def split: if_splits)
  note est = connection_established [OF this]
  show "\<exists>now ur. build (env_debug env) now ur (task_config t) = Inr (conn_writer conn)"
    using est(5) assms(1) by (auto simp: keeps_bytes_def send_handshake_def)
  show "conn_magic conn = Network_magic (cfg_network (task_config t))" by (rule est(3))
qed

lemma wire_inv_send:
  assumes "wire_inv env tr n" "send_frame p f n = Some (obs, n')"
  shows "wire_inv env (tr @ obs) n'"
  using assms(2)
  by (cases rule: send_frame_cases) (use assms(1) in \<open>auto simp: wire_inv_def has_written_def hm_simps split: if_splits\<close>)

lemma wire_inv_loops:
  "wire_inv env tr (n\<lparr>node_loop := l\<rparr>) = wire_inv env tr n"
  "wire_inv env tr (n\<lparr>node_keepalive := k\<rparr>) = wire_inv env tr n"
  by (simp_all add: wire_inv_def)

lemma wire_inv_same:
  assumes "wire_inv env tr n" "\<And>q. written q obs = []" "node_tasks n' = node_tasks n"
    "node_senders n' = node_senders n"
  shows "wire_inv env (tr @ obs) n'"
  using assms by (simp add: wire_inv_def)

lemma wire_inv_written:
  assumes inv: "wire_inv env tr n" and keeps: "keeps_bytes env" and step: "writer env p n = Some (obs, n')"
  shows "wire_inv env (tr @ obs) n'"
proof -
  obtain ch ch' where ch: "hm_get p (node_senders n) = Some ch" "write_step env p ch = Some (obs, ch')"
    "n' = n\<lparr>node_senders := hm_insert p ch' (node_senders n)\<rparr>" using step by (rule writer_cases)
  have quiet: "q \<noteq> p \<Longrightarrow> written q obs = []" for q
    using ch(2) by (auto simp: write_step_def split: if_splits option.splits list.splits sum.splits)
  have "chan_magic ch' = chan_magic ch \<and> chan_writer ch' = chan_writer ch @
      concat (map (encode (env_digest env) (chan_magic ch)) (written p obs))"
    using ch(2) keeps
    by (auto simp: write_step_def write_frame_def keeps_bytes_def split: if_splits option.splits list.splits)
  then have "has_written env hs (frames @ written p obs) ch'" if "has_written env hs frames ch" for hs frames
    using that unfolding has_written_def by force
  moreover obtain t where "hm_get p (node_tasks n) = Some t" "has_written env (task_config t) (written p tr) ch"
    using inv ch(1) unfolding wire_inv_def by blast
  ultimately show ?thesis using inv ch(3) quiet by (auto simp: wire_inv_def hm_simps)
qed

lemma wire_inv_peer:
  assumes inv: "wire_inv env tr n" and keeps: "keeps_bytes env" and session: "session_inv env tr n"
    and queue: "queue_inv tr n" and task: "hm_get p (node_tasks n) = Some t"
    and step: "stage_step env p t obs st"
  shows "wire_inv env (tr @ obs) (set_stage p st (task_effect p t obs n))"
proof -
  have quiet: "written q obs = []" for q using step by cases auto
  have fresh: "has_written env (task_config t) (written p tr) \<lparr>chan_queue = [], chan_current = None,
      chan_open = True, chan_magic = conn_magic conn, chan_writer = conn_writer conn\<rparr>"
    if "task_stage t = Opening conn" for conn
  proof -
    have "history env p t (Opening conn) (posted_by p tr)"
      using session task that unfolding session_inv_def by metis
    then have "shaken env t conn" by simp
    moreover have "in_stage before_opening p n" using stage_of_task [OF task] that by simp
    then have "written p tr = []" using queue unfolding queue_inv_def by (metis prefix_Nil)
    ultimately show ?thesis using shaken_writer [OF keeps] by (auto simp: has_written_def)
  qed
  have written: "\<exists>t'. hm_get q (node_tasks n) = Some t' \<and> has_written env (task_config t') (written q tr) ch"
    if "hm_get q (node_senders (task_effect p t obs n)) = Some ch" for q ch
    using that inv fresh task
    by (cases "task_stage t") (auto simp: wire_inv_def task_effect_def hm_simps split: if_splits)
  have keep: "\<exists>t'. hm_get q (node_tasks (set_stage p st (task_effect p t obs n))) = Some t' \<and> P (task_config t')"
    if "\<exists>t'. hm_get q (node_tasks n) = Some t' \<and> P (task_config t')" for q P
    using that by (cases "q = p") (auto simp: set_stage_task)
  show ?thesis
    using keep [OF written] quiet by (simp add: wire_inv_def)
qed

lemma node_run_wire: "node_run env su tr n \<Longrightarrow> keeps_bytes env \<Longrightarrow> wire_inv env tr n"
proof (induction rule: node_run.induct)
  case start
  show ?case by (simp add: wire_inv_def Node_new_def hm_simps)
next
  case (step tr n obs n')
  note IH = step.IH [OF step.prems]
  from step(3) show ?case
  proof (cases rule: node_step_elim)
    case (spawn d mo hs segs b m)
    then show ?thesis
      using IH ids_fresh [OF node_run_ids [OF step(1)]]
      by (fastforce simp: wire_inv_def)
  next
    case (peer p t st)
    then show ?thesis
      using wire_inv_peer [OF IH step.prems node_run_session [OF step(1)] node_run_queue [OF step(1)]] by blast
  next
    case (loop now)
    then show ?thesis
      by (cases rule: event_loop_cases)
        (use IH wire_inv_send wire_inv_same [OF IH, of obs n'] in \<open>auto simp: wire_inv_loops\<close>)
  next
    case ping
    then show ?thesis
      by (cases rule: keepalive_cases)
        (use IH wire_inv_send wire_inv_same [OF IH, of obs n'] in \<open>auto simp: wire_inv_loops\<close>)
  next
    case (written p)
    then show ?thesis using IH wire_inv_written step.prems by blast
  qed (use wire_inv_same [OF IH, of obs n'] in simp_all)
qed

subsection \<open>Properties\<close>

text \<open>(C5) Every write channel is a bounded queue.  The frames written to the socket of a peer are, in
  this order, a prefix of the frames that were queued for it, whatever happened in between; and as
  long as its writer task runs, the frames queued are those written, then the one being written,
  then those in the channel, of which there are at most 64.\<close>

theorem write_channels_fifo:
  assumes "node_run env su tr n"
  shows "prefix (written p tr) (queued p tr) \<and>
    (\<forall>ch. hm_get p (node_senders n) = Some ch \<longrightarrow> length (chan_queue ch) \<le> 64 \<and>
      (chan_open ch \<longrightarrow> queued p tr = written p tr @
        (case chan_current ch of None \<Rightarrow> [] | Some f \<Rightarrow> [f]) @ chan_queue ch))"
  using node_run_queue [OF assms] by (simp add: queue_inv_def in_flight_def WRITE_CAPACITY_def)

theorem write_channels_fifo_witness:
  "\<exists>tr. node_run demo_env demo_startup tr (demo_node []) \<and>
    queued (PeerId 1) tr = written (PeerId 1) tr"
proof -
  obtain tr where run: "node_run demo_env demo_startup tr (demo_node [])" by (rule demo_node_run)
  moreover have "hm_get (PeerId 1) (node_senders (demo_node [])) = Some (new_channel (demo_connection []))"
    by (simp add: demo_node_def solo_simps)
  ultimately show ?thesis
    using write_channels_fifo [OF run, of "PeerId 1"] by (auto simp: new_channel_def)
qed

text \<open>(C3) Every peer can read what the node sends.  If the sockets take all bytes, then at any time the
  bytes written to a peer are a handshake built from the configuration of its connection, followed
  by the encodings of the frames written to it; read by the receiving side of this protocol, they
  give exactly these frames and then the end of what was sent; and every one of them parses to the
  message it was made from.\<close>

theorem peers_can_read_output:
  assumes "node_run env su tr n" "keeps_bytes env" "digest32 (env_digest env)"
    and "hm_get p (node_senders n) = Some ch"
  shows "\<exists>t h now ur frame_bytes. hm_get p (node_tasks n) = Some t \<and>
    build (env_debug env) now ur (task_config t) = Inr h \<and> chan_writer ch = h @ frame_bytes \<and>
    read_frames (Suc (length (written p tr))) (env_digest env) (Network_magic (cfg_network (task_config t)))
      frame_bytes = (written p tr, Some UnexpectedEof) \<and>
    (\<forall>f \<in> set (written p tr). \<exists>m. from_frame f = Inr m \<and> to_frame m = f)"
proof -
  obtain t h now ur where t: "hm_get p (node_tasks n) = Some t"
    and h: "build (env_debug env) now ur (task_config t) = Inr h"
    and magic: "chan_magic ch = Network_magic (cfg_network (task_config t))"
    and bytes: "chan_writer ch = h @ concat (map (encode (env_digest env) (chan_magic ch)) (written p tr))"
    using node_run_wire [OF assms(1,2)] assms(4) unfolding wire_inv_def has_written_def by blast
  have "list_all wire_ok (queued p tr)" using node_run_sendable [OF assms(1)] by (simp add: sendable_inv_def)
  moreover have "prefix (written p tr) (queued p tr)" using node_run_queue [OF assms(1)] by (simp add: queue_inv_def)
  ultimately have wire: "list_all wire_ok (written p tr)" by (auto simp: prefix_def)
  then have "list_all frame_ok (written p tr)" by (simp add: list_all_iff wire_ok_def)
  from read_frames_encode [OF assms(3) _ this, of "chan_magic ch"] t h magic bytes wire show ?thesis
    by (intro exI conjI) (assumption | simp add: list_all_iff wire_ok_def)+
qed

theorem peers_can_read_output_witness:
  "\<exists>tr h now ur frame_bytes. node_run demo_env demo_startup tr (demo_node []) \<and>
    build False now ur demo_handshake = Inr h \<and> demo_hello = h @ frame_bytes \<and>
    read_frames (Suc (length (written (PeerId 1) tr))) (\<lambda>_. replicate 32 0) (Network_magic Testnet)
      frame_bytes = (written (PeerId 1) tr, Some UnexpectedEof)"
proof -
  obtain tr where run: "node_run demo_env demo_startup tr (demo_node [])" by (rule demo_node_run)
  have env: "keeps_bytes demo_env" "digest32 (env_digest demo_env)"
    by (simp_all add: keeps_bytes_def digest32_def demo_env_def)
  have ch: "hm_get (PeerId 1) (node_senders (demo_node [])) = Some (new_channel (demo_connection []))"
    by (simp add: demo_node_def solo_simps)
  have facts: "task_config (demo_task []) = demo_handshake" "cfg_network demo_handshake = Testnet"
    "chan_writer (new_channel (demo_connection [])) = demo_hello" "env_debug demo_env = False"
    "env_digest demo_env = (\<lambda>_. replicate 32 0)"
    by (simp_all add: demo_task_def demo_listener_def demo_handshake_def demo_env_def new_channel_def
        demo_connection_def)
  from peers_can_read_output [OF run env ch] obtain t h now ur frame_bytes where
    "hm_get (PeerId 1) (node_tasks (demo_node [])) = Some t" "build (env_debug demo_env) now ur (task_config t) = Inr h"
    "chan_writer (new_channel (demo_connection [])) = h @ frame_bytes"
    "read_frames (Suc (length (written (PeerId 1) tr))) (env_digest demo_env)
      (Network_magic (cfg_network (task_config t))) frame_bytes = (written (PeerId 1) tr, Some UnexpectedEof)"
    by blast
  with run show ?thesis unfolding facts demo_node_task option.inject by (metis facts(1,2))
qed

end
