(* ===== verification/Node_Liveness.thy ===== *)
theory Node_Liveness
  imports Node_Channels
begin

text \<open>
  Progress of the node.  A release build never panics, and as long as the writer tasks get their
  turn, all events in the channel are handled and all actions delivered: there is no deadlock
  between the event loop, the keepalive task and the writers.
\<close>

subsection \<open>Release builds do not panic\<close>

lemma release_no_panic:
  assumes "node_run env su tr n" "\<not> env_debug env"
  shows "node_loop n \<noteq> Panicked"
  using assms
proof (induction rule: node_run.induct)
  case start
  show ?case by (simp add: Node_new_def)
next
  case (step tr n obs n')
  have no_panic: "Router_handle_event (env_debug env) now ev (node_router n) \<noteq> Inl e" for now ev e
    using event_no_panic [OF node_router_ok [OF step(1)], of now ev] step.prems by auto
  from step(3) show ?case
  proof (cases rule: node_step_elim)
    case (loop now)
    then show ?thesis
      by (cases rule: event_loop_cases) (use no_panic send_frame_keeps(2) in auto)
  next
    case ping
    then show ?thesis
    proof (cases rule: keepalive_cases)
      case (deliver p ps n1)
      then show ?thesis using step(2) send_frame_keeps(2) [OF deliver(2)] by simp
    qed (use step(2) in simp_all)
  next
    case (written p)
    then show ?thesis by (rule writer_cases) (use step(2) in simp)
  qed (use step(2) in simp_all)
qed

subsection \<open>Steps without the remote sides\<close>

text \<open>Runs of the event loop, the keepalive task and the writers alone.\<close>

inductive serves :: "'w Env \<Rightarrow> 'w Node \<Rightarrow> obs list \<Rightarrow> 'w Node \<Rightarrow> bool" for env :: "'w Env" and n :: "'w Node" where
  stay: "serves env n [] n"
| loop: "serves env n tr n1 \<Longrightarrow> event_loop env now n1 = Some (obs, n2) \<Longrightarrow> serves env n (tr @ obs) n2"
| ping: "serves env n tr n1 \<Longrightarrow> keepalive n1 = Some (obs, n2) \<Longrightarrow> serves env n (tr @ obs) n2"
| written: "serves env n tr n1 \<Longrightarrow> writer env p n1 = Some (obs, n2) \<Longrightarrow> serves env n (tr @ obs) n2"

lemma serves_trans: "serves env n1 tr2 n2 \<Longrightarrow> serves env n tr1 n1 \<Longrightarrow> serves env n (tr1 @ tr2) n2"
proof (induction rule: serves.induct)
  case (loop tr n1' now obs n2)
  then show ?case using serves.loop [OF loop(3) [OF loop(4)] loop(2)] by simp
next
  case (ping tr n1' obs n2)
  then show ?case using serves.ping [OF ping(3) [OF ping(4)] ping(2)] by simp
next
  case (written tr n1' p obs n2)
  then show ?case using serves.written [OF written(3) [OF written(4)] written(2)] by simp
qed simp

lemma serves_run:
  assumes "serves env n tr' n'" "node_run env su tr n" "\<not> env_debug env"
  shows "node_run env su (tr @ tr') n'"
  using assms(1)
proof (induction rule: serves.induct)
  case stay
  show ?case using assms(2) by simp
next
  case (loop tr' n1 now obs n2)
  show ?case
    using node_run.step [OF loop(3) release_no_panic [OF loop(3) assms(3)] node_step.loop [OF loop(2)]] by simp
next
  case (ping tr' n1 obs n2)
  show ?case
    using node_run.step [OF ping(3) release_no_panic [OF ping(3) assms(3)] node_step.ping [OF ping(2)]] by simp
next
  case (written tr' n1 p obs n2)
  show ?case
    using node_run.step [OF written(3) release_no_panic [OF written(3) assms(3)] node_step.written [OF written(2)]]
    by simp
qed

subsection \<open>Making room\<close>

text \<open>What the writers leave as it is.\<close>

definition same_control :: "'w Node \<Rightarrow> 'w Node \<Rightarrow> bool" where
  "same_control n n' \<longleftrightarrow> node_loop n' = node_loop n \<and> node_keepalive n' = node_keepalive n \<and>
    node_events n' = node_events n \<and> node_tasks n' = node_tasks n \<and> node_router n' = node_router n"

definition work :: "'w Channel \<Rightarrow> nat" where
  "work ch = 2 * length (chan_queue ch) + (if chan_current ch = None then 0 else 1)"

lemma write_step_progress:
  assumes "chan_open ch" "chan_queue ch \<noteq> []"
  obtains obs ch' where "write_step env p ch = Some (obs, ch')" "handled obs = []"
    "\<not> chan_open ch' \<or> work ch' < work ch"
proof (cases "write_step env p ch")
  case None
  with assms show ?thesis by (auto simp: write_step_def split: option.splits list.splits sum.splits)
next
  case (Some r)
  obtain obs ch' where r: "r = (obs, ch')" by force
  have "handled obs = [] \<and> (\<not> chan_open ch' \<or> work ch' < work ch)"
    using Some assms unfolding r
    by (auto simp: write_step_def work_def split: option.splits list.splits sum.splits)
  then show ?thesis using that Some r by blast
qed

lemma send_frame_enabled:
  "send_frame p f n \<noteq> None \<longleftrightarrow>
    (\<forall>ch. hm_get p (node_senders n) = Some ch \<longrightarrow> chan_open ch \<longrightarrow> length (chan_queue ch) < WRITE_CAPACITY)"
  by (auto simp: send_frame_def split: option.splits)

lemma room:
  "\<exists>tr n'. serves env n tr n' \<and> handled tr = [] \<and> same_control n n' \<and> send_frame p f n' \<noteq> None"
proof (cases "send_frame p f n = None")
  case False
  then show ?thesis
    by (intro exI [of _ "[]"] exI [of _ n]) (simp add: same_control_def serves.stay)
next
  case True
  then obtain ch where "hm_get p (node_senders n) = Some ch" by (auto simp: send_frame_def split: option.splits)
  with True show ?thesis
  proof (induction "work ch" arbitrary: n ch rule: less_induct)
    case less
    then have full: "chan_open ch" "\<not> length (chan_queue ch) < WRITE_CAPACITY"
      by (auto simp: send_frame_def split: if_splits)
    then have "chan_queue ch \<noteq> []" by (auto simp: WRITE_CAPACITY_def)
    with full(1) obtain obs ch' where ch': "write_step env p ch = Some (obs, ch')" "handled obs = []"
      "\<not> chan_open ch' \<or> work ch' < work ch"
      by (rule write_step_progress)
    let ?n = "n\<lparr>node_senders := hm_insert p ch' (node_senders n)\<rparr>"
    have step: "serves env n obs ?n"
      using serves.written [OF serves.stay, of env p n obs ?n] ch'(1) less.prems by (simp add: writer_def)
    have get: "hm_get p (node_senders ?n) = Some ch'" by (simp add: hm_simps)
    show ?case
    proof (cases "send_frame p f ?n = None")
      case False
      then show ?thesis using step ch'(2) by (intro exI [of _ obs] exI [of _ ?n]) (simp add: same_control_def)
    next
      case True
      then have "chan_open ch'" using get by (auto simp: send_frame_def split: if_splits)
      with ch'(3) have "work ch' < work ch" by simp
      from less.hyps [OF this True get] obtain tr n' where n': "serves env ?n tr n'" "handled tr = []"
        "same_control ?n n'" "send_frame p f n' \<noteq> None" by blast
      then show ?thesis
        using serves_trans [OF n'(1) step] ch'(2)
        by (intro exI [of _ "obs @ tr"] exI [of _ n']) (simp add: same_control_def)
    qed
  qed
qed

subsection \<open>Finishing what was begun\<close>

lemma finish_pinging:
  assumes "node_keepalive n = Pinging ps"
  shows "\<exists>tr n'. serves env n tr n' \<and> handled tr = [] \<and> node_keepalive n' = Asleep \<and>
    node_loop n' = node_loop n \<and> node_events n' = node_events n \<and> node_tasks n' = node_tasks n"
  using assms
proof (induction ps arbitrary: n)
  case Nil
  then have "keepalive n = Some ([], n\<lparr>node_keepalive := Asleep\<rparr>)" by (simp add: keepalive_def)
  from serves.ping [OF serves.stay this] show ?case by (intro exI conjI) (assumption, simp_all)
next
  case (Cons p ps)
  obtain tr n1 where n1: "serves env n tr n1" "handled tr = []" "same_control n n1"
    and "send_frame p (to_frame GetPeers) n1 \<noteq> None" using room by blast
  then obtain obs n2 where sent: "send_frame p (to_frame GetPeers) n1 = Some (obs, n2)" by fastforce
  note keeps = send_frame_keeps [OF sent]
  let ?n = "n2\<lparr>node_keepalive := Pinging ps\<rparr>"
  have "keepalive n1 = Some (obs, ?n)"
    using sent n1(3) Cons.prems by (simp add: keepalive_def same_control_def)
  with n1(1) have two: "serves env n (tr @ obs) ?n" by (rule serves.ping)
  obtain tr' n' where n': "serves env ?n tr' n'" "handled tr' = []" "node_keepalive n' = Asleep"
    "node_loop n' = node_loop ?n" "node_events n' = node_events ?n" "node_tasks n' = node_tasks ?n"
    using Cons.IH [of ?n] by auto
  show ?case
    using serves_trans [OF n'(1) two] n1(2,3) keeps n'(2-6)
    by (intro exI [of _ "(tr @ obs) @ tr'"] exI [of _ n']) (simp add: same_control_def frames_only_def)
qed

lemma finish_delivering:
  assumes "node_loop n = Delivering actions"
  shows "\<exists>tr n'. serves env n tr n' \<and> handled tr = [] \<and> node_loop n' = Idle \<and>
    node_keepalive n' = node_keepalive n \<and> node_events n' = node_events n \<and> node_tasks n' = node_tasks n"
  using assms
proof (induction actions arbitrary: n)
  case Nil
  then have "event_loop env now n = Some ([], n\<lparr>node_loop := Idle\<rparr>)" for now by (simp add: event_loop_def)
  from serves.loop [OF serves.stay this] show ?case by (intro exI conjI) (assumption, simp_all)
next
  case (Cons a actions)
  let ?f = "to_frame (sent_message a)"
  obtain tr n1 where n1: "serves env n tr n1" "handled tr = []" "same_control n n1"
    and "send_frame (target a) ?f n1 \<noteq> None" using room by blast
  then obtain obs n2 where sent: "send_frame (target a) ?f n1 = Some (obs, n2)" by fastforce
  note keeps = send_frame_keeps [OF sent]
  let ?n = "n2\<lparr>node_loop := Delivering actions\<rparr>"
  have "event_loop env now n1 = Some (obs, ?n)" for now
    using sent n1(3) Cons.prems by (simp add: event_loop_def same_control_def)
  with n1(1) have two: "serves env n (tr @ obs) ?n" by (rule serves.loop)
  obtain tr' n' where n': "serves env ?n tr' n'" "handled tr' = []" "node_loop n' = Idle"
    "node_keepalive n' = node_keepalive ?n" "node_events n' = node_events ?n" "node_tasks n' = node_tasks ?n"
    using Cons.IH [of ?n] by auto
  show ?case
    using serves_trans [OF n'(1) two] n1(2,3) keeps n'(2-6)
    by (intro exI [of _ "(tr @ obs) @ tr'"] exI [of _ n']) (simp add: same_control_def frames_only_def)
qed

lemma become_idle:
  assumes "lock_inv n" "node_loop n \<noteq> Panicked"
  shows "\<exists>tr n'. serves env n tr n' \<and> handled tr = [] \<and> node_loop n' = Idle \<and>
    \<not> pinging (node_keepalive n') \<and> node_events n' = node_events n \<and> node_tasks n' = node_tasks n"
proof -
  obtain tr n1 where n1: "serves env n tr n1" "handled tr = []" "\<not> pinging (node_keepalive n1)"
    "node_loop n1 = node_loop n" "node_events n1 = node_events n" "node_tasks n1 = node_tasks n"
  proof (cases "node_keepalive n")
    case (Pinging ps)
    then show ?thesis using finish_pinging [of n ps env] that by force
  qed (use that [OF serves.stay] in simp_all)
  show ?thesis
  proof (cases "node_loop n")
    case Idle
    with n1 show ?thesis by auto
  next
    case (Computed actions)
    let ?n = "n1\<lparr>node_loop := Delivering actions\<rparr>"
    have "event_loop env (\<lambda>_. 0) n1 = Some ([], ?n)"
      using Computed n1(3,4) by (simp add: event_loop_def senders_free_def)
    with n1(1) have two: "serves env n (tr @ []) ?n" by (rule serves.loop)
    obtain tr' n' where n': "serves env ?n tr' n'" "handled tr' = []" "node_loop n' = Idle"
      "node_keepalive n' = node_keepalive ?n" "node_events n' = node_events ?n" "node_tasks n' = node_tasks ?n"
      using finish_delivering [of ?n actions env] by auto
    show ?thesis
      using serves_trans [OF n'(1) two] n1 n'(2-6) by (intro exI [of _ "tr @ tr'"] exI [of _ n']) simp
  next
    case (Delivering actions)
    then have "\<not> pinging (node_keepalive n)" using assms(1) by (simp add: lock_inv_def)
    with finish_delivering [OF Delivering, of env] show ?thesis by force
  qed (use assms(2) in simp)
qed

lemma drain:
  assumes "node_run env su tr n" "\<not> env_debug env"
  shows "\<exists>tr' n'. serves env n tr' n' \<and> handled tr' = node_events n \<and> node_loop n' = Idle \<and>
    node_events n' = [] \<and> node_tasks n' = node_tasks n"
  using assms(1)
proof (induction "node_events n" arbitrary: tr n)
  case Nil
  obtain tr' n' where "serves env n tr' n'" "handled tr' = []" "node_loop n' = Idle"
    "node_events n' = node_events n" "node_tasks n' = node_tasks n"
    using become_idle [OF node_run_lock [OF Nil.prems] release_no_panic [OF Nil.prems assms(2)]] by blast
  with Nil.hyps show ?case by auto
next
  case (Cons ev es)
  obtain tr1 n1 where n1: "serves env n tr1 n1" "handled tr1 = []" "node_loop n1 = Idle"
    "node_events n1 = node_events n" "node_tasks n1 = node_tasks n"
    using become_idle [OF node_run_lock [OF Cons.prems] release_no_panic [OF Cons.prems assms(2)]] by blast
  have run1: "node_run env su (tr @ tr1) n1" using serves_run [OF n1(1) Cons.prems assms(2)] .
  obtain r actions where "Router_handle_event False (\<lambda>_. 0) ev (node_router n1) = Inr (r, actions)"
    using event_no_panic [OF node_router_ok [OF run1]] by blast
  moreover have "node_events n1 = ev # es" using n1(4) Cons.hyps(2) by simp
  ultimately have "event_loop env (\<lambda>_. 0) n1 =
      Some ([Handled ev], n1\<lparr>node_router := r, node_events := es, node_loop := Computed actions\<rparr>)"
    (is "_ = Some (_, ?n2)") using n1(3) assms(2) by (simp add: event_loop_def)
  with n1(1) have two: "serves env n (tr1 @ [Handled ev]) ?n2" by (rule serves.loop)
  obtain tr' n' where n': "serves env ?n2 tr' n'" "handled tr' = es" "node_loop n' = Idle"
    "node_events n' = []" "node_tasks n' = node_tasks ?n2"
    using Cons.hyps(1) [OF _ serves_run [OF two Cons.prems assms(2)]] by auto
  have "handled ((tr1 @ [Handled ev]) @ tr') = ev # es"
    using n1(2) n'(2) by (simp only: obs_append obs_single append_Nil append_Cons)
  with serves_trans [OF n'(1) two] n1(5) n'(3-5) Cons.hyps(2) show ?case
    by (intro exI [of _ "(tr1 @ [Handled ev]) @ tr'"] exI [of _ n']) (simp only: simp_thms, simp)
qed

subsection \<open>Properties\<close>

text \<open>The node does not deadlock.  In a release build no sequence of events panics the event loop,
  and from every reachable state, whatever the tasks hold and however full the channels are, the
  event loop, the keepalive task and the writer tasks can by their own steps handle all events that
  are in the channel, in their order, and deliver the resulting actions, so that the event loop
  waits for the next event.  No step of a connection's task and no byte from a remote side is needed;
  a write to a socket may succeed or fail.\<close>

theorem node_makes_progress:
  assumes "node_run env su tr n" "\<not> env_debug env"
  shows "node_loop n \<noteq> Panicked \<and>
    (\<exists>tr' n'. serves env n tr' n' \<and> node_run env su (tr @ tr') n' \<and> handled tr' = node_events n \<and>
      node_loop n' = Idle \<and> node_events n' = [] \<and> node_tasks n' = node_tasks n)"
proof -
  obtain tr' n' where "serves env n tr' n'" "handled tr' = node_events n" "node_loop n' = Idle"
    "node_events n' = []" "node_tasks n' = node_tasks n"
    using drain [OF assms] by blast
  then show ?thesis using release_no_panic [OF assms] serves_run [OF _ assms] by blast
qed

theorem node_makes_progress_witness:
  "\<exists>tr n'. node_run demo_env demo_startup tr n' \<and> node_loop n' = Idle \<and> node_events n' = [] \<and>
    node_tasks n' = node_tasks (demo_node [])"
proof -
  obtain tr where run: "node_run demo_env demo_startup tr (demo_node [])" by (rule demo_node_run)
  have "\<not> env_debug demo_env" by (simp add: demo_env_def)
  from node_makes_progress [OF run this] show ?thesis by blast
qed

end
