(* ===== verification/Fairness.thy ===== *)
theory Fairness
  imports Main
begin

text \<open>
  Weak and strong fairness of an action along an infinite run.  A run is indexed by the natural
  numbers; \<open>en i\<close> says that the action is enabled in the \<open>i\<close>-th state, \<open>taken i\<close> that the \<open>i\<close>-th
  step is one of the action.
\<close>

definition weakly_fair :: "(nat \<Rightarrow> bool) \<Rightarrow> (nat \<Rightarrow> bool) \<Rightarrow> bool" where
  "weakly_fair en taken \<longleftrightarrow> (\<forall>i. (\<forall>j \<ge> i. en j) \<longrightarrow> (\<exists>j \<ge> i. taken j))"

definition strongly_fair :: "(nat \<Rightarrow> bool) \<Rightarrow> (nat \<Rightarrow> bool) \<Rightarrow> bool" where
  "strongly_fair en taken \<longleftrightarrow> (\<forall>i. (\<forall>j \<ge> i. \<exists>k \<ge> j. en k) \<longrightarrow> (\<exists>j \<ge> i. taken j))"

lemma persists:
  assumes "P i" "\<And>j. i \<le> j \<Longrightarrow> P j \<Longrightarrow> P (Suc j)" "i \<le> j"
  shows "P j"
  using assms(3,1,2) by (induction rule: dec_induct) auto

lemma first_change:
  assumes "P i" "\<exists>j \<ge> i. \<not> P j"
  obtains k where "i \<le> k" "P k" "\<not> P (Suc k)"
  using assms persists [of P i] by blast

text \<open>As long as the goal \<open>G\<close> is not reached, \<open>P\<close> holds, the action is taken again and again, nothing
  increases the measure, and the action decreases it: then the goal is reached.\<close>

lemma descent:
  fixes \<mu> :: "nat \<Rightarrow> nat"
  assumes start: "P i"
    and again: "\<And>k. (\<And>j. i \<le> j \<Longrightarrow> P j \<and> \<not> G j) \<Longrightarrow> i \<le> k \<Longrightarrow> \<exists>j \<ge> k. taken j"
    and keep: "\<And>j. i \<le> j \<Longrightarrow> P j \<Longrightarrow> \<not> G j \<Longrightarrow> \<not> G (Suc j) \<Longrightarrow> P (Suc j) \<and> \<mu> (Suc j) \<le> \<mu> j"
    and down: "\<And>j. i \<le> j \<Longrightarrow> P j \<Longrightarrow> \<not> G j \<Longrightarrow> \<not> G (Suc j) \<Longrightarrow> taken j \<Longrightarrow> \<mu> (Suc j) < \<mu> j"
  shows "\<exists>j \<ge> i. G j"
proof (rule ccontr)
  assume never: "\<not> ?thesis"
  have P: "P j" if "i \<le> j" for j
    by (rule persists [of P i, OF start _ that]) (use keep never in auto)
  have "\<exists>j \<ge> i. \<mu> j < \<mu> k" if "i \<le> k" for k
  proof -
    have "\<exists>j \<ge> k. taken j" using P never \<open>i \<le> k\<close> by (intro again) auto
    then obtain j where j: "k \<le> j" "taken j" by blast
    have "\<mu> j \<le> \<mu> k"
      using j(1) keep P never that by (induction rule: dec_induct) (auto intro: order_trans)
    moreover have "\<mu> (Suc j) < \<mu> j" using down [of j] P j that never by auto
    ultimately show ?thesis using j(1) that by (intro exI [of _ "Suc j"]) simp
  qed
  moreover obtain k where "i \<le> k" "\<And>j. i \<le> j \<Longrightarrow> \<mu> k \<le> \<mu> j"
    using ex_has_least_nat [of "\<lambda>j. i \<le> j" i \<mu>] by blast
  ultimately show False by (meson not_less)
qed

lemma weakly_fair_again:
  "weakly_fair en taken \<Longrightarrow> (\<And>j. i \<le> j \<Longrightarrow> en j) \<Longrightarrow> i \<le> k \<Longrightarrow> \<exists>j \<ge> k. taken j"
  unfolding weakly_fair_def by (meson le_trans)

lemma strongly_fair_again:
  "strongly_fair en taken \<Longrightarrow> (\<And>j. i \<le> j \<Longrightarrow> \<exists>k \<ge> j. en k) \<Longrightarrow> i \<le> k \<Longrightarrow> \<exists>j \<ge> k. taken j"
  unfolding strongly_fair_def by (meson le_trans)

text \<open>An action is taken while \<open>P\<close> persists, if \<open>P\<close> enables it, or under strong fairness if it is
  enabled again and again.\<close>

lemma response:
  assumes "P i" "\<And>j. i \<le> j \<Longrightarrow> P j \<Longrightarrow> \<not> taken j \<Longrightarrow> P (Suc j)"
    and "(\<And>j. i \<le> j \<Longrightarrow> P j) \<Longrightarrow> \<exists>j \<ge> i. taken j"
  obtains j where "i \<le> j" "P j" "taken j"
proof -
  have "\<exists>j \<ge> i. P j \<and> taken j"
  proof (rule ccontr)
    assume never: "\<not> ?thesis"
    have P: "P j" if "i \<le> j" for j
      by (rule persists [of P i, OF assms(1) _ that]) (use assms(2) never in blast)
    with assms(3) never show False by blast
  qed
  with that show ?thesis by blast
qed

lemma weakly_fair_response:
  assumes "weakly_fair en taken" "P i" "\<And>j. i \<le> j \<Longrightarrow> P j \<Longrightarrow> en j"
    and "\<And>j. i \<le> j \<Longrightarrow> P j \<Longrightarrow> \<not> taken j \<Longrightarrow> P (Suc j)"
  obtains j where "i \<le> j" "P j" "taken j"
  by (rule response [of P i taken]) (use assms weakly_fair_again [of en taken i i] in auto)

lemma strongly_fair_response:
  assumes "strongly_fair en taken" "P i" "\<And>j. i \<le> j \<Longrightarrow> P j \<Longrightarrow> \<exists>k \<ge> j. en k"
    and "\<And>j. i \<le> j \<Longrightarrow> P j \<Longrightarrow> \<not> taken j \<Longrightarrow> P (Suc j)"
  obtains j where "i \<le> j" "P j" "taken j"
  by (rule response [of P i taken]) (use assms strongly_fair_again [of en taken i i] in auto)

end
