(* ===== verification/Node_Fairness.thy ===== *)
theory Node_Fairness
  imports Node_Liveness Fairness
begin

text \<open>
  Liveness of the node under a fair scheduler.  An infinite run is fair if the event loop and the
  tasks of the connections, which wait for a lock or for room in the event channel together with
  others, are scheduled strongly fairly (the mutex and the channels of the runtime are served in the
  order of arrival), and the keepalive task and the writers, which nobody can overtake, weakly.
  Fairness of the writers includes that every socket eventually takes the bytes or fails; a task
  that waits for bytes of its peer is not required to get any.
\<close>

subsection \<open>Fair runs\<close>

primrec trace :: "(nat \<Rightarrow> obs list) \<Rightarrow> nat \<Rightarrow> obs list" where
  "trace \<omega> 0 = []"
| "trace \<omega> (Suc i) = trace \<omega> i @ \<omega> i"

definition infinite_run :: "'w Env \<Rightarrow> Startup \<Rightarrow> (nat \<Rightarrow> 'w Node) \<Rightarrow> (nat \<Rightarrow> obs list) \<Rightarrow> bool" where
  "infinite_run env su \<sigma> \<omega> \<longleftrightarrow> \<sigma> 0 = Node_new \<and> (\<forall>i. node_step env su (\<sigma> i) (\<omega> i) (\<sigma> (Suc i)))"

definition loop_enabled :: "'w Env \<Rightarrow> 'w Node \<Rightarrow> bool" where
  "loop_enabled env n \<longleftrightarrow> (\<exists>now. event_loop env now n \<noteq> None)"

definition loop_moves :: "'w Env \<Rightarrow> 'w Node \<Rightarrow> obs list \<Rightarrow> 'w Node \<Rightarrow> bool" where
  "loop_moves env n obs n' \<longleftrightarrow> (\<exists>now. event_loop env now n = Some (obs, n'))"

fun waits_for_bytes :: "'w stage \<Rightarrow> bool" where
  "waits_for_bytes (Reading _ _) = True"
| "waits_for_bytes _ = False"

definition task_enabled :: "'w Env \<Rightarrow> PeerId \<Rightarrow> 'w Node \<Rightarrow> bool" where
  "task_enabled env p n \<longleftrightarrow> (\<exists>t. hm_get p (node_tasks n) = Some t \<and>
    \<not> waits_for_bytes (task_stage t) \<and> run_peer env p t n \<noteq> None)"

definition task_moves :: "'w Env \<Rightarrow> PeerId \<Rightarrow> 'w Node \<Rightarrow> obs list \<Rightarrow> 'w Node \<Rightarrow> bool" where
  "task_moves env p n obs n' \<longleftrightarrow> (\<exists>t. hm_get p (node_tasks n) = Some t \<and> run_peer env p t n = Some (obs, n'))"

definition fair_run :: "'w Env \<Rightarrow> Startup \<Rightarrow> (nat \<Rightarrow> 'w Node) \<Rightarrow> (nat \<Rightarrow> obs list) \<Rightarrow> bool" where
  "fair_run env su \<sigma> \<omega> \<longleftrightarrow> infinite_run env su \<sigma> \<omega> \<and> \<not> env_debug env \<and>
    strongly_fair (\<lambda>i. loop_enabled env (\<sigma> i)) (\<lambda>i. loop_moves env (\<sigma> i) (\<omega> i) (\<sigma> (Suc i))) \<and>
    (\<forall>p. strongly_fair (\<lambda>i. task_enabled env p (\<sigma> i)) (\<lambda>i. task_moves env p (\<sigma> i) (\<omega> i) (\<sigma> (Suc i)))) \<and>
    weakly_fair (\<lambda>i. pinging (node_keepalive (\<sigma> i)) \<and> keepalive (\<sigma> i) \<noteq> None)
      (\<lambda>i. keepalive (\<sigma> i) = Some (\<omega> i, \<sigma> (Suc i))) \<and>
    (\<forall>p. weakly_fair (\<lambda>i. writer env p (\<sigma> i) \<noteq> None) (\<lambda>i. writer env p (\<sigma> i) = Some (\<omega> i, \<sigma> (Suc i))))"

lemma fair_step: "fair_run env su \<sigma> \<omega> \<Longrightarrow> node_step env su (\<sigma> i) (\<omega> i) (\<sigma> (Suc i))"
  by (simp add: fair_run_def infinite_run_def)

lemma fair_prefix:
  assumes "fair_run env su \<sigma> \<omega>"
  shows "node_run env su (trace \<omega> i) (\<sigma> i)"
proof (induction i)
  case 0
  show ?case using assms by (simp add: fair_run_def infinite_run_def node_run.start)
next
  case (Suc i)
  have "\<not> env_debug env" using assms by (simp add: fair_run_def)
  then show ?case
    using node_run.step [OF Suc release_no_panic [OF Suc] fair_step [OF assms]] by simp
qed

lemma fair_lock: "fair_run env su \<sigma> \<omega> \<Longrightarrow> lock_inv (\<sigma> i)"
  using fair_prefix node_run_lock by blast

lemma trace_mono: "i \<le> j \<Longrightarrow> \<exists>tr. trace \<omega> j = trace \<omega> i @ tr"
  by (induction rule: dec_induct) auto

subsection \<open>What the other tasks leave alone\<close>

lemma loop_only:
  assumes "node_step env su n obs n'" "\<not> loop_moves env n obs n'"
  shows "node_loop n' = node_loop n" "handled obs = []"
proof -
  have "node_loop n' = node_loop n \<and> handled obs = []"
    using assms(1)
  proof (cases rule: node_step_elim)
    case (peer p t st)
    then show ?thesis by (auto elim: stage_step.cases)
  next
    case (loop now)
    then show ?thesis using assms(2) by (auto simp: loop_moves_def)
  next
    case ping
    then show ?thesis
      by (cases rule: keepalive_cases) (auto dest: send_frame_keeps(1,2) simp: frames_only_def)
  next
    case (written p)
    then show ?thesis by (elim writer_cases) (auto dest: write_step_obs)
  qed simp_all
  then show "node_loop n' = node_loop n" "handled obs = []" by simp_all
qed

lemma ping_only:
  assumes "node_step env su n obs n'" "keepalive n \<noteq> Some (obs, n')"
  shows "node_keepalive n' = node_keepalive n"
  using assms(1)
proof (cases rule: node_step_elim)
  case (loop now)
  then show ?thesis by (cases rule: event_loop_cases) (auto dest: send_frame_keeps(3))
next
  case (written p)
  then show ?thesis by (elim writer_cases) simp
qed (use assms(2) in simp_all)

text \<open>While the lock of \<open>peer_senders\<close> is held, only its holder and the writers touch the channels.\<close>

lemma held_step:
  assumes "node_step env su n obs n'" "lock_inv n" "\<not> senders_free n"
    and "delivering (node_loop n) \<Longrightarrow> \<not> loop_moves env n obs n'"
    and "pinging (node_keepalive n) \<Longrightarrow> keepalive n \<noteq> Some (obs, n')"
    and "writer env p n \<noteq> Some (obs, n')"
  shows "hm_get p (node_senders n') = hm_get p (node_senders n)"
  using assms(1)
proof (cases rule: node_step_elim)
  case (spawn d mo hs segs b m)
  then show ?thesis by simp
next
  case (peer t p' st)
  then show ?thesis using assms(3) by (auto simp: task_effect_def split: stage.splits)
next
  case (loop now)
  then have "\<not> delivering (node_loop n)" using assms(4) by (auto simp: loop_moves_def)
  with loop show ?thesis by (cases rule: event_loop_cases) auto
next
  case ping
  then have "\<not> pinging (node_keepalive n)" using assms(5) by blast
  with ping show ?thesis by (cases rule: keepalive_cases) auto
next
  case (written q)
  then have "q \<noteq> p" using assms(6) by blast
  with written show ?thesis by (elim writer_cases) (simp add: hm_simps)
qed auto

subsection \<open>Room in a channel\<close>

definition full :: "PeerId \<Rightarrow> 'w Node \<Rightarrow> bool" where
  "full p n \<longleftrightarrow> (\<exists>ch. hm_get p (node_senders n) = Some ch \<and> chan_open ch \<and>
    \<not> length (chan_queue ch) < WRITE_CAPACITY)"

definition chan_work :: "PeerId \<Rightarrow> 'w Node \<Rightarrow> nat" where
  "chan_work p n = (case hm_get p (node_senders n) of Some ch \<Rightarrow> work ch | None \<Rightarrow> 0)"

lemma send_frame_full: "send_frame p f n = None \<longleftrightarrow> full p n"
  unfolding full_def using send_frame_enabled [of p f n] by metis

lemma writer_full:
  assumes "full p n"
  shows "writer env p n \<noteq> None"
    and "writer env p n = Some (obs, n') \<Longrightarrow> full p n' \<Longrightarrow> chan_work p n' < chan_work p n"
proof -
  obtain ch where ch: "hm_get p (node_senders n) = Some ch" "chan_open ch" "chan_queue ch \<noteq> []"
    using assms by (fastforce simp: full_def WRITE_CAPACITY_def)
  obtain obs1 ch1 where step: "write_step env p ch = Some (obs1, ch1)" "\<not> chan_open ch1 \<or> work ch1 < work ch"
    using write_step_progress [OF ch(2,3)] by metis
  show "writer env p n \<noteq> None" using ch(1) step(1) by (simp add: writer_def)
  show "chan_work p n' < chan_work p n" if "writer env p n = Some (obs, n')" "full p n'"
    using that ch(1) step by (auto simp: writer_def chan_work_def full_def hm_simps)
qed

lemma writer_not_fuller:
  assumes "writer env q n = Some (obs, n')" "full p n'"
  shows "full p n"
  using assms
  by (elim writer_cases)
    (auto simp: full_def hm_simps write_step_def split: if_splits option.splits list.splits sum.splits)

text \<open>Whoever holds the lock and waits for room in a channel gets it.\<close>

lemma room_comes:
  assumes fair: "fair_run env su \<sigma> \<omega>" and "W (\<sigma> i)"
    and wait: "\<And>n obs n'. node_step env su n obs n' \<Longrightarrow> lock_inv n \<Longrightarrow> W n \<Longrightarrow> full p n \<Longrightarrow>
      W n' \<and> (hm_get p (node_senders n') = hm_get p (node_senders n) \<or> writer env p n = Some (obs, n'))"
  obtains j where "i \<le> j" "W (\<sigma> j)" "\<not> full p (\<sigma> j)"
proof -
  have writers: "weakly_fair (\<lambda>i. writer env p (\<sigma> i) \<noteq> None) (\<lambda>i. writer env p (\<sigma> i) = Some (\<omega> i, \<sigma> (Suc i)))"
    using fair by (simp add: fair_run_def)
  have "\<exists>j \<ge> i. W (\<sigma> j) \<and> \<not> full p (\<sigma> j)"
  proof (rule descent [where P = "\<lambda>j. W (\<sigma> j)" and \<mu> = "\<lambda>j. chan_work p (\<sigma> j)"])
    show "W (\<sigma> i)" by fact
    show "\<exists>j \<ge> k. writer env p (\<sigma> j) = Some (\<omega> j, \<sigma> (Suc j))"
      if "\<And>j. i \<le> j \<Longrightarrow> W (\<sigma> j) \<and> \<not> (W (\<sigma> j) \<and> \<not> full p (\<sigma> j))" "i \<le> k" for k
      using weakly_fair_again [OF writers _ that(2)] that(1) writer_full(1) by blast
  next
    fix j assume j: "W (\<sigma> j)" "\<not> (W (\<sigma> j) \<and> \<not> full p (\<sigma> j))" "\<not> (W (\<sigma> (Suc j)) \<and> \<not> full p (\<sigma> (Suc j)))"
    note next_state = wait [OF fair_step [OF fair] fair_lock [OF fair], of j]
    show "W (\<sigma> (Suc j)) \<and> chan_work p (\<sigma> (Suc j)) \<le> chan_work p (\<sigma> j)"
      using next_state j writer_full(2) [of p "\<sigma> j" env "\<omega> j" "\<sigma> (Suc j)"] by (auto simp: chan_work_def)
    show "chan_work p (\<sigma> (Suc j)) < chan_work p (\<sigma> j)" if "writer env p (\<sigma> j) = Some (\<omega> j, \<sigma> (Suc j))"
      using next_state j that writer_full(2) [of p "\<sigma> j"] by blast
  qed
  with that show ?thesis by blast
qed

lemma loop_waits:
  assumes "node_step env su n obs n'" "lock_inv n" "node_loop n = Delivering (a # as)" "full (target a) n"
  shows "node_loop n' = Delivering (a # as) \<and>
    (hm_get (target a) (node_senders n') = hm_get (target a) (node_senders n) \<or>
      writer env (target a) n = Some (obs, n'))"
proof -
  have "event_loop env now n = None" for now
    using assms(3,4) send_frame_full [of "target a" _ n] by (simp add: event_loop_def)
  then have stuck: "\<not> loop_moves env n obs n'" by (simp add: loop_moves_def)
  moreover have "\<not> senders_free n" "\<not> pinging (node_keepalive n)"
    using assms(2,3) by (auto simp: senders_free_def lock_inv_def)
  ultimately show ?thesis
    using loop_only(1) [OF assms(1)] held_step [OF assms(1,2)] assms(3) by metis
qed

lemma ping_waits:
  assumes "node_step env su n obs n'" "lock_inv n" "node_keepalive n = Pinging (p # ps)" "full p n"
  shows "node_keepalive n' = Pinging (p # ps) \<and>
    (hm_get p (node_senders n') = hm_get p (node_senders n) \<or> writer env p n = Some (obs, n'))"
proof -
  have stuck: "keepalive n \<noteq> Some (obs, n')"
    using assms(3,4) send_frame_full [of p _ n] by (simp add: keepalive_def)
  moreover have "\<not> senders_free n" "\<not> delivering (node_loop n)"
    using assms(2,3) by (auto simp: senders_free_def lock_inv_def)
  ultimately show ?thesis
    using ping_only [OF assms(1)] held_step [OF assms(1,2)] assms(3) by metis
qed

subsection \<open>The lock is released\<close>

lemma delivering_enabled:
  assumes "fair_run env su \<sigma> \<omega>" "delivering (node_loop (\<sigma> i))"
  shows "\<exists>j \<ge> i. loop_enabled env (\<sigma> j)"
proof (cases "node_loop (\<sigma> i)")
  case (Delivering as)
  show ?thesis
  proof (cases as)
    case Nil
    then show ?thesis using Delivering by (auto simp: loop_enabled_def event_loop_def)
  next
    case (Cons a as')
    then obtain j where j: "i \<le> j" "node_loop (\<sigma> j) = Delivering (a # as')" "\<not> full (target a) (\<sigma> j)"
      using room_comes [OF assms(1), where W = "\<lambda>n. node_loop n = Delivering (a # as')" and p = "target a"]
        loop_waits Delivering by metis
    then have "loop_enabled env (\<sigma> j)"
      using send_frame_full [of "target a" "to_frame (sent_message a)" "\<sigma> j"]
      by (auto simp: loop_enabled_def event_loop_def)
    with j(1) show ?thesis by blast
  qed
qed (use assms(2) in simp_all)

lemma keepalive_ready:
  "node_keepalive n = Pinging [] \<Longrightarrow> keepalive n \<noteq> None"
  "node_keepalive n = Pinging (p # ps) \<Longrightarrow> \<not> full p n \<Longrightarrow> keepalive n \<noteq> None"
  using send_frame_full [of p "to_frame GetPeers" n] by (auto simp: keepalive_def)

lemma ping_taken:
  assumes fair: "fair_run env su \<sigma> \<omega>" and "Q (\<sigma> i)"
    and ready: "\<And>n. Q n \<Longrightarrow> pinging (node_keepalive n) \<and> keepalive n \<noteq> None"
    and stable: "\<And>n obs n'. node_step env su n obs n' \<Longrightarrow> lock_inv n \<Longrightarrow> keepalive n \<noteq> Some (obs, n') \<Longrightarrow>
      Q n \<Longrightarrow> Q n'"
  obtains j where "i \<le> j" "Q (\<sigma> j)" "keepalive (\<sigma> j) = Some (\<omega> j, \<sigma> (Suc j))"
proof -
  have "weakly_fair (\<lambda>i. pinging (node_keepalive (\<sigma> i)) \<and> keepalive (\<sigma> i) \<noteq> None)
      (\<lambda>i. keepalive (\<sigma> i) = Some (\<omega> i, \<sigma> (Suc i)))"
    using fair by (simp add: fair_run_def)
  then show ?thesis
    by (rule weakly_fair_response [where P = "\<lambda>j. Q (\<sigma> j)" and i = i])
      (use assms(2) ready stable fair_step [OF fair] fair_lock [OF fair] that in blast)+
qed

lemma ping_unblocked:
  assumes "node_step env su n obs n'" "lock_inv n" "keepalive n \<noteq> Some (obs, n')"
    and "node_keepalive n = Pinging (p # ps) \<and> \<not> full p n"
  shows "node_keepalive n' = Pinging (p # ps) \<and> \<not> full p n'"
proof (cases "writer env p n = Some (obs, n')")
  case True
  then show ?thesis using assms(4) ping_only [OF assms(1,3)] writer_not_fuller by fastforce
next
  case False
  have "\<not> senders_free n" "\<not> delivering (node_loop n)"
    using assms(2,4) by (auto simp: senders_free_def lock_inv_def)
  then have "hm_get p (node_senders n') = hm_get p (node_senders n)"
    using held_step [OF assms(1,2)] assms(3) False by blast
  then show ?thesis using assms(4) ping_only [OF assms(1,3)] by (simp add: full_def)
qed

lemma pinging_ends:
  assumes fair: "fair_run env su \<sigma> \<omega>" and "node_keepalive (\<sigma> i) = Pinging ps"
  shows "\<exists>j \<ge> i. \<not> pinging (node_keepalive (\<sigma> j))"
  using assms(2)
proof (induction ps arbitrary: i)
  case Nil
  have stable: "node_keepalive n' = Pinging []"
    if "node_step env su n obs n'" "keepalive n \<noteq> Some (obs, n')" "node_keepalive n = Pinging []" for n obs n'
    using ping_only [OF that(1,2)] that(3) by simp
  obtain j where j: "i \<le> j" "node_keepalive (\<sigma> j) = Pinging []" "keepalive (\<sigma> j) = Some (\<omega> j, \<sigma> (Suc j))"
    by (rule ping_taken [OF fair, where Q = "\<lambda>n. node_keepalive n = Pinging []" and i = i])
      (use Nil stable keepalive_ready(1) in auto)
  from j(3) have "\<not> pinging (node_keepalive (\<sigma> (Suc j)))"
    by (cases rule: keepalive_cases) (use j(2) in simp_all)
  with j(1) show ?case by (meson le_SucI)
next
  case (Cons p ps)
  obtain k where k: "i \<le> k" "node_keepalive (\<sigma> k) = Pinging (p # ps)" "\<not> full p (\<sigma> k)"
    by (rule room_comes [OF fair, where W = "\<lambda>n. node_keepalive n = Pinging (p # ps)" and p = p and i = i])
      (rule Cons.prems, erule (3) ping_waits)
  define Q where "Q n \<longleftrightarrow> node_keepalive n = Pinging (p # ps) \<and> \<not> full p n" for n :: "'a Node"
  have "Q (\<sigma> k)" using k by (simp add: Q_def)
  moreover have "pinging (node_keepalive n) \<and> keepalive n \<noteq> None" if "Q n" for n
    using that keepalive_ready(2) by (auto simp: Q_def)
  moreover have "Q n'"
    if "node_step env su n obs n'" "lock_inv n" "keepalive n \<noteq> Some (obs, n')" "Q n" for n obs n'
    using ping_unblocked [OF that(1-3)] that(4) by (simp add: Q_def)
  ultimately obtain j where j: "k \<le> j" "Q (\<sigma> j)" "keepalive (\<sigma> j) = Some (\<omega> j, \<sigma> (Suc j))"
    using ping_taken [OF fair, where Q = Q and i = k] by blast
  from j(3) have "node_keepalive (\<sigma> (Suc j)) = Pinging ps"
    by (cases rule: keepalive_cases) (use j(2) in \<open>simp_all add: Q_def\<close>)
  from Cons.IH [OF this] show ?case using j(1) k(1) by (meson le_SucI le_trans)
qed

subsection \<open>Events are handled\<close>

fun loop_work :: "loop_state \<Rightarrow> nat" where
  "loop_work (Computed actions) = length actions + 2"
| "loop_work (Delivering actions) = length actions + 1"
| "loop_work _ = 0"

lemma loop_moves_work:
  assumes "loop_moves env n obs n'" "handled obs = []"
  shows "loop_work (node_loop n') < loop_work (node_loop n)"
proof -
  obtain now where "event_loop env now n = Some (obs, n')" using assms(1) by (auto simp: loop_moves_def)
  then show ?thesis by (cases rule: event_loop_cases) (use assms(2) in auto)
qed

lemma fair_loop:
  "fair_run env su \<sigma> \<omega> \<Longrightarrow>
    strongly_fair (\<lambda>i. loop_enabled env (\<sigma> i)) (\<lambda>i. loop_moves env (\<sigma> i) (\<omega> i) (\<sigma> (Suc i)))"
  by (simp add: fair_run_def)

lemma loop_work_step:
  assumes "fair_run env su \<sigma> \<omega>" "handled (\<omega> j) = []"
  shows "loop_work (node_loop (\<sigma> (Suc j))) \<le> loop_work (node_loop (\<sigma> j))"
  using loop_moves_work [of env "\<sigma> j" "\<omega> j" "\<sigma> (Suc j)"] loop_only(1) [OF fair_step [OF assms(1)]] assms(2)
  by (cases "loop_moves env (\<sigma> j) (\<omega> j) (\<sigma> (Suc j))") auto

lemma not_panicked:
  assumes "fair_run env su \<sigma> \<omega>"
  shows "node_loop (\<sigma> i) \<noteq> Panicked"
proof -
  have "\<not> env_debug env" using assms by (simp add: fair_run_def)
  then show ?thesis by (rule release_no_panic [OF fair_prefix [OF assms]])
qed

lemma busy_enabled:
  assumes fair: "fair_run env su \<sigma> \<omega>" and busy: "node_loop (\<sigma> i) \<noteq> Idle \<or> node_events (\<sigma> i) \<noteq> []"
  shows "\<exists>j \<ge> i. loop_enabled env (\<sigma> j)"
proof (cases "node_loop (\<sigma> i)")
  case Idle
  with busy have "loop_enabled env (\<sigma> i)"
    by (auto simp: loop_enabled_def event_loop_def neq_Nil_conv split: sum.splits)
  then show ?thesis by blast
next
  case (Computed actions)
  show ?thesis
  proof (rule ccontr)
    assume never: "\<not> ?thesis"
    have same: "node_loop (\<sigma> j) = Computed actions" if "i \<le> j" for j
    proof (rule persists [of "\<lambda>j. node_loop (\<sigma> j) = Computed actions" i, OF Computed _ that])
      fix j assume "i \<le> j" "node_loop (\<sigma> j) = Computed actions"
      moreover have "\<not> loop_moves env (\<sigma> j) (\<omega> j) (\<sigma> (Suc j))"
        using never \<open>i \<le> j\<close> by (auto simp: loop_enabled_def loop_moves_def)
      ultimately show "node_loop (\<sigma> (Suc j)) = Computed actions"
        using loop_only(1) [OF fair_step [OF fair]] by metis
    qed
    have "\<exists>j \<ge> i. \<not> pinging (node_keepalive (\<sigma> j))"
      using pinging_ends [OF fair, of i] by (cases "node_keepalive (\<sigma> i)") auto
    then obtain j where "i \<le> j" "\<not> pinging (node_keepalive (\<sigma> j))" by blast
    then have "loop_enabled env (\<sigma> j)"
      using same [of j] by (simp add: loop_enabled_def event_loop_def senders_free_def)
    with never \<open>i \<le> j\<close> show False by blast
  qed
next
  case (Delivering actions)
  then show ?thesis using delivering_enabled [OF fair, of i] by simp
next
  case Panicked
  then show ?thesis using not_panicked [OF fair] by simp
qed

lemma node_events_step:
  assumes "node_step env su n obs n'" "handled obs = []"
  shows "\<exists>es. node_events n' = node_events n @ es"
  using assms(1) by (cases rule: node_step_cases) (use assms(2) in \<open>auto simp: frames_only_def\<close>)

lemma next_event:
  assumes fair: "fair_run env su \<sigma> \<omega>" and "node_events (\<sigma> i) \<noteq> []"
  shows "\<exists>j \<ge> i. handled (\<omega> j) \<noteq> []"
proof (rule descent [where P = "\<lambda>j. node_events (\<sigma> j) \<noteq> []" and \<mu> = "\<lambda>j. loop_work (node_loop (\<sigma> j))"])
  show "node_events (\<sigma> i) \<noteq> []" by fact
  show "\<exists>j \<ge> k. loop_moves env (\<sigma> j) (\<omega> j) (\<sigma> (Suc j))"
    if "\<And>j. i \<le> j \<Longrightarrow> node_events (\<sigma> j) \<noteq> [] \<and> \<not> handled (\<omega> j) \<noteq> []" "i \<le> k" for k
    using strongly_fair_again [OF fair_loop [OF fair] _ that(2)] that(1) busy_enabled [OF fair] by blast
next
  fix j assume j: "node_events (\<sigma> j) \<noteq> []" "\<not> handled (\<omega> j) \<noteq> []"
  show "node_events (\<sigma> (Suc j)) \<noteq> [] \<and> loop_work (node_loop (\<sigma> (Suc j))) \<le> loop_work (node_loop (\<sigma> j))"
    using j node_events_step [OF fair_step [OF fair], of j] loop_work_step [OF fair] by auto
  show "loop_work (node_loop (\<sigma> (Suc j))) < loop_work (node_loop (\<sigma> j))"
    if "loop_moves env (\<sigma> j) (\<omega> j) (\<sigma> (Suc j))"
    using loop_moves_work [OF that] j by simp
qed

lemma all_handled:
  assumes fair: "fair_run env su \<sigma> \<omega>"
  shows "\<exists>j \<ge> i. prefix (posted (trace \<omega> i)) (handled (trace \<omega> j))"
proof -
  define m where "m = length (posted (trace \<omega> i))"
  have events: "posted (trace \<omega> k) = handled (trace \<omega> k) @ node_events (\<sigma> k)" for k
    using node_run_events [OF fair_prefix [OF fair]] by simp
  have later: "prefix (posted (trace \<omega> i)) (posted (trace \<omega> k))" if "i \<le> k" for k
    using trace_mono [OF that, of \<omega>] by auto
  have "\<exists>j \<ge> i. m \<le> length (handled (trace \<omega> j))"
    if "i \<le> k" "m - length (handled (trace \<omega> k)) = d" for k d
    using that
  proof (induction d arbitrary: k rule: less_induct)
    case (less d)
    show ?case
    proof (cases "m \<le> length (handled (trace \<omega> k))")
      case False
      have "node_events (\<sigma> k) \<noteq> []"
        using events [of k] prefix_length_le [OF later [OF less.prems(1)]] False by (auto simp: m_def)
      then obtain j where j: "k \<le> j" "handled (\<omega> j) \<noteq> []" using next_event [OF fair] by blast
      obtain tr where "trace \<omega> j = trace \<omega> k @ tr" using trace_mono [OF j(1)] by blast
      then have "length (handled (trace \<omega> k)) < length (handled (trace \<omega> (Suc j)))"
        using j(2) by simp
      then show ?thesis using less.IH [of _ "Suc j", OF _ _ refl] less.prems j(1) False by simp
    qed (use less.prems in blast)
  qed
  then obtain j where j: "i \<le> j" "m \<le> length (handled (trace \<omega> j))" by blast
  have "prefix (handled (trace \<omega> j)) (posted (trace \<omega> j))" using events [of j] by simp
  with later [OF j(1)] j show ?thesis unfolding m_def by (blast intro: prefix_length_prefix)
qed

end
