(* ===== verification/Node_Eventually.thy ===== *)
theory Node_Eventually
  imports Node_Fairness
begin

text \<open>
  What happens eventually in a fair run: every event is handled and its actions are delivered,
  every queued frame is written unless the connection breaks, and a peer whose connection was lost
  is forgotten.
\<close>

subsection \<open>Frames are written\<close>

lemma channel_kept:
  assumes step: "node_step env su n obs n'" and reg: "registry_inv n" and other: "writer env p n \<noteq> Some (obs, n')"
    and ch: "hm_get p (node_senders n) = Some ch" and ch': "hm_get p (node_senders n') = Some ch'"
  shows "chan_current ch' = chan_current ch \<and> written p obs = []"
  using step
proof (cases rule: node_step_elim)
  case (spawn d mo hs segs b m)
  then show ?thesis using ch ch' by simp
next
  case (peer q t st)
  have "p \<in> hm_dom (node_senders n)" using ch by (simp add: hm_dom_get)
  then have "\<exists>st. stage_of p n = Some st \<and> open_stage st" using reg by (simp add: registry_inv_def)
  then have "q = p \<Longrightarrow> open_stage (task_stage t)" using stage_of_task [OF peer(1)] by simp
  then have "hm_get p (node_senders n') = hm_get p (node_senders n)"
    using ch' peer(3) by (auto simp: task_effect_def hm_simps split: stage.splits if_splits)
  moreover have "written p obs = []" using peer(2) by cases auto
  ultimately show ?thesis using ch ch' by simp
next
  case (loop now)
  then show ?thesis
  proof (cases rule: event_loop_cases)
    case (deliver a actions n1)
    from deliver(2) show ?thesis
      by (cases rule: send_frame_cases) (use deliver(3) ch ch' in \<open>auto simp: hm_simps split: if_splits\<close>)
  qed (use ch ch' in auto)
next
  case ping
  then show ?thesis
  proof (cases rule: keepalive_cases)
    case (deliver q ps n1)
    from deliver(2) show ?thesis
      by (cases rule: send_frame_cases) (use deliver(3) ch ch' in \<open>auto simp: hm_simps split: if_splits\<close>)
  qed (use ch ch' in auto)
next
  case (written q)
  then have "q \<noteq> p" using other by blast
  moreover have "written p obs = []" if "write_step env q c = Some (obs, c')" for c c'
    using that \<open>q \<noteq> p\<close> by (auto simp: write_step_def split: if_splits option.splits list.splits sum.splits)
  ultimately show ?thesis using written ch ch' by (elim writer_cases) (simp add: hm_simps)
qed (use ch ch' in auto)

definition to_write :: "PeerId \<Rightarrow> nat \<Rightarrow> obs list \<Rightarrow> 'w Node \<Rightarrow> nat" where
  "to_write p m tr n = 2 * (m - length (written p tr)) +
    (case hm_get p (node_senders n) of Some ch \<Rightarrow> (if chan_current ch = None then 1 else 0) | None \<Rightarrow> 0)"

lemma writer_to_write:
  assumes "writer env p n = Some (obs, n')" "hm_get p (node_senders n') = Some ch'" "chan_open ch'"
    and "length (written p tr) < m"
  shows "to_write p m (tr @ obs) n' < to_write p m tr n"
proof -
  obtain ch where ch: "hm_get p (node_senders n) = Some ch" "write_step env p ch = Some (obs, ch')"
    using assms(1,2) by (elim writer_cases) (auto simp: hm_simps)
  from ch(2) have "2 * (m - length (written p (tr @ obs))) + (if chan_current ch' = None then 1 else 0) <
      2 * (m - length (written p tr)) + (if chan_current ch = None then 1 else 0)"
    using assms(3,4) by (auto simp: write_step_def split: if_splits option.splits list.splits sum.splits)
  then show ?thesis using assms(2) ch(1) by (simp add: to_write_def)
qed

definition writing :: "PeerId \<Rightarrow> 'w Node \<Rightarrow> bool" where
  "writing p n \<longleftrightarrow> (\<exists>ch. hm_get p (node_senders n) = Some ch \<and> chan_open ch)"

lemma fair_registry:
  assumes "fair_run env su \<sigma> \<omega>"
  shows "registry_inv (\<sigma> i)"
  by (rule node_run_registry [OF fair_prefix [OF assms] not_panicked [OF assms]])

lemma writer_ready:
  assumes "node_run env su tr n" "writing p n" "length (written p tr) < length (queued p tr)"
  shows "writer env p n \<noteq> None"
proof -
  obtain ch where ch: "hm_get p (node_senders n) = Some ch" "chan_open ch"
    using assms(2) by (auto simp: writing_def)
  then have "queued p tr = written p tr @ in_flight ch"
    using node_run_queue [OF assms(1)] by (simp add: queue_inv_def)
  then have "in_flight ch \<noteq> []" using assms(3) by auto
  then show ?thesis
    using ch
    by (auto simp: writer_def write_step_def in_flight_def split: option.splits list.splits sum.splits)
qed

lemma all_written:
  assumes fair: "fair_run env su \<sigma> \<omega>"
  shows "\<exists>j \<ge> i. \<not> writing p (\<sigma> j) \<or> prefix (queued p (trace \<omega> i)) (written p (trace \<omega> j))"
proof -
  define m where "m = length (queued p (trace \<omega> i))"
  have later: "prefix (queued p (trace \<omega> i)) (queued p (trace \<omega> k))" if "i \<le> k" for k
    using trace_mono [OF that, of \<omega>] by auto
  have writers: "weakly_fair (\<lambda>i. writer env p (\<sigma> i) \<noteq> None) (\<lambda>i. writer env p (\<sigma> i) = Some (\<omega> i, \<sigma> (Suc i)))"
    using fair by (simp add: fair_run_def)
  let ?G = "\<lambda>j. \<not> writing p (\<sigma> j) \<or> m \<le> length (written p (trace \<omega> j))"
  have "\<exists>j \<ge> i. ?G j"
  proof (rule descent [where P = "\<lambda>j. True" and \<mu> = "\<lambda>j. to_write p m (trace \<omega> j) (\<sigma> j)"])
    show "\<exists>j \<ge> k. writer env p (\<sigma> j) = Some (\<omega> j, \<sigma> (Suc j))"
      if never: "\<And>j. i \<le> j \<Longrightarrow> True \<and> \<not> ?G j" and k: "i \<le> k" for k
    proof (rule weakly_fair_again [OF writers _ k])
      fix j assume "i \<le> j"
      then show "writer env p (\<sigma> j) \<noteq> None"
        using never [of j] prefix_length_le [OF later, of j]
        by (intro writer_ready [OF fair_prefix [OF fair]]) (simp_all add: m_def)
    qed
  next
    fix j assume j: "\<not> ?G j" "\<not> ?G (Suc j)"
    then obtain ch ch' where ch: "hm_get p (node_senders (\<sigma> j)) = Some ch"
        "hm_get p (node_senders (\<sigma> (Suc j))) = Some ch'" "chan_open ch'"
      by (auto simp: writing_def)
    show less: "to_write p m (trace \<omega> (Suc j)) (\<sigma> (Suc j)) < to_write p m (trace \<omega> j) (\<sigma> j)"
      if "writer env p (\<sigma> j) = Some (\<omega> j, \<sigma> (Suc j))"
      using writer_to_write [OF that ch(2,3)] j(1) by simp
    show "True \<and> to_write p m (trace \<omega> (Suc j)) (\<sigma> (Suc j)) \<le> to_write p m (trace \<omega> j) (\<sigma> j)"
    proof (cases "writer env p (\<sigma> j) = Some (\<omega> j, \<sigma> (Suc j))")
      case False
      from channel_kept [OF fair_step [OF fair] fair_registry [OF fair] this ch(1,2)] show ?thesis
        using ch by (simp add: to_write_def)
    qed (use less in simp)
  qed simp
  then obtain j where j: "i \<le> j" "?G j" by blast
  have "prefix (written p (trace \<omega> j)) (queued p (trace \<omega> j))"
    using node_run_queue [OF fair_prefix [OF fair]] by (simp add: queue_inv_def)
  with later [OF j(1)] j show ?thesis unfolding m_def by (blast intro: prefix_length_prefix)
qed

subsection \<open>The event loop and the lock\<close>

lemma idle_again:
  assumes fair: "fair_run env su \<sigma> \<omega>"
  shows "\<exists>j \<ge> i. node_loop (\<sigma> j) = Idle"
proof (rule descent [where P = "\<lambda>j. True" and \<mu> = "\<lambda>j. loop_work (node_loop (\<sigma> j))"])
  show "\<exists>j \<ge> k. loop_moves env (\<sigma> j) (\<omega> j) (\<sigma> (Suc j))"
    if "\<And>j. i \<le> j \<Longrightarrow> True \<and> node_loop (\<sigma> j) \<noteq> Idle" "i \<le> k" for k
    using strongly_fair_again [OF fair_loop [OF fair] _ that(2)] that(1) busy_enabled [OF fair] by blast
next
  fix j assume j: "node_loop (\<sigma> j) \<noteq> Idle"
  have quiet: "handled (\<omega> j) = []"
  proof (cases "loop_moves env (\<sigma> j) (\<omega> j) (\<sigma> (Suc j))")
    case True
    then show ?thesis
      using frames_only_loop_step [OF _ j] by (auto simp: loop_moves_def frames_only_def)
  next
    case False
    then show ?thesis using loop_only(2) [OF fair_step [OF fair]] by blast
  qed
  show "True \<and> loop_work (node_loop (\<sigma> (Suc j))) \<le> loop_work (node_loop (\<sigma> j))"
    using loop_work_step [OF fair quiet] by simp
  show "loop_work (node_loop (\<sigma> (Suc j))) < loop_work (node_loop (\<sigma> j))"
    if "loop_moves env (\<sigma> j) (\<omega> j) (\<sigma> (Suc j))"
    using loop_moves_work [OF that quiet] .
qed simp

lemma released:
  assumes "node_step env su n obs n'" "lock_inv n" "\<not> senders_free n"
    and "delivering (node_loop n) \<Longrightarrow> \<not> delivering (node_loop n')"
    and "pinging (node_keepalive n) \<Longrightarrow> \<not> pinging (node_keepalive n')"
  shows "senders_free n'"
proof (cases "delivering (node_loop n)")
  case True
  then have "\<not> pinging (node_keepalive n)" using assms(2) by (simp add: lock_inv_def)
  moreover have "\<not> pinging (node_keepalive n')"
  proof (cases "keepalive n = Some (obs, n')")
    case moved: True
    then show ?thesis
      by (cases rule: keepalive_cases) (use assms(3) \<open>\<not> pinging (node_keepalive n)\<close> in auto)
  next
    case False
    then show ?thesis using ping_only [OF assms(1)] \<open>\<not> pinging (node_keepalive n)\<close> by simp
  qed
  ultimately show ?thesis using assms(4) True by (simp add: senders_free_def)
next
  case False
  then have ping: "pinging (node_keepalive n)" using assms(3) by (simp add: senders_free_def)
  have "\<not> delivering (node_loop n')"
  proof (cases "loop_moves env n obs n'")
    case True
    then obtain now where "event_loop env now n = Some (obs, n')" by (auto simp: loop_moves_def)
    then show ?thesis by (cases rule: event_loop_cases) (use assms(3) False in auto)
  next
    case unmoved: False
    then show ?thesis using loop_only(1) [OF assms(1)] False by simp
  qed
  then show ?thesis using assms(5) ping by (simp add: senders_free_def)
qed

lemma free_again:
  assumes fair: "fair_run env su \<sigma> \<omega>"
  shows "\<exists>j \<ge> i. senders_free (\<sigma> j)"
proof -
  consider "senders_free (\<sigma> i)" | "delivering (node_loop (\<sigma> i))" | "pinging (node_keepalive (\<sigma> i))"
    by (auto simp: senders_free_def)
  then show ?thesis
  proof cases
    case 2
    moreover have "\<exists>j \<ge> i. \<not> delivering (node_loop (\<sigma> j))" using idle_again [OF fair, of i] by fastforce
    ultimately obtain k where k: "i \<le> k" "delivering (node_loop (\<sigma> k))" "\<not> delivering (node_loop (\<sigma> (Suc k)))"
      using first_change [of "\<lambda>j. delivering (node_loop (\<sigma> j))" i] by metis
    then have "senders_free (\<sigma> (Suc k))"
      using released [OF fair_step [OF fair] fair_lock [OF fair], of k] fair_lock [OF fair, of k]
      by (simp add: senders_free_def lock_inv_def)
    with k(1) show ?thesis by (meson le_SucI)
  next
    case 3
    moreover have "\<exists>j \<ge> i. \<not> pinging (node_keepalive (\<sigma> j))"
      using 3 pinging_ends [OF fair, of i] by (cases "node_keepalive (\<sigma> i)") auto
    ultimately obtain k where k: "i \<le> k" "pinging (node_keepalive (\<sigma> k))" "\<not> pinging (node_keepalive (\<sigma> (Suc k)))"
      using first_change [of "\<lambda>j. pinging (node_keepalive (\<sigma> j))" i] by metis
    then have "senders_free (\<sigma> (Suc k))"
      using released [OF fair_step [OF fair] fair_lock [OF fair], of k] fair_lock [OF fair, of k]
      by (simp add: senders_free_def lock_inv_def)
    with k(1) show ?thesis by (meson le_SucI)
  qed blast
qed

lemma event_room_again:
  assumes fair: "fair_run env su \<sigma> \<omega>"
  shows "\<exists>j \<ge> i. length (node_events (\<sigma> j)) < EVENT_CAPACITY"
proof (cases "node_events (\<sigma> i) = []")
  case True
  then show ?thesis by (intro exI [of _ i]) (simp add: EVENT_CAPACITY_def)
next
  case False
  then obtain j where j: "i \<le> j" "handled (\<omega> j) \<noteq> []" using next_event [OF fair] by blast
  then obtain now where "event_loop env now (\<sigma> j) = Some (\<omega> j, \<sigma> (Suc j))"
    using loop_only(2) [OF fair_step [OF fair], of j] by (auto simp: loop_moves_def)
  then have "length (node_events (\<sigma> (Suc j))) < length (node_events (\<sigma> j))"
  proof (cases rule: event_loop_cases)
    case (deliver a actions n1)
    then show ?thesis using j(2) send_frame_keeps(1) [OF deliver(2)] by (simp add: frames_only_def)
  qed (use j(2) in auto)
  moreover have "length (node_events (\<sigma> j)) \<le> EVENT_CAPACITY"
    using node_run_events [OF fair_prefix [OF fair]] by blast
  ultimately show ?thesis using j(1) by (intro exI [of _ "Suc j"]) simp
qed

text \<open>Every action that the loop has computed is delivered.\<close>

definition delivers :: "'w Env \<Rightarrow> Action \<Rightarrow> (nat \<Rightarrow> 'w Node) \<Rightarrow> (nat \<Rightarrow> obs list) \<Rightarrow> nat \<Rightarrow> bool" where
  "delivers env a \<sigma> \<omega> j \<longleftrightarrow>
    (\<exists>as. node_loop (\<sigma> j) = Delivering (a # as)) \<and> loop_moves env (\<sigma> j) (\<omega> j) (\<sigma> (Suc j))"

lemma loop_moves_pending:
  assumes "loop_moves env n obs n'" "a \<in> set (pending_actions (node_loop n))"
    and "\<And>as. node_loop n \<noteq> Delivering (a # as)"
  shows "a \<in> set (pending_actions (node_loop n'))" "handled obs = []"
proof -
  obtain now where "event_loop env now n = Some (obs, n')" using assms(1) by (auto simp: loop_moves_def)
  then have "a \<in> set (pending_actions (node_loop n')) \<and> handled obs = []"
  proof (cases rule: event_loop_cases)
    case (deliver b actions n1)
    then have "b \<noteq> a" using assms(3) by auto
    with deliver assms(2) show ?thesis using send_frame_keeps(1) [OF deliver(2)] by (auto simp: frames_only_def)
  qed (use assms(2) in auto)
  then show "a \<in> set (pending_actions (node_loop n'))" "handled obs = []" by auto
qed

lemma action_delivered:
  assumes fair: "fair_run env su \<sigma> \<omega>" and "a \<in> set (pending_actions (node_loop (\<sigma> i)))"
  shows "\<exists>j \<ge> i. delivers env a \<sigma> \<omega> j"
proof (rule descent [where P = "\<lambda>j. a \<in> set (pending_actions (node_loop (\<sigma> j)))"
      and \<mu> = "\<lambda>j. loop_work (node_loop (\<sigma> j))"])
  show "a \<in> set (pending_actions (node_loop (\<sigma> i)))" by fact
  show "\<exists>j \<ge> k. loop_moves env (\<sigma> j) (\<omega> j) (\<sigma> (Suc j))"
    if P: "\<And>j. i \<le> j \<Longrightarrow> a \<in> set (pending_actions (node_loop (\<sigma> j))) \<and> \<not> delivers env a \<sigma> \<omega> j" and k: "i \<le> k" for k
  proof (rule strongly_fair_again [OF fair_loop [OF fair] _ k])
    fix j assume "i \<le> j"
    then have "node_loop (\<sigma> j) \<noteq> Idle" using P [of j] by auto
    then show "\<exists>k \<ge> j. loop_enabled env (\<sigma> k)" using busy_enabled [OF fair] by blast
  qed
next
  fix j assume j: "a \<in> set (pending_actions (node_loop (\<sigma> j)))" "\<not> delivers env a \<sigma> \<omega> j"
  show "a \<in> set (pending_actions (node_loop (\<sigma> (Suc j)))) \<and> loop_work (node_loop (\<sigma> (Suc j))) \<le> loop_work (node_loop (\<sigma> j))"
  proof (cases "loop_moves env (\<sigma> j) (\<omega> j) (\<sigma> (Suc j))")
    case True
    then show ?thesis
      using loop_moves_pending [OF True j(1)] loop_work_step [OF fair, of j] j(2) by (auto simp: delivers_def)
  next
    case False
    then show ?thesis using loop_only(1) [OF fair_step [OF fair] False] j(1) by simp
  qed
  show "loop_work (node_loop (\<sigma> (Suc j))) < loop_work (node_loop (\<sigma> j))"
    if "loop_moves env (\<sigma> j) (\<omega> j) (\<sigma> (Suc j))"
    using loop_moves_work [OF that] loop_moves_pending(2) [OF that j(1)] j(2) that by (auto simp: delivers_def)
qed

lemma delivered_written:
  assumes fair: "fair_run env su \<sigma> \<omega>" and "delivers env a \<sigma> \<omega> j" and "i \<le> j"
  shows "\<exists>k \<ge> i. \<not> writing (target a) (\<sigma> k) \<or>
    (\<exists>fs. prefix (queued (target a) (trace \<omega> i) @ fs) (written (target a) (trace \<omega> k)) \<and>
      to_frame (sent_message a) \<in> set fs)"
proof -
  let ?p = "target a" and ?f = "to_frame (sent_message a)"
  obtain as now where loop: "node_loop (\<sigma> j) = Delivering (a # as)"
      "event_loop env now (\<sigma> j) = Some (\<omega> j, \<sigma> (Suc j))"
    using assms(2) by (auto simp: delivers_def loop_moves_def)
  from loop(2) obtain n1 where sent: "send_frame ?p ?f (\<sigma> j) = Some (\<omega> j, n1)"
    by (cases rule: event_loop_cases) (use loop(1) in auto)
  show ?thesis
  proof (cases "writing ?p (\<sigma> j)")
    case True
    with sent have "\<omega> j = [Queued ?p ?f]" by (cases rule: send_frame_cases) (auto simp: writing_def)
    moreover obtain tr where "trace \<omega> j = trace \<omega> i @ tr" using trace_mono [OF assms(3)] by blast
    ultimately have "queued ?p (trace \<omega> (Suc j)) = queued ?p (trace \<omega> i) @ queued ?p tr @ [?f]" by simp
    moreover obtain k where "Suc j \<le> k"
      "\<not> writing ?p (\<sigma> k) \<or> prefix (queued ?p (trace \<omega> (Suc j))) (written ?p (trace \<omega> k))"
      using all_written [OF fair] by blast
    ultimately show ?thesis
      using assms(3) by (intro exI [of _ k]) (auto intro!: exI [of _ "queued ?p tr @ [?f]"])
  qed (use assms(3) in blast)
qed

subsection \<open>Lost connections\<close>

lemma task_only:
  assumes step: "node_step env su n obs n'" and other: "\<not> task_moves env p n obs n'"
    and stage: "stage_of p n = Some st" "st \<noteq> Shaking" and ids: "ids_inv n"
  shows "stage_of p n' = Some st \<and> p \<notin> set (leavers (posted obs))"
proof -
  have fresh: "p \<noteq> PeerId (node_counter n)" using ids_fresh [OF ids] stage(1) by (auto simp: stage_of_def)
  have task: "q \<noteq> p" if "hm_get q (node_tasks n) = Some t" "task_stage t = Shaking" for q t
    using that stage by (auto simp: stage_of_def)
  have same: ?thesis if "posted obs = []" "node_tasks n' = node_tasks n"
    using that stage(1) stage_of_tasks [of n' n] by simp
  from step show ?thesis
  proof (cases rule: node_step.cases)
    case (accept l segs)
    then show ?thesis using fresh stage(1) by (simp add: accept_connection_def Let_def stage_of_def)
  next
    case (manager dialled)
    then show ?thesis
      using fresh stage(1)
      by (auto simp: outbound_manager_def Let_def stage_of_def split: manager_state.splits list.splits option.splits)
  next
    case (shake_in q t now ur timed_out)
    then show ?thesis
      using task [OF shake_in(3,4)] inbound_task_cases [OF shake_in(5), of env q now ur timed_out n] stage(1) by auto
  next
    case (shake_out q t now ur timed_out)
    then show ?thesis
      using task [OF shake_out(3,4)] outbound_task_cases [OF shake_out(5), of env q now ur timed_out n] stage(1)
      by auto
  next
    case (peer q t)
    then have "q \<noteq> p" using other by (auto simp: task_moves_def)
    from peer(2) show ?thesis
    proof (rule run_peer_step)
      fix st' assume st': "stage_step env q t obs st'" "n' = set_stage q st' (task_effect q t obs n)"
      have "p \<notin> set (leavers (posted obs))" using st'(1) \<open>q \<noteq> p\<close> by cases auto
      then show ?thesis using st'(2) stage(1) \<open>q \<noteq> p\<close> stage_of_tasks [of "task_effect q t obs n" n] by simp
    qed
  next
    case (loop now)
    then show ?thesis
    proof (cases rule: event_loop_cases)
      case (deliver a actions n1)
      then show ?thesis using same send_frame_keeps(1) [OF deliver(2)] by (simp add: frames_only_def)
    qed (use same in simp_all)
  next
    case ping
    then show ?thesis using same frames_only_ping [OF ping] by (simp add: frames_only_def)
  next
    case (written q)
    then show ?thesis using same frames_only_written [OF written] by (simp add: frames_only_def)
  qed (use same in simp)
qed

lemma fair_ids: "fair_run env su \<sigma> \<omega> \<Longrightarrow> ids_inv (\<sigma> i)"
  using fair_prefix node_run_ids by blast

lemma task_progress:
  assumes fair: "fair_run env su \<sigma> \<omega>" and stage: "stage_of p (\<sigma> i) = Some st" "st \<noteq> Shaking"
    and again: "\<And>j. stage_of p (\<sigma> j) = Some st \<Longrightarrow> \<exists>k \<ge> j. stage_of p (\<sigma> k) = Some st \<longrightarrow> task_enabled env p (\<sigma> k)"
  obtains j where "i \<le> j" "stage_of p (\<sigma> j) = Some st" "task_moves env p (\<sigma> j) (\<omega> j) (\<sigma> (Suc j))"
proof (rule response [where P = "\<lambda>j. stage_of p (\<sigma> j) = Some st" and i = i
      and taken = "\<lambda>j. task_moves env p (\<sigma> j) (\<omega> j) (\<sigma> (Suc j))"])
  show "stage_of p (\<sigma> i) = Some st" by fact
  show "stage_of p (\<sigma> (Suc j)) = Some st"
    if "stage_of p (\<sigma> j) = Some st" "\<not> task_moves env p (\<sigma> j) (\<omega> j) (\<sigma> (Suc j))" for j
    using task_only [OF fair_step [OF fair] that(2,1) stage(2) fair_ids [OF fair]] by blast
  show "\<exists>j \<ge> i. task_moves env p (\<sigma> j) (\<omega> j) (\<sigma> (Suc j))" if "\<And>j. i \<le> j \<Longrightarrow> stage_of p (\<sigma> j) = Some st"
  proof (rule strongly_fair_again [OF _ _ order_refl])
    show "strongly_fair (\<lambda>i. task_enabled env p (\<sigma> i)) (\<lambda>i. task_moves env p (\<sigma> i) (\<omega> i) (\<sigma> (Suc i)))"
      using fair by (simp add: fair_run_def)
    show "\<exists>k \<ge> j. task_enabled env p (\<sigma> k)" if "i \<le> j" for j
      using again [of j] \<open>\<And>j. i \<le> j \<Longrightarrow> stage_of p (\<sigma> j) = Some st\<close> that by (meson le_trans)
  qed
qed (rule that)

lemma stage_ofD: "stage_of p n = Some st \<Longrightarrow> \<exists>t. hm_get p (node_tasks n) = Some t \<and> task_stage t = st"
  by (auto simp: stage_of_def)

lemma task_moves_end:
  "task_moves env p n obs n' \<Longrightarrow> stage_of p n = Some Closing \<Longrightarrow> stage_of p n' = Some Leaving"
  "task_moves env p n obs n' \<Longrightarrow> stage_of p n = Some Leaving \<Longrightarrow> stage_of p n' = Some Finished"
  by (auto simp: task_moves_def run_peer_def post_event_def stage_of_def set_stage_task split: if_splits)

lemma closing_leaves:
  assumes fair: "fair_run env su \<sigma> \<omega>" and stage: "stage_of p (\<sigma> i) = Some Closing"
  obtains j where "i \<le> j" "stage_of p (\<sigma> j) = Some Leaving"
proof -
  have "\<exists>k \<ge> j. stage_of p (\<sigma> k) = Some Closing \<longrightarrow> task_enabled env p (\<sigma> k)" for j
    using free_again [OF fair, of j] by (auto simp: task_enabled_def run_peer_def dest!: stage_ofD)
  then obtain j where j: "i \<le> j" "stage_of p (\<sigma> j) = Some Closing"
      "task_moves env p (\<sigma> j) (\<omega> j) (\<sigma> (Suc j))"
    using task_progress [OF fair stage] by blast
  with that task_moves_end(1) show ?thesis by (meson le_SucI)
qed

lemma leaving_finishes:
  assumes fair: "fair_run env su \<sigma> \<omega>" and stage: "stage_of p (\<sigma> i) = Some Leaving"
  obtains j where "i \<le> j" "stage_of p (\<sigma> j) = Some Finished"
proof -
  have "\<exists>k \<ge> j. stage_of p (\<sigma> k) = Some Leaving \<longrightarrow> task_enabled env p (\<sigma> k)" for j
    using event_room_again [OF fair, of j]
    by (auto simp: task_enabled_def run_peer_def post_event_def dest!: stage_ofD)
  then obtain j where j: "i \<le> j" "stage_of p (\<sigma> j) = Some Leaving"
      "task_moves env p (\<sigma> j) (\<omega> j) (\<sigma> (Suc j))"
    using task_progress [OF fair stage] by blast
  with that task_moves_end(2) show ?thesis by (meson le_SucI)
qed

lemma finished_forgotten:
  assumes fair: "fair_run env su \<sigma> \<omega>" and stage: "stage_of p (\<sigma> i) = Some Finished"
  shows "\<exists>j. \<forall>k \<ge> j. p \<notin> registered (node_router (\<sigma> k)) \<and> p \<notin> hm_dom (node_senders (\<sigma> k))"
proof -
  have kept: "stage_of p (\<sigma> (Suc k)) = Some Finished \<and> p \<notin> set (leavers (posted (\<omega> k)))"
    if "stage_of p (\<sigma> k) = Some Finished" for k
  proof (rule task_only [OF fair_step [OF fair] _ that _ fair_ids [OF fair]])
    show "\<not> task_moves env p (\<sigma> k) (\<omega> k) (\<sigma> (Suc k))"
      using that by (auto simp: task_moves_def run_peer_def stage_of_def)
  qed simp
  have finished: "stage_of p (\<sigma> k) = Some Finished" if "i \<le> k" for k
    by (rule persists [of "\<lambda>k. stage_of p (\<sigma> k) = Some Finished" i, OF stage _ that]) (use kept in blast)
  have silent: "\<exists>es. posted (trace \<omega> k) = posted (trace \<omega> i) @ es \<and> p \<notin> set (leavers es)" if "i \<le> k" for k
    using that
  proof (induction rule: dec_induct)
    case (step k)
    then obtain es where "posted (trace \<omega> k) = posted (trace \<omega> i) @ es" "p \<notin> set (leavers es)" by blast
    then show ?case
      using kept [OF finished [OF step(1)]] by (intro exI [of _ "es @ posted (\<omega> k)"]) simp
  qed simp
  obtain j where j: "i \<le> j" "prefix (posted (trace \<omega> i)) (handled (trace \<omega> j))" using all_handled [OF fair] by blast
  have "p \<notin> registered (node_router (\<sigma> k)) \<and> p \<notin> hm_dom (node_senders (\<sigma> k))" if "j \<le> k" for k
  proof -
    have k: "i \<le> k" using j(1) that by simp
    obtain es where es: "posted (trace \<omega> k) = posted (trace \<omega> i) @ es" "p \<notin> set (leavers es)"
      using silent [OF k] by blast
    obtain hs where "handled (trace \<omega> k) = posted (trace \<omega> i) @ hs"
      using j(2) trace_mono [OF \<open>j \<le> k\<close>, of \<omega>] by (auto simp: prefix_def)
    then have "es = hs @ node_events (\<sigma> k)"
      using es(1) node_run_events [OF fair_prefix [OF fair], of k] by simp
    then have "p \<notin> set (leavers (node_events (\<sigma> k)))" using es(2) by simp
    then show ?thesis
      using fair_registry [OF fair, of k] finished [OF k] by (auto simp: registry_inv_def)
  qed
  then show ?thesis by blast
qed

subsection \<open>Properties\<close>

text \<open>A finite run to a state in which nothing is left to do extends to a fair run that stays there.\<close>

definition quiet :: "'w Env \<Rightarrow> 'w Node \<Rightarrow> bool" where
  "quiet env n \<longleftrightarrow> \<not> loop_enabled env n \<and> (\<forall>p. \<not> task_enabled env p n) \<and>
    \<not> pinging (node_keepalive n) \<and> (\<forall>p. writer env p n = None)"

lemma run_path:
  assumes "node_run env su tr n"
  shows "\<exists>\<sigma> \<omega> k. \<sigma> 0 = Node_new \<and> (\<forall>i < k. node_step env su (\<sigma> i) (\<omega> i) (\<sigma> (Suc i))) \<and>
    (\<forall>i \<ge> k. \<sigma> i = n \<and> \<omega> i = []) \<and> trace \<omega> k = tr"
  using assms
proof (induction rule: node_run.induct)
  case start
  show ?case by (intro exI [of _ "\<lambda>_. Node_new"] exI [of _ "\<lambda>_. []"] exI [of _ 0]) simp
next
  case (step tr n obs n')
  then obtain \<sigma> \<omega> k where path: "\<sigma> 0 = Node_new" "\<forall>i < k. node_step env su (\<sigma> i) (\<omega> i) (\<sigma> (Suc i))"
    "\<forall>i \<ge> k. \<sigma> i = n \<and> \<omega> i = []" "trace \<omega> k = tr"
    by blast
  let ?\<sigma> = "\<lambda>i. if i \<le> k then \<sigma> i else n'" and ?\<omega> = "\<omega>(k := obs)"
  have "trace ?\<omega> j = trace \<omega> j" if "j \<le> k" for j using that by (induction j) auto
  then have "?\<sigma> 0 = Node_new" "\<forall>i \<ge> Suc k. ?\<sigma> i = n' \<and> ?\<omega> i = []" "trace ?\<omega> (Suc k) = tr @ obs"
    using path by auto
  moreover have "\<forall>i < Suc k. node_step env su (?\<sigma> i) (?\<omega> i) (?\<sigma> (Suc i))"
    using path step(3) by (auto simp: less_Suc_eq)
  ultimately show ?case by (intro exI [of _ ?\<sigma>] exI [of _ ?\<omega>] exI [of _ "Suc k"] conjI)
qed

lemma stutter:
  assumes "node_run env su tr n"
  shows "node_step env su n [] n"
proof -
  have "distinct (map fst (router_peers (node_router n)))"
    using reachable_wf [OF node_router_reachable [OF assms]] by (simp add: router_wf_def hm_wf_def)
  then show ?thesis using node_step.rehash [of "router_peers (node_router n)" n env su] by simp
qed

lemma quiet_fair_run:
  assumes run: "node_run env su tr n" and "quiet env n" "\<not> env_debug env"
  obtains \<sigma> \<omega> k where "fair_run env su \<sigma> \<omega>" "\<And>i. k \<le> i \<Longrightarrow> \<sigma> i = n" "trace \<omega> k = tr"
proof -
  obtain \<sigma> \<omega> k where path: "\<sigma> 0 = Node_new" "\<forall>i < k. node_step env su (\<sigma> i) (\<omega> i) (\<sigma> (Suc i))"
    "\<forall>i \<ge> k. \<sigma> i = n \<and> \<omega> i = []" "trace \<omega> k = tr"
    using run_path [OF run] by blast
  have "node_step env su (\<sigma> i) (\<omega> i) (\<sigma> (Suc i))" for i
    using path stutter [OF run] by (cases "i < k") auto
  moreover have rests: "weakly_fair (\<lambda>i. en (\<sigma> i)) taken" "strongly_fair (\<lambda>i. en (\<sigma> i)) taken"
    if "\<not> en n" for en taken
  proof -
    have "\<not> en (\<sigma> j)" if "k \<le> j" for j using path(3) that \<open>\<not> en n\<close> by simp
    then show "weakly_fair (\<lambda>i. en (\<sigma> i)) taken" "strongly_fair (\<lambda>i. en (\<sigma> i)) taken"
      unfolding weakly_fair_def strongly_fair_def by (meson le_trans nle_le max.cobounded1 max.cobounded2)+
  qed
  ultimately have "fair_run env su \<sigma> \<omega>"
    using assms(2,3) path(1) unfolding fair_run_def infinite_run_def quiet_def by (auto intro!: rests)
  with that path(3,4) show ?thesis by blast
qed

lemma demo_fair_run:
  obtains \<sigma> \<omega> k where "fair_run demo_env demo_startup \<sigma> \<omega>" "stage_of (PeerId 1) (\<sigma> k) = Some Finished"
proof -
  obtain r tr where run: "node_run demo_env demo_startup tr
      (solo demo_listener [demo_hello @ []] Finished r [] [] Idle)"
    using solo_left [OF demo_listening demo_established [of "[]"]]
    by (auto simp: demo_connection_def demo_stream node_reachable_def)
  have "quiet demo_env (solo demo_listener [demo_hello @ []] Finished r [] [] Idle)"
    by (auto simp: quiet_def loop_enabled_def event_loop_def task_enabled_def run_peer_def writer_def solo_simps)
  moreover have "\<not> env_debug demo_env" by (simp add: demo_env_def)
  moreover have "stage_of (PeerId 1) (solo demo_listener [demo_hello @ []] Finished r [] [] Idle) = Some Finished"
    by (simp add: stage_of_def solo_simps)
  ultimately show ?thesis using quiet_fair_run [OF run] that by (metis order_refl)
qed

lemma handled_single:
  assumes "event_loop env now n = Some (obs, n')" "handled obs \<noteq> []"
  shows "\<exists>ev. obs = [Handled ev]"
  using assms(1)
proof (cases rule: event_loop_cases)
  case (deliver a actions n1)
  then show ?thesis using send_frame_keeps(1) [OF deliver(2)] assms(2) by (simp add: frames_only_def)
qed (use assms(2) in simp_all)

lemma demo_fair_handled:
  obtains \<sigma> \<omega> k ev where "fair_run demo_env demo_startup \<sigma> \<omega>" "\<omega> k = [Handled ev]"
proof -
  obtain tr where run: "node_run demo_env demo_startup tr (demo_node [])" by (rule demo_node_run)
  have idle: "node_events (demo_node []) = []" by (simp add: demo_node_def solo_def)
  have still: "quiet demo_env (demo_node [])"
    by (auto simp: quiet_def loop_enabled_def event_loop_def task_enabled_def run_peer_def writer_def write_step_def
        new_channel_def demo_node_def demo_task_def solo_simps split: if_splits)
  have "\<not> env_debug demo_env" by (simp add: demo_env_def)
  from run still this obtain \<sigma> \<omega> k where fair: "fair_run demo_env demo_startup \<sigma> \<omega>" and tr: "trace \<omega> k = tr"
    by (rule quiet_fair_run)
  have "history demo_env (PeerId 1) (demo_task []) (task_stage (demo_task [])) (posted_by (PeerId 1) tr)"
    using node_run_session [OF run] demo_node_task [of "[]"] by (simp add: session_inv_def)
  then have "posted_by (PeerId 1) tr \<noteq> []" by (auto simp: demo_task_def)
  then have "posted tr \<noteq> []" by auto
  then have "handled tr \<noteq> []" using node_run_events [OF run] idle by auto
  then have "handled (trace \<omega> k) \<noteq> []" by (simp add: tr)
  then have "\<exists>i. handled (\<omega> i) \<noteq> []" by (induction k) auto
  then obtain i where i: "handled (\<omega> i) \<noteq> []" by blast
  then obtain now where "event_loop demo_env now (\<sigma> i) = Some (\<omega> i, \<sigma> (Suc i))"
    using loop_only(2) [OF fair_step [OF fair], of i] by (auto simp: loop_moves_def)
  from handled_single [OF this i] show ?thesis using that [OF fair] by blast
qed

text \<open>(C6) Every event is handled.  In every fair run of a release build, all events posted up to a
  moment have been handled, in the order in which they were posted, at some later moment at which
  the event loop has also delivered their actions and waits for the next event.\<close>

theorem fair_events_handled:
  assumes "fair_run env su \<sigma> \<omega>"
  shows "\<exists>j \<ge> i. prefix (posted (trace \<omega> i)) (handled (trace \<omega> j)) \<and> node_loop (\<sigma> j) = Idle"
proof -
  obtain k where k: "i \<le> k" "prefix (posted (trace \<omega> i)) (handled (trace \<omega> k))"
    using all_handled [OF assms] by blast
  obtain j where j: "k \<le> j" "node_loop (\<sigma> j) = Idle" using idle_again [OF assms] by blast
  have "prefix (handled (trace \<omega> k)) (handled (trace \<omega> j))" using trace_mono [OF j(1), of \<omega>] by auto
  with k j show ?thesis by (meson le_trans prefix_order.order_trans)
qed

theorem fair_events_handled_witness:
  "\<exists>\<sigma> \<omega> k. fair_run demo_env demo_startup \<sigma> \<omega> \<and> stage_of (PeerId 1) (\<sigma> k) = Some Finished \<and>
    (\<exists>j \<ge> k. prefix (posted (trace \<omega> k)) (handled (trace \<omega> j)) \<and> node_loop (\<sigma> j) = Idle)"
proof -
  obtain \<sigma> \<omega> k where "fair_run demo_env demo_startup \<sigma> \<omega>" "stage_of (PeerId 1) (\<sigma> k) = Some Finished"
    by (rule demo_fair_run)
  then show ?thesis using fair_events_handled [of demo_env demo_startup \<sigma> \<omega> k] by blast
qed

text \<open>(C11) Every message that the router sends reaches the socket.  When the event loop of a fair run
  handles an event, the router computes its actions; for each of them there is a later moment at
  which the frame of its message has been written to the socket of its target, behind all frames
  that were queued for the target before, unless at that moment the target has no running writer
  task because its connection is not open yet, broke or was closed.\<close>

theorem fair_actions_written:
  assumes "fair_run env su \<sigma> \<omega>" "\<omega> i = [Handled ev]"
  shows "\<exists>now r actions. Router_handle_event (env_debug env) now ev (node_router (\<sigma> i)) = Inr (r, actions) \<and>
    node_router (\<sigma> (Suc i)) = r \<and>
    (\<forall>q m. Send q m \<in> set actions \<longrightarrow> (\<exists>k \<ge> i. \<not> writing q (\<sigma> k) \<or>
      (\<exists>fs. prefix (queued q (trace \<omega> i) @ fs) (written q (trace \<omega> k)) \<and> to_frame m \<in> set fs)))"
proof -
  obtain now where "event_loop env now (\<sigma> i) = Some (\<omega> i, \<sigma> (Suc i))"
    using loop_only(2) [OF fair_step [OF assms(1)], of i] assms(2) by (auto simp: loop_moves_def)
  then show ?thesis
  proof (cases rule: event_loop_cases)
    case (handle ev' evs r actions)
    have "\<exists>k \<ge> i. \<not> writing q (\<sigma> k) \<or>
      (\<exists>fs. prefix (queued q (trace \<omega> i) @ fs) (written q (trace \<omega> k)) \<and> to_frame m \<in> set fs)"
      if "Send q m \<in> set actions" for q m
    proof -
      have "Send q m \<in> set (pending_actions (node_loop (\<sigma> (Suc i))))" using handle(5) that by simp
      then obtain j where "Suc i \<le> j" "delivers env (Send q m) \<sigma> \<omega> j"
        using action_delivered [OF assms(1)] by blast
      then show ?thesis using delivered_written [OF assms(1), of "Send q m" j i] by simp
    qed
    then show ?thesis using handle assms(2) by auto
  next
    case (panic ev' evs)
    then show ?thesis using not_panicked [OF assms(1), of "Suc i"] by simp
  next
    case (deliver a actions n1)
    then show ?thesis using send_frame_keeps(1) [OF deliver(2)] assms(2) by (simp add: frames_only_def)
  qed (use assms(2) in simp_all)
qed

theorem fair_actions_written_witness:
  "\<exists>\<sigma> \<omega> i ev now r actions. fair_run demo_env demo_startup \<sigma> \<omega> \<and> \<omega> i = [Handled ev] \<and>
    Router_handle_event False now ev (node_router (\<sigma> i)) = Inr (r, actions) \<and> node_router (\<sigma> (Suc i)) = r"
proof -
  obtain \<sigma> \<omega> i ev where run: "fair_run demo_env demo_startup \<sigma> \<omega>" "\<omega> i = [Handled ev]"
    by (rule demo_fair_handled)
  have "env_debug demo_env = False" by (simp add: demo_env_def)
  with fair_actions_written [OF run] run show ?thesis by metis
qed

text \<open>(C12) Lost connections are cleaned up.  In every fair run of a release build, a peer whose
  connection was lost, so that its task is on the way to its end, is removed from the registry and
  from the map of write channels, and never comes back.\<close>

theorem fair_peers_forgotten:
  assumes "fair_run env su \<sigma> \<omega>" "stage_of p (\<sigma> i) \<in> {Some Closing, Some Leaving, Some Finished}"
  shows "\<exists>j. \<forall>k \<ge> j. p \<notin> registered (node_router (\<sigma> k)) \<and> p \<notin> hm_dom (node_senders (\<sigma> k))"
proof -
  have "\<exists>j. stage_of p (\<sigma> j) = Some Finished"
    using assms(2) closing_leaves [OF assms(1)] leaving_finishes [OF assms(1)] by (metis empty_iff insert_iff)
  then show ?thesis using finished_forgotten [OF assms(1)] by blast
qed

theorem fair_peers_forgotten_witness:
  "\<exists>\<sigma> \<omega> k. fair_run demo_env demo_startup \<sigma> \<omega> \<and> stage_of (PeerId 1) (\<sigma> k) = Some Finished \<and>
    (\<exists>j. \<forall>k \<ge> j. PeerId 1 \<notin> registered (node_router (\<sigma> k)))"
proof -
  obtain \<sigma> \<omega> k where run: "fair_run demo_env demo_startup \<sigma> \<omega>" "stage_of (PeerId 1) (\<sigma> k) = Some Finished"
    by (rule demo_fair_run)
  then have "\<exists>j. \<forall>k \<ge> j. PeerId 1 \<notin> registered (node_router (\<sigma> k))"
    using fair_peers_forgotten [of demo_env demo_startup \<sigma> \<omega> "PeerId 1" k] by auto
  with run show ?thesis by blast
qed

end
