(* ===== verification/Node_Life_Cycle.thy ===== *)
theory Node_Life_Cycle
  imports Node_Session
begin

text \<open>
  The connections of the node and the state machine of \<open>src/protocol/peer.rs\<close>.  \<open>src/main.rs\<close> does
  not use the state machine: its tasks post the events themselves.  They do so in the order that the
  state machine prescribes, with the state that fits the stage of the task.
\<close>

definition peer_machine :: "PeerId \<Rightarrow> Direction \<Rightarrow> PeerState \<Rightarrow> PeerSpec option \<Rightarrow> PeerStateMachine" where
  "peer_machine p d st spec = \<lparr>psm_peer_id = p, psm_direction = d, psm_state = st, psm_spec = spec\<rparr>"

lemma machine_steps:
  "psm_step True (PeerStateMachine_new p d) [] (peer_machine p d Handshaking None)"
  "psm_step True (peer_machine p d Handshaking spec') [] (peer_machine p d Failed spec')"
  "psm_step True (peer_machine p d Handshaking spec') [PeerConnected p spec d] (peer_machine p d Active (Some spec))"
  "psm_step True (peer_machine p d Active spec') [Message p m] (peer_machine p d Active spec')"
  "psm_step True (peer_machine p d Active spec') [PeerDisconnected p reason] (peer_machine p d Disconnected spec')"
  using psm_step.handshaking [of True "PeerStateMachine_new p d"] psm_step.failed [of True _ "peer_machine p d Handshaking spec'"]
    psm_step.active [of True spec "peer_machine p d Handshaking spec'"]
    psm_step.message [of True m "peer_machine p d Active spec'"]
    psm_step.disconnected [of True reason "peer_machine p d Active spec'"]
  by (simp_all add: psm_defs PeerStateMachine_new_def peer_machine_def)

lemma machine_handshaking: "psm_run True (PeerStateMachine_new p d) [] (peer_machine p d Handshaking None)"
  using psm_run.call [OF psm_run.start machine_steps(1)] by simp

lemma machine_failed: "psm_run True (PeerStateMachine_new p d) [] (peer_machine p d Failed None)"
  using psm_run.call [OF machine_handshaking machine_steps(2)] by simp

lemma machine_active:
  "psm_run True (PeerStateMachine_new p d) (PeerConnected p spec d # map (Message p) ms)
    (peer_machine p d Active (Some spec))"
proof (induction ms rule: rev_induct)
  case Nil
  show ?case using psm_run.call [OF machine_handshaking machine_steps(3)] by simp
next
  case (snoc m ms)
  show ?case using psm_run.call [OF snoc machine_steps(4)] by simp
qed

lemma machine_disconnected:
  "psm_run True (PeerStateMachine_new p d)
    (PeerConnected p spec d # map (Message p) ms @ [PeerDisconnected p reason])
    (peer_machine p d Disconnected (Some spec))"
  using psm_run.call [OF machine_active machine_steps(5)] by simp

text \<open>The state that fits a stage, given what the task has posted.\<close>

fun life_state :: "'w stage \<Rightarrow> ProtocolEvent list \<Rightarrow> PeerState" where
  "life_state Shaking evs = Handshaking"
| "life_state (Registering _) evs = Handshaking"
| "life_state (Announcing _) evs = Handshaking"
| "life_state Finished evs = (if evs = [] then Failed else Disconnected)"
| "life_state _ evs = Active"

lemma history_life:
  assumes "history env p t st evs"
  shows "evs = [] \<and> life_state st evs \<in> {Handshaking, Failed} \<or>
    (\<exists>conn later. evs @ later = conn_session env p t conn \<and> evs \<noteq> [] \<and>
      life_state st evs = (if later = [] then Disconnected else Active))"
  using assms by (cases st) (fastforce simp: conn_session_eq)+

text \<open>(C39) The node respects the life cycle of a peer.  For every connection of every reachable node, the
  events that were posted for it are those of a run of the debug build's state machine, in which no
  assertion fails: the machine is handshaking until the peer is announced, active until its
  \<open>PeerDisconnected\<close> event is posted, and then disconnected; it has failed if the task ended
  without having announced the peer.\<close>

theorem node_follows_life_cycle:
  assumes "node_run env su tr n" "hm_get p (node_tasks n) = Some t"
  shows "\<exists>m. psm_run True (PeerStateMachine_new p (task_direction t)) (posted_by p tr) m \<and>
    psm_state m = life_state (task_stage t) (posted_by p tr)"
proof -
  have "history env p t (task_stage t) (posted_by p tr)"
    using node_run_session [OF assms(1)] assms(2) by (simp add: session_inv_def)
  from history_life [OF this] show ?thesis
  proof (elim disjE exE conjE)
    assume "posted_by p tr = []" "life_state (task_stage t) (posted_by p tr) \<in> {Handshaking, Failed}"
    then show ?thesis
      using machine_handshaking [of p "task_direction t"] machine_failed [of p "task_direction t"]
      by (auto simp: peer_machine_def)
  next
    fix conn later
    assume evs: "posted_by p tr @ later = conn_session env p t conn" "posted_by p tr \<noteq> []"
      and life: "life_state (task_stage t) (posted_by p tr) = (if later = [] then Disconnected else Active)"
    let ?spec = "conn_peer_spec conn" and ?d = "task_direction t"
    obtain ms where ms: "conn_session env p t conn =
        PeerConnected p ?spec ?d # map (Message p) ms @ [PeerDisconnected p (ascii ''connection closed'')]"
      by (simp add: conn_session_def session_events_def)
    show ?thesis
    proof (cases "later = []")
      case True
      then show ?thesis
        using evs(1) life machine_disconnected [of p ?d ?spec ms "ascii ''connection closed''"]
        by (intro exI [of _ "peer_machine p ?d Disconnected (Some ?spec)"]) (simp add: ms peer_machine_def)
    next
      case False
      then obtain es e where later: "later = es @ [e]" by (metis rev_exhaust)
      obtain msgs where "posted_by p tr = PeerConnected p ?spec ?d # msgs" "msgs @ es = map (Message p) ms"
        using evs by (cases "posted_by p tr") (auto simp: ms later)
      moreover from this(2) obtain ms' where "msgs = map (Message p) ms'"
        by (metis append_eq_map_conv)
      ultimately show ?thesis
        using False life machine_active [of p ?d ?spec ms']
        by (intro exI [of _ "peer_machine p ?d Active (Some ?spec)"]) (simp add: peer_machine_def)
    qed
  qed
qed

theorem node_follows_life_cycle_witness:
  "\<exists>tr m. node_run demo_env demo_startup tr (demo_node []) \<and>
    psm_run True (PeerStateMachine_new (PeerId 1) Inbound) (posted_by (PeerId 1) tr) m \<and> psm_state m = Active"
proof -
  obtain tr where run: "node_run demo_env demo_startup tr (demo_node [])" by (rule demo_node_run)
  from node_follows_life_cycle [OF run demo_node_task] run show ?thesis by (auto simp: demo_task_def)
qed

end
