(* ===== verification/Node_Manager.thy ===== *)
theory Node_Manager
  imports Node_Runs
begin

text \<open>
  The outbound manager: its waiting time, and what one round over the seeds does.
\<close>

subsection \<open>The waiting time\<close>

lemma backoff_step:
  assumes "node_step env su n obs n'"
  shows "node_backoff n' \<in> {node_backoff n, INITIAL_BACKOFF, min (node_backoff n * 2) MAX_BACKOFF}"
  using assms
proof (cases rule: node_step.cases)
  case (accept l segs)
  then show ?thesis by (simp add: accept_connection_def Let_def spawn_task_def)
next
  case (manager dialled)
  then show ?thesis
    by (auto simp: outbound_manager_def Let_def split: manager_state.splits list.splits option.splits)
next
  case (shake_in p t now ur timed_out)
  then show ?thesis using inbound_task_cases [OF shake_in(5), of env p now ur timed_out n] by auto
next
  case (shake_out p t now ur timed_out)
  then show ?thesis using outbound_task_cases [OF shake_out(5), of env p now ur timed_out n] by auto
next
  case (peer p t)
  from peer(2) show ?thesis by (rule run_peer_step) simp
next
  case (loop now)
  then show ?thesis by (cases rule: event_loop_cases) (auto dest: send_frame_keeps(5))
next
  case ping
  then show ?thesis by (cases rule: keepalive_cases) (auto dest: send_frame_keeps(5))
next
  case (written p)
  then show ?thesis by (rule writer_cases) simp
qed simp

text \<open>(C26) The waiting time of the outbound manager is 5 seconds, doubled with every wait since the
  last successful connection, but at most 5 minutes.\<close>

theorem backoff_bounded:
  assumes "node_run env su tr n"
  shows "\<exists>k. node_backoff n = min (5 * 2 ^ k) 300"
  using assms
proof (induction rule: node_run.induct)
  case start
  show ?case by (rule exI [of _ 0]) (simp add: Node_new_def INITIAL_BACKOFF_def)
next
  case (step tr n obs n')
  then obtain k where k: "node_backoff n = min (5 * 2 ^ k) 300" by blast
  have "node_backoff n' \<in> {min (5 * 2 ^ k) 300, min (5 * 2 ^ 0) 300, min (5 * 2 ^ Suc k) 300}"
    using backoff_step [OF step(3)] by (auto simp: k INITIAL_BACKOFF_def MAX_BACKOFF_def min_def)
  then show ?case by blast
qed

theorem backoff_bounded_witness:
  "\<exists>tr k. node_run demo_env demo_startup tr (demo_node []) \<and>
    node_backoff (demo_node []) = min (5 * 2 ^ k) 300"
proof -
  obtain tr where run: "node_run demo_env demo_startup tr (demo_node [])" by (rule demo_node_run)
  from backoff_bounded [OF run] run show ?thesis by blast
qed

subsection \<open>One round over the seeds\<close>

text \<open>The attempts of a round with their results, each a look at the number of peers and a dial.\<close>

primrec attempts :: "Startup \<Rightarrow> bytes list option list \<Rightarrow> 'w Node \<Rightarrow> 'w Node" where
  "attempts su [] n = n"
| "attempts su (d # ds) n = attempts su ds (outbound_manager su d (outbound_manager su None n))"

definition opened :: "bytes list option list \<Rightarrow> bytes list list" where
  "opened ds = map the (filter (\<lambda>d. d \<noteq> None) ds)"

lemma opened_simps [simp]:
  "opened [] = []" "opened (None # ds) = opened ds" "opened (Some segs # ds) = segs # opened ds"
  by (simp_all add: opened_def)

definition dialed_task :: "Startup \<Rightarrow> bytes list \<Rightarrow> 'w Task" where
  "dialed_task su segs = \<lparr>task_direction = Outbound, task_mode = Full, task_config = su_hs_config su,
    task_segments = segs, task_stage = Shaking\<rparr>"

abbreviation spawn_all :: "Startup \<Rightarrow> bytes list list \<Rightarrow> 'w Node \<Rightarrow> 'w Node" where
  "spawn_all su \<equiv> fold (spawn_task Outbound Full (su_hs_config su))"

lemma dialed_fields:
  "node_router (spawn_task Outbound Full (su_hs_config su) segs n) = node_router n"
  "node_counter (spawn_task Outbound Full (su_hs_config su) segs n) = node_counter n + 1"
  "node_tasks (spawn_task Outbound Full (su_hs_config su) segs n) =
    hm_insert (PeerId (node_counter n)) (dialed_task su segs) (node_tasks n)"
  by (simp_all add: spawn_task_def dialed_task_def)

lemma spawn_all_keeps [simp]:
  "node_router (spawn_all su xs n) = node_router n"
  "node_counter (spawn_all su xs n) = node_counter n + of_nat (length xs)"
  by (induction xs arbitrary: n) (simp_all add: dialed_fields)

lemma spawn_manager:
  "spawn_task direction mode hs segs (n\<lparr>node_backoff := b, node_manager := m\<rparr>) =
    (spawn_task direction mode hs segs n)\<lparr>node_backoff := b, node_manager := m\<rparr>"
  by (simp add: spawn_task_def)

lemma spawn_all_manager:
  "spawn_all su xs (n\<lparr>node_backoff := b, node_manager := m\<rparr>) =
    (spawn_all su xs n)\<lparr>node_backoff := b, node_manager := m\<rparr>"
  by (induction xs arbitrary: n) (simp_all add: spawn_manager)

lemma attempts_short:
  assumes "node_manager n = Seeking addrs" "length ds = length addrs"
    and "length (Router_outbound_peers (node_router n)) < su_min_peers su"
  shows "attempts su ds n = (spawn_all su (opened ds) n)
    \<lparr>node_backoff := if opened ds = [] then node_backoff n else INITIAL_BACKOFF, node_manager := Seeking []\<rparr>"
  using assms
proof (induction ds arbitrary: n addrs)
  case (Cons d ds)
  then obtain addr rest where addrs: "addrs = addr # rest" "length ds = length rest"
    by (cases addrs) auto
  have looked: "outbound_manager su None n = n\<lparr>node_manager := Dialing rest\<rparr>"
    using Cons.prems addrs(1) by (simp add: outbound_manager_def)
  show ?case
  proof (cases d)
    case None
    have "attempts su (d # ds) n = attempts su ds (n\<lparr>node_manager := Seeking rest\<rparr>)"
      by (simp add: looked None) (simp add: outbound_manager_def)
    also have "\<dots> = (spawn_all su (opened ds) (n\<lparr>node_backoff := node_backoff n, node_manager := Seeking rest\<rparr>))
        \<lparr>node_backoff := if opened ds = [] then node_backoff n else INITIAL_BACKOFF, node_manager := Seeking []\<rparr>"
      using Cons.prems(3) by (simp add: Cons.IH [OF _ addrs(2)])
    finally show ?thesis unfolding spawn_all_manager by (simp add: None)
  next
    case (Some segs)
    define n1 where "n1 = (spawn_task Outbound Full (su_hs_config su) segs n)"
    have "attempts su (d # ds) n = attempts su ds (n1\<lparr>node_backoff := INITIAL_BACKOFF, node_manager := Seeking rest\<rparr>)"
      by (simp add: looked Some) (simp add: outbound_manager_def n1_def spawn_task_def)
    also have "\<dots> = (spawn_all su (opened ds) (n1\<lparr>node_backoff := INITIAL_BACKOFF, node_manager := Seeking rest\<rparr>))
        \<lparr>node_backoff := INITIAL_BACKOFF, node_manager := Seeking []\<rparr>"
      using Cons.prems(3) by (simp add: Cons.IH [OF _ addrs(2)] n1_def dialed_fields)
    finally show ?thesis unfolding spawn_all_manager by (simp add: Some n1_def)
  qed
qed simp

lemma spawn_all_older:
  assumes "unat (node_counter n) + length xs < 2 ^ 64" "unat v < unat (node_counter n)"
  shows "hm_get (PeerId v) (node_tasks (spawn_all su xs n)) = hm_get (PeerId v) (node_tasks n)"
  using assms
proof (induction xs arbitrary: n)
  case (Cons segs xs)
  have "unat (node_counter n + 1) = unat (node_counter n) + 1"
    using Cons.prems(1) by (simp add: unat_word_ariths)
  then show ?case using Cons.prems by (auto simp: Cons.IH dialed_fields hm_simps)
qed simp

lemma spawn_all_task:
  assumes "unat (node_counter n) + length xs < 2 ^ 64" "k < length xs"
  shows "hm_get (PeerId (node_counter n + of_nat k)) (node_tasks (spawn_all su xs n)) = Some (dialed_task su (xs ! k))"
  using assms
proof (induction xs arbitrary: n k)
  case (Cons segs xs)
  define n1 where "n1 = spawn_task Outbound Full (su_hs_config su) segs n"
  have n1: "node_counter n1 = node_counter n + 1" "unat (node_counter n + 1) = unat (node_counter n) + 1"
      "hm_get (PeerId (node_counter n)) (node_tasks n1) = Some (dialed_task su segs)"
    using Cons.prems(1) by (simp_all add: n1_def unat_word_ariths dialed_fields hm_simps)
  show ?case
  proof (cases k)
    case 0
    then show ?thesis
      using spawn_all_older [of n1 xs "node_counter n" su] n1 Cons.prems(1) by (simp flip: n1_def)
  next
    case (Suc j)
    then show ?thesis using Cons.IH [of n1 j] n1 Cons.prems by (simp add: add.assoc flip: n1_def)
  qed
qed simp


text \<open>Two seeds and one missing peer: both are dialled, and the second one opens.\<close>

definition demo_seeds :: Startup where
  "demo_seeds = demo_startup\<lparr>su_min_peers := 1,
    su_seeds := [SocketAddrV4 [10, 0, 0, 1] 9023, SocketAddrV4 [10, 0, 0, 2] 9023]\<rparr>"


end
