(* ===== verification/Node_Types.thy ===== *)
theory Node_Types
  imports Node_Channels
begin

text \<open>
  The types of the source that the model represents by larger ones: a modifier id is an array of 32
  bytes, a map has one entry for a key, a message is one that the parser can produce.  Every
  reachable node stays within them.
\<close>

subsection \<open>The modifiers in the tables\<close>

definition router_keys :: "Router \<Rightarrow> ModifierId set" where
  "router_keys r = hm_dom (inv_entries (router_inv_table r)) \<union> hm_dom (req_pending (router_requests r)) \<union>
    hm_dom (lat_pending (router_latency r))"

lemma hm_dom_retain: "hm_dom (hm_retain P m) \<subseteq> hm_dom m"
  by (auto simp: hm_dom_def hm_retain_def)

lemma inv_keys:
  "hm_dom (inv_entries (fold (\<lambda>i. InvTable_record i source) ids t)) = set ids \<union> hm_dom (inv_entries t)"
  by (induction ids arbitrary: t) (auto simp: InvTable_record_def)

lemma request_iteration_keys: "router_keys (request_iteration t source i r) \<subseteq> router_keys r"
  by (auto simp: router_keys_def request_iteration_def RequestTracker_record_def
      LatencyTracker_record_request_def InvTable_lookup_def hm_dom_get split: option.splits)

lemma response_iteration_keys: "router_keys (response_iteration t i r) \<subseteq> router_keys r"
  by (auto simp: router_keys_def response_iteration_def RequestTracker_fulfill_def
      LatencyTracker_record_response_def Let_def split: option.splits)

lemma request_keys: "router_keys (fst (route_request_loop now source mt ids r)) \<subseteq> router_keys r"
proof (induction ids arbitrary: now r)
  case (Cons i ids)
  from subset_trans [OF Cons.IH request_iteration_keys] show ?case
    by (simp add: route_request_Cons case_prod_unfold Let_def)
qed simp

lemma response_keys: "router_keys (fst (route_response_loop now mt ms r)) \<subseteq> router_keys r"
proof (induction ms arbitrary: now r)
  case (Cons m ms)
  obtain i data where m: "m = (i, data)" by force
  from subset_trans [OF Cons.IH response_iteration_keys] show ?case
    by (simp add: m route_response_Cons case_prod_unfold Let_def)
qed simp

lemma disconnect_keys:
  "Router_disconnect dbg p r = Inr (r', actions) \<Longrightarrow> router_keys r' \<subseteq> router_keys r"
  by (auto dest!: subsetD [OF hm_dom_retain] simp: Router_disconnect_def InvTable_purge_peer_eq InvTable_retain_def
      RequestTracker_purge_peer_def LatencyTracker_purge_peer_def router_keys_def Let_def split: sum.splits)

lemma message_keys:
  assumes "msg_ok m" "Router_route_message dbg now p m r = Inr (r', actions)"
    and "\<forall>i \<in> router_keys r. is_modifier_id i"
  shows "\<forall>i \<in> router_keys r'. is_modifier_id i"
proof -
  have ?thesis if "route_request_loop now p mt ids r = (r', actions)" for mt ids
    using request_keys [of now p mt ids r] that assms(3) by auto
  moreover have ?thesis if "route_response_loop now mt ms r = (r', actions)" for mt ms
    using response_keys [of now mt ms r] that assms(3) by auto
  moreover have ?thesis if "router_inv_table r' = router_inv_table r" "router_requests r' = router_requests r"
    "router_latency r' = router_latency r"
    using that assms(3) by (simp add: router_keys_def)
  ultimately show ?thesis
    using assms
    by (auto simp: Router_route_message_def route_inv_def route_sync_info_def Let_def router_keys_def inv_keys
        list_all_iff split: option.splits ProtocolMessage.splits if_splits Direction.splits prod.splits sum.splits)
qed

lemma event_keys:
  assumes "Router_handle_event dbg now ev r = Inr (r', actions)" "\<And>p m. ev = Message p m \<Longrightarrow> msg_ok m"
    and "\<forall>i \<in> router_keys r. is_modifier_id i"
  shows "\<forall>i \<in> router_keys r'. is_modifier_id i"
proof (cases ev)
  case (Message p m)
  then show ?thesis using message_keys assms by auto
next
  case (PeerDisconnected p reason)
  then show ?thesis using disconnect_keys assms(1,3) by fastforce
qed (use assms in auto)

subsection \<open>Runs of the node\<close>

definition maps_wf :: "'w Node \<Rightarrow> bool" where
  "maps_wf n \<longleftrightarrow> hm_wf (node_tasks n) \<and> hm_wf (node_senders n) \<and>
    (\<forall>i \<in> router_keys (node_router n). is_modifier_id i)"

lemma send_frame_maps:
  "send_frame p f n = Some (obs, n') \<Longrightarrow> maps_wf n \<Longrightarrow> maps_wf n'"
  by (elim send_frame_cases) (auto simp: maps_wf_def intro: hm_wf_intros)

lemma task_effect_maps: "maps_wf n \<Longrightarrow> maps_wf (set_stage p st (task_effect p t obs n))"
  by (auto simp: maps_wf_def set_stage_def task_effect_def router_keys_def Router_register_peer_def
      split: option.splits stage.splits intro: hm_wf_intros)

lemma event_loop_maps:
  assumes "event_loop env now n = Some (obs, n')" "maps_wf n"
    and "\<And>p m. Message p m \<in> set (node_events n) \<Longrightarrow> msg_ok m"
  shows "maps_wf n'"
  using assms(1)
proof (cases rule: event_loop_cases)
  case (handle ev evs r actions)
  then show ?thesis using assms(2,3) event_keys [OF handle(4)] by (auto simp: maps_wf_def)
next
  case (deliver a actions n1)
  then show ?thesis using assms(2) send_frame_maps [OF deliver(2)] by (simp add: maps_wf_def)
qed (use assms(2) in \<open>simp_all add: maps_wf_def\<close>)

lemma keepalive_maps:
  assumes "keepalive n = Some (obs, n')" "maps_wf n"
  shows "maps_wf n'"
  using assms(1)
proof (cases rule: keepalive_cases)
  case (deliver p ps n1)
  then show ?thesis using assms(2) send_frame_maps [OF deliver(2)] by (simp add: maps_wf_def)
qed (use assms(2) in \<open>simp_all add: maps_wf_def\<close>)

lemma node_run_maps: "node_run env su tr n \<Longrightarrow> maps_wf n"
proof (induction rule: node_run.induct)
  case start
  show ?case
    by (simp add: maps_wf_def Node_new_def Router_new_def router_keys_def InvTable_new_def
        RequestTracker_new_def LatencyTracker_new_def hm.wf_new)
next
  case (step tr n obs n')
  have msgs: "msg_ok m" if "Message p m \<in> set (node_events n)" for p m
    using node_run_sendable [OF step(1)] that by (auto simp: sendable_inv_def sendable_def)
  from step(3) show ?case
  proof (cases rule: node_step_elim)
    case (spawn d mo hs segs b m)
    then show ?thesis using step.IH by (simp add: maps_wf_def spawn_task_def hm.wf_insert)
  next
    case (peer p t st)
    then show ?thesis using step.IH task_effect_maps by blast
  next
    case (loop now)
    then show ?thesis using step.IH event_loop_maps msgs by blast
  next
    case ping
    then show ?thesis using step.IH keepalive_maps by blast
  next
    case (written p)
    then show ?thesis using step.IH by (elim writer_cases) (simp add: maps_wf_def hm.wf_insert)
  qed (use step.IH in \<open>simp_all add: maps_wf_def router_keys_def\<close>)
qed

text \<open>(C18) Every reachable node is well typed: each of its maps has at most one entry for a key, every
  modifier in the tables of the router is an array of 32 bytes, every message of a waiting event and
  of an action in work is one that the parser produces from its own frame, every peer id in use has
  been given out by the counter, and the two kinds of channel hold at most 256 events and 64 frames.\<close>

theorem node_well_typed:
  assumes "node_run env su tr n"
  shows "router_wf (node_router n) \<and> hm_wf (node_tasks n) \<and> hm_wf (node_senders n) \<and>
    (\<forall>i \<in> router_keys (node_router n). length i = 32) \<and>
    (\<forall>p m. Message p m \<in> set (node_events n) \<or> Send p m \<in> set (pending_actions (node_loop n)) \<longrightarrow>
      from_frame (to_frame m) = Inr m) \<and>
    (\<forall>k. PeerId k \<in> hm_dom (node_tasks n) \<longrightarrow> k < node_counter n) \<and>
    length (node_events n) \<le> 256 \<and>
    (\<forall>p ch. hm_get p (node_senders n) = Some ch \<longrightarrow> length (chan_queue ch) \<le> 64)"
proof -
  have "sendable m" if "Message p m \<in> set (node_events n) \<or> Send p m \<in> set (pending_actions (node_loop n))"
    for p m using node_run_sendable [OF assms] that by (auto simp: sendable_inv_def)
  then have "from_frame (to_frame m) = Inr m"
    if "Message p m \<in> set (node_events n) \<or> Send p m \<in> set (pending_actions (node_loop n))" for p m
    using that from_frame_to_frame by (auto simp: sendable_def)
  moreover have "k < node_counter n" if "PeerId k \<in> hm_dom (node_tasks n)" for k
    using node_run_ids [OF assms] that by (auto simp: ids_inv_def stage_of_def hm_dom_get)
  ultimately show ?thesis
    using reachable_wf [OF node_router_reachable [OF assms]] node_run_maps [OF assms]
      node_run_events [OF assms] node_run_queue [OF assms]
    by (simp add: maps_wf_def is_modifier_id_def queue_inv_def EVENT_CAPACITY_def WRITE_CAPACITY_def)
qed

theorem node_well_typed_witness:
  "\<exists>tr. node_run demo_env demo_startup tr (demo_node []) \<and> hm_wf (node_tasks (demo_node [])) \<and>
    hm_dom (node_tasks (demo_node [])) = {PeerId 1} \<and> 1 < node_counter (demo_node [])"
proof -
  obtain tr where run: "node_run demo_env demo_startup tr (demo_node [])" by (rule demo_node_run)
  have "hm_dom (node_tasks (demo_node [])) = {PeerId 1}" by (simp add: demo_node_def solo_def hm_dom_def)
  with node_well_typed [OF run] run show ?thesis by auto
qed

end
