(* ===== verification/Spec2Isabelle.thy ===== *)
theory Spec2Isabelle
  imports Rrd Node_Safety Node_Stall Node_Eventually Node_Life_Cycle Node_Manager Node_Types
begin

text \<open>
  A verification development of \<open>ergo-proxy\<close>, a relay for the peer-to-peer network of Ergo.
  Paths are relative to the repository.

  \<^bold>\<open>The program.\<close>  A node accepts inbound connections, keeps outbound connections to
  seed peers, and forwards messages between the two sides.  Bytes of a connection are first a
  handshake and then frames (\<open>src/transport\<close>); frames are parsed to protocol messages and peers
  have a life cycle (\<open>src/protocol\<close>); a router decides for every event which messages go to whom,
  with an inventory table, a request tracker, a sync tracker and a latency tracker
  (\<open>src/routing\<close>); \<open>src/main.rs\<close> runs the tasks around the router and \<open>src/config.rs\<close> reads the
  configuration.

  \<^bold>\<open>The theories\<close>, in the order of the layers:

  \<^item> \<open>Proxy_Prelude\<close>: machine integers as words, byte strings, I/O errors, readers as functions from
    the remaining bytes to a result and the bytes left, and the locales \<open>codec\<close> and
    \<open>tight_codec\<close>, the contract between an encoder and a reader.  \<open>Proxy_Types\<close>: \<open>src/types.rs\<close>.
  \<^item> \<open>Vlq\<close>: \<open>src/transport/vlq.rs\<close>.  Lemmas: \<open>read_vlq\<close> inverts \<open>write_vlq\<close>, agrees with a reference
    that does not loop, and \<open>write_vlq\<close> is shortest; UTF-8 validation of short strings.
  \<^item> \<open>Frame\<close>: \<open>src/transport/frame.rs\<close>.  The decoders accept exactly the encodings of frames within the
    limit; the blake2b digest is the parameter \<open>digest\<close>, of which only the length of 32 bytes is
    assumed (\<open>digest32\<close>).
  \<^item> \<open>Handshake\<close>: \<open>src/transport/handshake.rs\<close>.  Round trip of \<open>build\<close> and \<open>parse\<close>, the exact meaning
    of \<open>measure_size\<close> and \<open>validate_peer\<close>.
  \<^item> \<open>Connection\<close>: \<open>src/transport/connection.rs\<close>.  The handshake in both directions over a buffered
    stream that delivers the bytes in segments.
  \<^item> \<open>Messages\<close>: \<open>src/protocol/messages.rs\<close>.  \<open>Peer\<close>: \<open>src/protocol/peer.rs\<close>, the state machine with a
    transition relation labelled with the events.
  \<^item> \<open>Hash_Map\<close>: what the routing tables use of \<open>HashMap\<close>, as the locale \<open>hash_map\<close>, and the locales
    \<open>peer_table\<close> and \<open>pending_table\<close>, the contract of a table that assigns peers to modifiers.
    \<open>Inv_Table\<close>, \<open>Tracker\<close> and \<open>Latency\<close> model the files of the same names in \<open>src/routing\<close> and
    interpret these locales.
  \<^item> \<open>Router\<close>: \<open>src/routing/router.rs\<close> with the transition relation \<open>router_step\<close> and the invariant
    \<open>router_ok\<close>.  \<open>Router_Safety\<close> shows that the tables refer to registered peers only, that actions
    go to registered peers, and how the sync tracker breaks this; \<open>Router_Delivery\<close> shows what is
    sent for each message.
  \<^item> \<open>Config\<close>: \<open>src/config.rs\<close>.
  \<^item> \<open>Relay\<close>: the path of a message from the bytes of one peer to the bytes for another.
  \<^item> \<open>Startup\<close>: the set-up in \<open>main\<close> of \<open>src/main.rs\<close>, from the arguments of the program to those of
    its tasks.
  \<^item> \<open>Node\<close>: the tasks of \<open>src/main.rs\<close> as the transition relation \<open>node_step\<close> on one state: \<open>accept_loop\<close>,
    \<open>outbound_manager\<close>, \<open>run_peer\<close> with the tasks that call it, the writer tasks, the keepalive task and
    the event loop.  \<open>node_run\<close> are its runs with what can be observed of them: events posted and
    handled, frames queued and written.
  \<^item> \<open>Node_Steps\<close> has case analyses of the transitions, \<open>Node_Invariants\<close> the invariants of the registry,
    the peer ids and the lock of \<open>peer_senders\<close>, and \<open>Node_Runs\<close> ways to construct runs.
  \<^item> \<open>Node_Safety\<close>: the registry and the channels follow the connections, nothing is left of peers that
    left, proxies do not chain, and the limit of a listener can be exceeded.  \<open>Node_Stall\<close>: a peer that
    does not read stops the event loop.  \<open>Node_Session\<close>: the events of a connection are the session
    that its bytes describe, and are handled in order.  \<open>Node_Channels\<close>: frames are written in the
    order in which they were queued, and the peer can read what it gets.  \<open>Node_Life_Cycle\<close>: the
    events follow the state machine of \<open>src/protocol/peer.rs\<close>.  \<open>Node_Manager\<close>: the rounds and the
    waiting time of the outbound manager.  \<open>Node_Types\<close>: the state stays within the types of the source.
  \<^item> \<open>Node_Liveness\<close>: there is no deadlock, the event loop, the keepalive task and the writers can always
    handle what was posted.  \<open>Fairness\<close> has weak and strong fairness along infinite runs, with
    their rules; \<open>Node_Fairness\<close> defines the fair runs of the node, and \<open>Node_Eventually\<close> shows that in
    each of them every event is handled, every message the router sends is written to its socket or
    the connection breaks, and lost peers are forgotten.
  \<^item> \<open>Rrd\<close>: the latency export in \<open>main\<close>, with the text of its updates.

  \<^bold>\<open>How the code is modelled.\<close>  A struct is a record whose fields carry a prefix, an enum a datatype.
  A method \<open>m\<close> of a type \<open>T\<close> is the function \<open>T_m\<close>; a method that changes its receiver returns the
  new value.  Errors are values: \<open>io_result\<close> for \<open>io::Result\<close>.  Debug assertions are modelled with
  a parameter \<open>dbg\<close> that says whether they are compiled in; a failing one is the result
  \<open>Inl DebugAssert\<close>.  Strings are their UTF-8 bytes, arrays are lists with a length predicate,
  \<open>usize\<close> is a natural number, the fixed-width integers are words.  A hash map is the list of its
  entries in iteration order, and the router's transition relation permutes the registry at will,
  so that no result depends on the order.  The clock, random bytes, the file system, the TOML
  parser, the digest and the writer of a connection are arguments.

  The node is a labelled transition system.  Every task proceeds in steps from one await point to
  the next, and the steps of all tasks interleave in any order.  A mutex that is released before the
  next await point is part of the step; the mutex of \<open>peer_senders\<close>, which the event loop and the
  keepalive task hold across await points, is the predicate \<open>senders_free\<close>, which the steps that
  need it require.  A channel is a list with the capacity of the source, and a send that has to wait
  has no step.  Timers may fire at any time.  The remote side of a connection is any list of
  segments and any behaviour of the writer.

  A buffered reader returns at most 8 KiB at once, the default of \<open>BufReader\<close>.

  \<^bold>\<open>Bounds and fuel.\<close>  The loops over bytes and lists terminate by the length of their input
  (\<open>read_vlq_loop\<close> by the bound of its shift), so no fuel is used, except in \<open>read_frames\<close>, which
  stands for the reader loop of a peer: its first argument bounds the number of frames.  It is one
  more than the frames in the stream where these are known, and the length of the stream in
  \<open>session_messages\<close>, which is enough because every frame takes at least one byte.  The counter of
  peer ids is a 64-bit word; \<open>node_step\<close> requires that it does not wrap around, which would take
  \<open>2^64 - 1\<close> connections.

  \<^bold>\<open>Not modelled.\<close>  Log output, which has no effect on the program, and the installation of its filter.
  The scheduler and the timers of the runtime: a fair run schedules every task again and again, but
  nothing is said about how much time passes.
  The program \<open>rrdtool\<close> itself.  \<open>f64\<close> is idealised to real numbers.  Partial writes and read errors
  of a socket between two segments are not distinguished, and the abort of a writer task happens
  together with the removal of its channel.  The module files contain declarations only.
\<close>

end
